(* ===== verification/FB_Prelude.thy ===== *)
theory FB_Prelude
  imports Main "HOL-Library.Word" "HOL-Library.List_Lexorder" "HOL-Library.Char_ord"
begin

text \<open>
  Shared vocabulary of the development: the machine integers of the Rust sources as words,
  the standard-library operations the sources call (saturating arithmetic, little-endian
  byte conversion, fixed-width hexadecimal formatting and parsing, string splitting, the
  binary search behind \<open>partition_point\<close>) and the generic facts about lists and finite
  sets that the components share.

  A Rust \<open>&str\<close> is the list of its UTF-8 bytes, so \<open>length\<close> is Rust's \<open>len()\<close>.
  A \<open>Result<T, E>\<close> is the sum \<open>'e + 'a\<close> with \<open>Inl\<close> for \<open>Err\<close>.
\<close>

unbundle bit_operations_syntax

section \<open>Machine integers\<close>

type_synonym u8 = "8 word"
type_synonym u16 = "16 word"
type_synonym u32 = "32 word"
type_synonym u64 = "64 word"
type_synonym u128 = "128 word"

type_synonym bytes = "u8 list"

named_theorems word_nat
  \<comment> \<open>reads a word comparison or operation as one on natural numbers\<close>

lemmas word_nat_basic [word_nat] = word_less_nat_alt word_le_nat_alt

definition saturating_add :: "'a::len word \<Rightarrow> 'a word \<Rightarrow> 'a word" where
  "saturating_add a b = (if a + b < a then - 1 else a + b)"

definition saturating_sub :: "'a::len word \<Rightarrow> 'a word \<Rightarrow> 'a word" where
  "saturating_sub a b = (if a < b then 0 else a - b)"

lemma unat_less_pow [simp]: "unat (w :: 'a::len word) < 2 ^ LENGTH('a)"
  by (rule unsigned_less)

lemma unat_all_ones: "unat (- 1 :: 'a::len word) = 2 ^ LENGTH('a) - 1"
  by (simp add: unsigned_minus_1_eq_mask mask_eq_exp_minus_1)

lemma unat_succ: "w \<noteq> - 1 \<Longrightarrow> unat (w + 1) = unat (w::'a::len word) + 1"
proof -
  assume "w \<noteq> - 1"
  then have "unat w \<noteq> 2 ^ LENGTH('a) - 1"
    by (metis unat_all_ones word_unat_eq_iff)
  then have "unat w + 1 < 2 ^ LENGTH('a)"
    using unat_less_pow [of w] by linarith
  then show ?thesis
    by (simp add: unat_word_ariths)
qed

lemma less_succ: "w \<noteq> - 1 \<Longrightarrow> (w::'a::len word) < w + 1"
  by (simp add: word_less_nat_alt unat_succ)

lemma saturating_add_succ: "w \<noteq> - 1 \<Longrightarrow> saturating_add w 1 = (w::'a::len word) + 1"
  using less_succ [of w] by (simp add: saturating_add_def leD)

lemma unat_saturating_add [word_nat]:
  "unat (saturating_add a b) = min (unat a + unat b) (2 ^ LENGTH('a) - 1)"
  for a b :: "'a::len word"
proof (cases "unat a + unat b < 2 ^ LENGTH('a)")
  case True
  then have s: "unat (a + b) = unat a + unat b"
    by (simp add: unat_add_lem)
  then have "\<not> a + b < a"
    by (simp add: word_less_nat_alt)
  with s True show ?thesis
    by (simp add: saturating_add_def)
next
  case False
  have "unat a + unat b - 2 ^ LENGTH('a) < 2 ^ LENGTH('a)"
    using unat_less_pow [of a] unat_less_pow [of b] by linarith
  then have "(unat a + unat b) mod 2 ^ LENGTH('a) = unat a + unat b - 2 ^ LENGTH('a)"
    using False by (simp only: le_mod_geq not_less mod_less)
  then have "unat (a + b) = unat a + unat b - 2 ^ LENGTH('a)"
    by (simp only: unat_word_ariths)
  moreover have "\<dots> < unat a"
    using False unat_less_pow [of b] by linarith
  ultimately have "a + b < a"
    by (simp add: word_less_nat_alt)
  with False show ?thesis
    by (simp add: saturating_add_def unat_all_ones)
qed

lemma unat_saturating_sub [word_nat]: "unat (saturating_sub a b) = unat a - unat b"
  by (auto simp: saturating_sub_def word_less_nat_alt unat_sub_if')

lemma unat_min [word_nat]: "unat (min a b) = min (unat a) (unat b)"
  and unat_max [word_nat]: "unat (max a b) = max (unat a) (unat b)"
  by (simp_all add: min_def max_def word_le_nat_alt)

section \<open>Little-endian bytes\<close>

text \<open>
  \<open>to_le_bytes\<close> and \<open>from_le_bytes\<close>, as the integer methods of the standard library:
  the number of bytes is that of the integer type and is given explicitly.
\<close>

fun to_le_bytes :: "nat \<Rightarrow> 'a::len word \<Rightarrow> bytes" where
  "to_le_bytes 0 w = []"
| "to_le_bytes (Suc n) w = ucast w # to_le_bytes n (drop_bit 8 w)"

fun from_le_bytes :: "bytes \<Rightarrow> 'a::len word" where
  "from_le_bytes [] = 0"
| "from_le_bytes (b # bs) = ucast b OR push_bit 8 (from_le_bytes bs)"

lemma length_to_le_bytes [simp]: "length (to_le_bytes n w) = n"
  by (induction n arbitrary: w) auto

lemma from_to_le_bytes:
  "from_le_bytes (to_le_bytes n w) = take_bit (8 * n) (w :: 'a::len word)"
proof (induction n arbitrary: w)
  case 0
  show ?case by simp
next
  case (Suc n)
  have "from_le_bytes (to_le_bytes (Suc n) w) =
      ucast (ucast w :: u8) OR push_bit 8 (take_bit (8 * n) (drop_bit 8 w))"
    by (simp add: Suc.IH)
  also have "\<dots> = take_bit (8 * Suc n) w"
    by (rule bit_word_eqI) (auto simp: bit_simps not_less)
  finally show ?case .
qed

lemma from_to_le_bytes_full [simp]:
  "8 * n = LENGTH('a) \<Longrightarrow> from_le_bytes (to_le_bytes n w) = (w :: 'a::len word)"
  by (simp add: from_to_le_bytes take_bit_word_eq_self)

lemma to_from_le_bytes:
  "8 * length bs \<le> LENGTH('a) \<Longrightarrow>
    to_le_bytes (length bs) (from_le_bytes bs :: 'a::len word) = bs"
proof (induction bs)
  case Nil
  show ?case by simp
next
  case (Cons b bs)
  let ?r = "from_le_bytes bs :: 'a word"
  have lo: "ucast (ucast b OR push_bit 8 ?r) = b"
    using Cons.prems by (intro bit_word_eqI) (auto simp: bit_simps)
  have top: "take_bit (8 * length bs) ?r = ?r"
  proof -
    have "from_le_bytes (to_le_bytes (length bs) ?r) = take_bit (8 * length bs) ?r"
      by (rule from_to_le_bytes)
    then show ?thesis using Cons by simp
  qed
  have "drop_bit 8 (ucast b OR push_bit 8 ?r) = take_bit (LENGTH('a) - 8) ?r"
    by (rule bit_word_eqI) (auto simp: bit_simps dest: bit_imp_le_length)
  also have "\<dots> = ?r"
  proof -
    have "take_bit (LENGTH('a) - 8) (take_bit (8 * length bs) ?r) = take_bit (8 * length bs) ?r"
      using Cons.prems by (simp only: take_bit_take_bit) (simp add: min.absorb2)
    then show ?thesis by (simp only: top)
  qed
  finally show ?case
    using Cons lo by simp
qed

lemma to_from_le_bytes_full [simp]:
  assumes "length bs = n" and "8 * n \<le> LENGTH('a)"
  shows "to_le_bytes n (from_le_bytes bs :: 'a::len word) = bs"
  using to_from_le_bytes [of bs, where 'a = 'a] assms by simp

section \<open>Hexadecimal text\<close>

definition hex_digit :: "nat \<Rightarrow> char" where
  "hex_digit n = ''0123456789abcdef'' ! (n mod 16)"

text \<open>
  \<open>format!("{:0wx}", n)\<close> for a value that fits in \<open>w\<close> digits, which is the only way the
  sources use it (\<open>u8\<close> with 2 digits, \<open>u32\<close> with 8, \<open>u64\<close> with 16).
\<close>

fun hex_fixed :: "nat \<Rightarrow> nat \<Rightarrow> string" where
  "hex_fixed 0 n = []"
| "hex_fixed (Suc w) n = hex_fixed w (n div 16) @ [hex_digit (n mod 16)]"

definition to_digit16 :: "char \<Rightarrow> nat option" where
  "to_digit16 c = (let n = (of_char c :: nat) in
     if 48 \<le> n \<and> n \<le> 57 then Some (n - 48)
     else if 97 \<le> n \<and> n \<le> 102 then Some (n - 87)
     else if 65 \<le> n \<and> n \<le> 70 then Some (n - 55)
     else None)"

fun parse_hex :: "nat \<Rightarrow> string \<Rightarrow> nat option" where
  "parse_hex acc [] = Some acc"
| "parse_hex acc (c # cs) =
     (case to_digit16 c of None \<Rightarrow> None | Some d \<Rightarrow> parse_hex (acc * 16 + d) cs)"

text \<open>
  \<open>uN::from_str_radix(s, 16).ok()\<close> for an unsigned type of \<open>bits\<close> bits. The standard
  library accepts one leading plus sign, and rejects an empty string, a lone sign, any
  other character and a value that does not fit.
\<close>

definition from_str_radix16 :: "nat \<Rightarrow> string \<Rightarrow> nat option" where
  "from_str_radix16 bits s =
     (if s = [] \<or> s = ''+'' \<or> s = ''-'' then None
      else case parse_hex 0 (if hd s = CHR ''+'' then tl s else s) of
        None \<Rightarrow> None
      | Some n \<Rightarrow> if n < 2 ^ bits then Some n else None)"

lemma length_hex_fixed [simp]: "length (hex_fixed w n) = w"
  by (induction w arbitrary: n) auto

lemma to_digit16_hex_digit_all: "\<forall>n \<in> set [0..<16]. to_digit16 (hex_digit n) = Some n"
  by (simp add: upt_rec hex_digit_def to_digit16_def)

lemma to_digit16_hex_digit: "n < 16 \<Longrightarrow> to_digit16 (hex_digit n) = Some n"
  using to_digit16_hex_digit_all by simp

lemma hex_digit_set: "hex_digit n \<in> set ''0123456789abcdef''"
  unfolding hex_digit_def by (rule nth_mem) simp

lemma set_hex_fixed: "set (hex_fixed w n) \<subseteq> set ''0123456789abcdef''"
  by (induction w arbitrary: n) (use hex_digit_set in auto)

lemma parse_hex_append:
  "parse_hex acc (xs @ ys) = (case parse_hex acc xs of None \<Rightarrow> None | Some a \<Rightarrow> parse_hex a ys)"
  by (induction xs arbitrary: acc) (auto split: option.splits)

lemma parse_hex_fixed: "n < 16 ^ w \<Longrightarrow> parse_hex acc (hex_fixed w n) = Some (acc * 16 ^ w + n)"
proof (induction w arbitrary: n)
  case 0
  then show ?case by simp
next
  case (Suc w)
  then have "n div 16 < 16 ^ w"
    by (simp add: less_mult_imp_div_less mult.commute)
  then have "parse_hex acc (hex_fixed (Suc w) n) =
      Some ((acc * 16 ^ w + n div 16) * 16 + n mod 16)"
    by (simp add: Suc.IH parse_hex_append to_digit16_hex_digit)
  then show ?case
    by (simp add: algebra_simps)
qed

lemma hex_fixed_inj:
  assumes "n < 16 ^ w" and "m < 16 ^ w"
  shows "hex_fixed w n = hex_fixed w m \<longleftrightarrow> n = m"
proof
  assume e: "hex_fixed w n = hex_fixed w m"
  have "Some n = parse_hex 0 (hex_fixed w n)"
    using parse_hex_fixed [OF assms(1), of 0] by simp
  also have "\<dots> = parse_hex 0 (hex_fixed w m)"
    by (simp only: e)
  also have "\<dots> = Some m"
    using parse_hex_fixed [OF assms(2), of 0] by simp
  finally show "n = m" by simp
qed simp

lemma from_str_radix16_hex_fixed:
  assumes "0 < w" and "n < 16 ^ w" and "n < 2 ^ bits"
  shows "from_str_radix16 bits (hex_fixed w n) = Some n"
proof -
  have ne: "hex_fixed w n \<noteq> []"
    using assms(1) by (cases w) auto
  then have "hd (hex_fixed w n) \<in> set ''0123456789abcdef''"
    using set_hex_fixed hd_in_set by blast
  then have hd: "hd (hex_fixed w n) \<noteq> CHR ''+''" "hd (hex_fixed w n) \<noteq> CHR ''-''"
    by auto
  then have "hex_fixed w n \<noteq> ''+''" "hex_fixed w n \<noteq> ''-''"
    by auto
  with ne hd assms show ?thesis
    by (simp add: from_str_radix16_def parse_hex_fixed)
qed

lemma hex_digits_sorted: "sorted_wrt (<) ''0123456789abcdef''"
  by (simp add: less_char_def)

lemma hex_digit_mono: "a < b \<Longrightarrow> b < 16 \<Longrightarrow> hex_digit a < hex_digit b"
  unfolding hex_digit_def using sorted_wrt_nth_less [OF hex_digits_sorted, of a b] by simp

lemma hex_digit_less: "a < 16 \<Longrightarrow> b < 16 \<Longrightarrow> hex_digit a < hex_digit b \<longleftrightarrow> a < b"
  by (metis hex_digit_mono linorder_neqE_nat order_less_asym order_less_irrefl)

lemma append_less_append:
  "length xs = length ys \<Longrightarrow> xs @ us < ys @ vs \<longleftrightarrow> xs < ys \<or> xs = ys \<and> us < vs"
  for xs ys us vs :: "'a::linorder list"
  by (induction xs ys rule: list_induct2) auto

lemma div_mod_less_iff:
  "n div 16 < m div 16 \<or> n div 16 = m div 16 \<and> n mod 16 < m mod 16 \<longleftrightarrow> n < (m::nat)"
proof -
  define q r q' r' where "q = n div 16" and "r = n mod 16" and "q' = m div 16" and "r' = m mod 16"
  have "n = q * 16 + r" "m = q' * 16 + r'" "r < 16" "r' < 16"
    by (simp_all add: q_def r_def q'_def r'_def)
  then have "q < q' \<or> q = q' \<and> r < r' \<longleftrightarrow> n < m"
    by linarith
  then show ?thesis by (simp only: q_def r_def q'_def r'_def)
qed

lemma hex_fixed_less:
  "n < 16 ^ w \<Longrightarrow> m < 16 ^ w \<Longrightarrow> hex_fixed w n < hex_fixed w m \<longleftrightarrow> n < m"
proof (induction w arbitrary: n m)
  case 0
  then show ?case by simp
next
  case (Suc w)
  then have d: "n div 16 < 16 ^ w" "m div 16 < 16 ^ w"
    by (simp_all add: less_mult_imp_div_less mult.commute)
  have "hex_fixed (Suc w) n < hex_fixed (Suc w) m \<longleftrightarrow>
      n div 16 < m div 16 \<or> n div 16 = m div 16 \<and> n mod 16 < m mod 16"
    using d by (simp add: append_less_append Suc.IH hex_fixed_inj hex_digit_less)
  also have "\<dots> \<longleftrightarrow> n < m"
    by (rule div_mod_less_iff)
  finally show ?case .
qed

section \<open>String operations\<close>

definition strip_prefix :: "string \<Rightarrow> string \<Rightarrow> string option" where
  "strip_prefix p s = (if take (length p) s = p then Some (drop (length p) s) else None)"

fun split_once :: "char \<Rightarrow> string \<Rightarrow> (string \<times> string) option" where
  "split_once c [] = None"
| "split_once c (x # xs) =
     (if x = c then Some ([], xs)
      else map_option (\<lambda>(a, b). (x # a, b)) (split_once c xs))"

definition trim_end_matches :: "char \<Rightarrow> string \<Rightarrow> string" where
  "trim_end_matches c s = rev (dropWhile (\<lambda>x. x = c) (rev s))"

text \<open>\<open>str::split(c)\<close>: the segments between the separators, one more than separators.\<close>

fun split_on :: "char \<Rightarrow> string \<Rightarrow> string list" where
  "split_on c [] = [[]]"
| "split_on c (x # xs) =
     (if x = c then [] # split_on c xs
      else case split_on c xs of [] \<Rightarrow> [[x]] | s # ss \<Rightarrow> (x # s) # ss)"

lemma strip_prefix_append [simp]: "strip_prefix p (p @ s) = Some s"
  by (simp add: strip_prefix_def)

lemma strip_prefix_Some: "strip_prefix p s = Some r \<longleftrightarrow> s = p @ r"
proof
  assume "strip_prefix p s = Some r"
  then have "take (length p) s = p" and "drop (length p) s = r"
    by (simp_all add: strip_prefix_def split: if_splits)
  then show "s = p @ r"
    using append_take_drop_id [of "length p" s] by simp
qed simp

lemma split_once_append: "c \<notin> set a \<Longrightarrow> split_once c (a @ c # b) = Some (a, b)"
  by (induction a) auto

lemma split_once_None: "split_once c s = None \<longleftrightarrow> c \<notin> set s"
  by (induction s) auto

lemma split_once_SomeD: "split_once c s = Some (a, b) \<Longrightarrow> s = a @ c # b \<and> c \<notin> set a"
  by (induction s arbitrary: a) (auto split: if_splits)

lemma trim_end_matches_append [simp]:
  "trim_end_matches c (s @ [c]) = trim_end_matches c s"
  by (simp add: trim_end_matches_def)

lemma trim_end_matches_id: "s = [] \<or> last s \<noteq> c \<Longrightarrow> trim_end_matches c s = s"
  by (cases s rule: rev_cases) (auto simp: trim_end_matches_def)

lemma trim_end_matches_prefix:
  "x \<noteq> c \<Longrightarrow> trim_end_matches c (p @ x # s) = p @ x # trim_end_matches c s"
  by (simp add: trim_end_matches_def dropWhile_append dropWhile_eq_Nil_conv)

lemma trim_end_matches_notin: "c \<notin> set s \<Longrightarrow> trim_end_matches c s = s"
  by (rule trim_end_matches_id) (auto dest: last_in_set)

lemma split_on_nonempty [simp]: "split_on c s \<noteq> []"
  by (cases s) (auto split: list.splits)

lemma split_on_notin: "c \<notin> set s \<Longrightarrow> split_on c s = [s]"
  by (induction s) auto

lemma split_on_append: "c \<notin> set a \<Longrightarrow> split_on c (a @ c # b) = a # split_on c b"
  by (induction a) auto

section \<open>The binary search behind partition_point\<close>

text \<open>
  \<open>slice::partition_point(pred)\<close> is \<open>binary_search_by\<close> of the standard library with a
  comparison that is never equal. The result is meaningful only on a slice partitioned by
  \<open>pred\<close>, where it is the number of leading elements that satisfy it.
\<close>

function bsearch_base :: "('a \<Rightarrow> bool) \<Rightarrow> 'a list \<Rightarrow> nat \<Rightarrow> nat \<Rightarrow> nat" where
  "bsearch_base pred xs base sz =
     (if 1 < sz
      then let half = sz div 2; mid = base + half
           in bsearch_base pred xs (if pred (xs ! mid) then mid else base) (sz - half)
      else base)"
  by pat_completeness auto
termination
  by (relation "measure (\<lambda>(_, _, _, sz). sz)") auto

declare bsearch_base.simps [simp del]

definition partition_point :: "('a \<Rightarrow> bool) \<Rightarrow> 'a list \<Rightarrow> nat" where
  "partition_point pred xs =
     (if xs = [] then 0
      else let base = bsearch_base pred xs 0 (length xs)
           in base + (if pred (xs ! base) then 1 else 0))"

definition partitioned :: "('a \<Rightarrow> bool) \<Rightarrow> 'a list \<Rightarrow> bool" where
  "partitioned pred xs \<longleftrightarrow> (\<forall>x \<in> set (dropWhile pred xs). \<not> pred x)"

lemma partitioned_nth:
  assumes "partitioned pred xs" and "i < length xs"
  shows "pred (xs ! i) \<longleftrightarrow> i < length (takeWhile pred xs)"
proof (cases "i < length (takeWhile pred xs)")
  case True
  then have "xs ! i \<in> set (takeWhile pred xs)"
    using nth_mem [OF True] takeWhile_nth [OF True] by simp
  then show ?thesis
    using True by (auto dest: set_takeWhileD)
next
  case False
  let ?n = "length (takeWhile pred xs)"
  have "length xs = ?n + length (dropWhile pred xs)"
    by (simp only: flip: length_append) simp
  then have len: "i - ?n < length (dropWhile pred xs)"
    using False assms(2) by linarith
  then have "dropWhile pred xs ! (i - ?n) = xs ! i"
    using False by (simp add: dropWhile_nth)
  then show ?thesis
    using False assms(1) nth_mem [OF len] by (auto simp: partitioned_def)
qed

lemma bsearch_base_bounds:
  assumes "partitioned pred xs"
  defines "n \<equiv> length (takeWhile pred xs)"
  shows "\<lbrakk>0 < sz; base + sz \<le> length xs; base = 0 \<or> base < n; n \<le> base + sz\<rbrakk> \<Longrightarrow>
    let r = bsearch_base pred xs base sz in r < length xs \<and> (r = 0 \<or> r < n) \<and> n \<le> Suc r"
proof (induction sz arbitrary: base rule: less_induct)
  case (less sz)
  show ?case
  proof (cases "1 < sz")
    case True
    let ?mid = "base + sz div 2"
    have mid: "?mid < length xs"
      using True less.prems by linarith
    have p: "pred (xs ! ?mid) \<longleftrightarrow> ?mid < n"
      unfolding n_def by (rule partitioned_nth [OF assms(1) mid])
    have "let r = bsearch_base pred xs (if pred (xs ! ?mid) then ?mid else base)
          (sz - sz div 2) in r < length xs \<and> (r = 0 \<or> r < n) \<and> n \<le> Suc r"
      by (rule less.IH) (use True less.prems p in auto)
    then show ?thesis
      using True by (simp add: bsearch_base.simps [of pred xs base sz] Let_def)
  next
    case False
    then show ?thesis
      using less.prems by (simp add: bsearch_base.simps [of pred xs base sz])
  qed
qed

lemma partition_point_eq:
  assumes "partitioned pred xs"
  shows "partition_point pred xs = length (takeWhile pred xs)"
proof (cases "xs = []")
  case True
  then show ?thesis by (simp add: partition_point_def)
next
  case False
  let ?n = "length (takeWhile pred xs)" and ?r = "bsearch_base pred xs 0 (length xs)"
  have "?r < length xs \<and> (?r = 0 \<or> ?r < ?n) \<and> ?n \<le> Suc ?r"
    using bsearch_base_bounds [OF assms, of "length xs" 0] False
    by (simp add: Let_def length_takeWhile_le)
  moreover from this have "pred (xs ! ?r) \<longleftrightarrow> ?r < ?n"
    using partitioned_nth [OF assms] by blast
  ultimately show ?thesis
    using False by (auto simp: partition_point_def Let_def)
qed

lemma partitioned_sorted_wrt:
  assumes "sorted_wrt R xs" and "\<And>x y. R x y \<Longrightarrow> pred y \<Longrightarrow> pred x"
  shows "partitioned pred xs"
  using assms(1)
proof (induction xs)
  case Nil
  show ?case by (simp add: partitioned_def)
next
  case (Cons x xs)
  then show ?case
    using assms(2) by (auto simp: partitioned_def)
qed

section \<open>Ordered maps\<close>

text \<open>
  The sources keep row snapshots and block listings in a \<open>BTreeMap\<close>. The interface they
  rely on is a finite map with its keys in increasing order; it is provided by an
  association list that stays strictly sorted.
\<close>

locale ordered_map =
  fixes empty :: "'m"
    and insert :: "'k::linorder \<Rightarrow> 'v \<Rightarrow> 'm \<Rightarrow> 'm"
    and get :: "'m \<Rightarrow> 'k \<Rightarrow> 'v option"
    and entries :: "'m \<Rightarrow> ('k \<times> 'v) list"
    and ok :: "'m \<Rightarrow> bool"
  assumes ok_empty: "ok empty"
    and ok_insert: "ok m \<Longrightarrow> ok (insert k v m)"
    and get_empty: "get empty k = None"
    and get_insert: "ok m \<Longrightarrow> get (insert k v m) k' = (if k' = k then Some v else get m k')"
    and entries_get: "ok m \<Longrightarrow> (k, v) \<in> set (entries m) \<longleftrightarrow> get m k = Some v"
    and entries_sorted: "ok m \<Longrightarrow> sorted_wrt (<) (map fst (entries m))"
begin

text \<open>\<open>entry(k).or_insert(v)\<close> over a list of pairs: the first value of a key stays.\<close>

definition or_insert :: "'k \<times> 'v \<Rightarrow> 'm \<Rightarrow> 'm" where
  "or_insert kv m = (case get m (fst kv) of
     None \<Rightarrow> insert (fst kv) (snd kv) m | Some _ \<Rightarrow> m)"

lemma ok_fold_or_insert: "ok m \<Longrightarrow> ok (fold or_insert kvs m)"
  by (induction kvs arbitrary: m) (auto simp: or_insert_def ok_insert split: option.split)

lemma get_or_insert:
  "ok m \<Longrightarrow> get (or_insert kv m) k =
    (case get m k of Some v \<Rightarrow> Some v | None \<Rightarrow> if k = fst kv then Some (snd kv) else None)"
  by (auto simp: or_insert_def get_insert split: option.split)

lemma get_fold_or_insert:
  "ok m \<Longrightarrow> get (fold or_insert kvs m) k =
    (case get m k of Some v \<Rightarrow> Some v | None \<Rightarrow> map_of kvs k)"
proof (induction kvs arbitrary: m)
  case Nil
  then show ?case by (simp split: option.split)
next
  case (Cons kv kvs)
  have "ok (or_insert kv m)"
    using ok_fold_or_insert [of m "[kv]"] Cons.prems by simp
  then show ?case
    using Cons by (cases kv) (auto simp: get_or_insert split: option.split)
qed

lemma entries_fold_or_insert:
  "(k, v) \<in> set (entries (fold or_insert kvs empty)) \<longleftrightarrow> map_of kvs k = Some v"
  by (simp add: entries_get ok_fold_or_insert ok_empty get_fold_or_insert get_empty)

end

fun btree_insert :: "'k::linorder \<Rightarrow> 'v \<Rightarrow> ('k \<times> 'v) list \<Rightarrow> ('k \<times> 'v) list" where
  "btree_insert k v [] = [(k, v)]"
| "btree_insert k v ((k', v') # xs) =
     (if k < k' then (k, v) # (k', v') # xs
      else if k = k' then (k, v) # xs
      else (k', v') # btree_insert k v xs)"

lemma set_keys_btree_insert:
  "set (map fst (btree_insert k v xs)) = Set.insert k (set (map fst xs))"
  by (induction k v xs rule: btree_insert.induct) auto

lemma sorted_btree_insert:
  "sorted_wrt (<) (map fst xs) \<Longrightarrow> sorted_wrt (<) (map fst (btree_insert k v xs))"
  by (induction k v xs rule: btree_insert.induct)
    (auto simp: set_keys_btree_insert simp del: set_map)

lemma map_of_btree_insert:
  "sorted_wrt (<) (map fst xs) \<Longrightarrow>
    map_of (btree_insert k v xs) k' = (if k' = k then Some v else map_of xs k')"
  by (induction k v xs rule: btree_insert.induct) auto

lemma sorted_keys_distinct: "sorted_wrt (<) ks \<Longrightarrow> distinct (ks :: 'k::linorder list)"
  by (induction ks) auto

interpretation btree: ordered_map
  "[]" btree_insert map_of "\<lambda>xs. xs" "\<lambda>xs. sorted_wrt (<) (map fst xs)"
proof unfold_locales
  fix m :: "('k::linorder \<times> 'v) list" and k v
  assume "sorted_wrt (<) (map fst m)"
  then have "distinct (map fst m)" by (rule sorted_keys_distinct)
  then show "(k, v) \<in> set m \<longleftrightarrow> map_of m k = Some v"
    by simp
qed (simp_all add: sorted_btree_insert map_of_btree_insert)

text \<open>\<open>entry(k).or_insert(v)\<close> of the map above, in executable form.\<close>

definition btree_or_insert :: "'k::linorder \<times> 'v \<Rightarrow> ('k \<times> 'v) list \<Rightarrow> ('k \<times> 'v) list" where
  "btree_or_insert kv m =
     (case map_of m (fst kv) of None \<Rightarrow> btree_insert (fst kv) (snd kv) m | Some _ \<Rightarrow> m)"

lemma btree_or_insert_eq: "btree_or_insert = btree.or_insert"
  by (simp add: fun_eq_iff btree_or_insert_def btree.or_insert_def)

end
