(* ===== verification/Ovr_Map.thy ===== *)
theory Ovr_Map
  imports FB_Prelude
begin

text \<open>
  The lazy block-version map of \<open>crates/common/data_types/src/ovr_map.rs\<close>: the durable
  teardown marker and its codec, the 20-byte overwrite row and its codec, the reader's
  resolution of a block against a committed ceiling, the fetch plan, the monotone row
  merge of a flush, the NSS keys of rows and abort ranges, and the row snapshot with its
  normalised list of rejected generations.

  Versions are 64-bit words. \<open>usize\<close> lengths are natural numbers: the code only takes
  maxima and comparisons of them. The text form of a blob id comes from the \<open>uuid\<close> crate
  and is the parameter \<open>as_simple\<close> (and \<open>try_parse\<close> for the way back).
\<close>

section \<open>Teardown markers\<close>

datatype OvrGcMarker =
    Conditional
  | LegacyDataPending
  | DataPending u16 u64
  | RowsReady u16

definition OVR_GC_LEGACY_VALUE :: bytes where
  "OVR_GC_LEGACY_VALUE = map of_char ''gc''"

definition OVR_GC_DATA_PENDING_TAG :: bytes where
  "OVR_GC_DATA_PENDING_TAG = map of_char ''gcpend01''"

definition OVR_GC_ROWS_READY_TAG :: bytes where
  "OVR_GC_ROWS_READY_TAG = map of_char ''gcrows01''"

definition encode_ovr_gc_data_pending :: "u16 \<Rightarrow> u64 \<Rightarrow> bytes" where
  "encode_ovr_gc_data_pending volume_id not_before_unix_ms =
     OVR_GC_DATA_PENDING_TAG @ to_le_bytes 2 volume_id @ to_le_bytes 8 not_before_unix_ms"

definition encode_ovr_gc_rows_ready :: "u16 \<Rightarrow> bytes" where
  "encode_ovr_gc_rows_ready volume_id = OVR_GC_ROWS_READY_TAG @ to_le_bytes 2 volume_id"

definition parse_ovr_gc_marker :: "bytes \<Rightarrow> OvrGcMarker" where
  "parse_ovr_gc_marker val =
     (if val = OVR_GC_LEGACY_VALUE then LegacyDataPending
      else if length val = 18 \<and> take 8 val = OVR_GC_DATA_PENDING_TAG
      then DataPending (from_le_bytes (take 2 (drop 8 val))) (from_le_bytes (take 8 (drop 10 val)))
      else if length val = 10 \<and> take 8 val = OVR_GC_ROWS_READY_TAG
      then RowsReady (from_le_bytes (take 2 (drop 8 val)))
      else Conditional)"

section \<open>Rows\<close>

datatype RowState = Written | Hole

datatype PrevSlot = Base | Slot RowState u64

record OvrRow =
  cur_state :: RowState
  cur_version :: u64
  prev :: PrevSlot

definition OVR_ROW_LEN :: nat where "OVR_ROW_LEN = 20"
definition OVR_CODEC_TAG :: u8 where "OVR_CODEC_TAG = 1"
definition STATE_WRITTEN :: u8 where "STATE_WRITTEN = 1"
definition STATE_HOLE :: u8 where "STATE_HOLE = 2"
definition PREV_BASE :: u8 where "PREV_BASE = 0"

lemmas ovr_consts = OVR_ROW_LEN_def OVR_CODEC_TAG_def STATE_WRITTEN_def STATE_HOLE_def PREV_BASE_def

fun state_tag :: "RowState \<Rightarrow> u8" where
  "state_tag Written = STATE_WRITTEN"
| "state_tag Hole = STATE_HOLE"

definition tag_state :: "u8 \<Rightarrow> RowState option" where
  "tag_state tag =
     (if tag = STATE_WRITTEN then Some Written
      else if tag = STATE_HOLE then Some Hole
      else None)"

definition encode_row :: "OvrRow \<Rightarrow> bytes" where
  "encode_row row =
     (let (prev_state, prev_version) =
        (case prev row of
           Base \<Rightarrow> (PREV_BASE, 0)
         | Slot state version \<Rightarrow> (state_tag state, version))
      in [OVR_CODEC_TAG, state_tag (cur_state row), prev_state, 0]
         @ to_le_bytes 8 (cur_version row) @ to_le_bytes 8 prev_version)"

definition decode_row :: "bytes \<Rightarrow> OvrRow option" where
  "decode_row buf =
     (if length buf \<noteq> OVR_ROW_LEN \<or> buf ! 0 \<noteq> OVR_CODEC_TAG \<or> buf ! 3 \<noteq> 0 then None
      else case tag_state (buf ! 1) of
        None \<Rightarrow> None
      | Some st \<Rightarrow>
          (let ver = from_le_bytes (take 8 (drop 4 buf));
               prev_version = from_le_bytes (take 8 (drop 12 buf))
           in case
                (if buf ! 2 = PREV_BASE
                 then (if prev_version \<noteq> 0 then None else Some Base)
                 else case tag_state (buf ! 2) of
                     None \<Rightarrow> None
                   | Some pst \<Rightarrow>
                       (if prev_version = 0 \<or> ver \<le> prev_version then None
                        else Some (Slot pst prev_version)))
              of None \<Rightarrow> None
               | Some prv \<Rightarrow>
                   (if ver = 0 then None
                    else Some \<lparr>cur_state = st, cur_version = ver, prev = prv\<rparr>)))"

text \<open>The field invariants the documentation of \<open>OvrRow\<close> states.\<close>

definition row_ok :: "OvrRow \<Rightarrow> bool" where
  "row_ok row \<longleftrightarrow> cur_version row \<noteq> 0 \<and>
     (case prev row of Base \<Rightarrow> True | Slot _ v \<Rightarrow> v \<noteq> 0 \<and> v < cur_version row)"

section \<open>The reader's decision procedure\<close>

datatype BlockResolution = ResolvedHole | Exact u64 | ResolvedBase | Stale

definition resolve_row_filtered ::
    "OvrRow option \<Rightarrow> u64 \<Rightarrow> (u64 \<Rightarrow> bool) \<Rightarrow> BlockResolution" where
  "resolve_row_filtered orow ceiling is_aborted =
     (case orow of
        None \<Rightarrow> ResolvedBase
      | Some row \<Rightarrow>
          (let pick = (\<lambda>(state, version).
                 case state of Hole \<Rightarrow> ResolvedHole | Written \<Rightarrow> Exact version)
           in if cur_version row \<le> ceiling \<and> \<not> is_aborted (cur_version row)
              then pick (cur_state row, cur_version row)
              else case prev row of
                  Base \<Rightarrow> ResolvedBase
                | Slot state version \<Rightarrow>
                    (if version \<le> ceiling \<and> \<not> is_aborted version then pick (state, version)
                     else Stale)))"

definition resolve_row :: "OvrRow option \<Rightarrow> u64 \<Rightarrow> BlockResolution" where
  "resolve_row orow ceiling = resolve_row_filtered orow ceiling (\<lambda>_. False)"

section \<open>The row merge of a flush\<close>

definition merge_row_for_write_filtered ::
    "OvrRow option \<Rightarrow> RowState \<Rightarrow> u64 \<Rightarrow> u64 \<Rightarrow> (u64 \<Rightarrow> bool) \<Rightarrow> OvrRow option" where
  "merge_row_for_write_filtered old new_state version base_ceiling is_aborted =
     (case old of
        None \<Rightarrow> Some \<lparr>cur_state = new_state, cur_version = version, prev = Base\<rparr>
      | Some o_row \<Rightarrow>
          (if version \<le> cur_version o_row then None
           else Some \<lparr>cur_state = new_state, cur_version = version,
             prev = (if cur_version o_row \<le> base_ceiling \<and> \<not> is_aborted (cur_version o_row)
                     then Slot (cur_state o_row) (cur_version o_row)
                     else prev o_row)\<rparr>))"

definition merge_row_for_write ::
    "OvrRow option \<Rightarrow> RowState \<Rightarrow> u64 \<Rightarrow> u64 \<Rightarrow> OvrRow option" where
  "merge_row_for_write old new_state version base_ceiling =
     merge_row_for_write_filtered old new_state version base_ceiling (\<lambda>_. False)"

section \<open>Row snapshots\<close>

record OvrRowMap =
  epoch :: u64
  rows :: "(u32 \<times> OvrRow) list"
  aborted :: "(u64 \<times> u64) list"

definition row_map_new :: "u64 \<Rightarrow> OvrRowMap" where
  "row_map_new e = \<lparr>epoch = e, rows = [], aborted = []\<rparr>"

definition row_map_insert :: "OvrRowMap \<Rightarrow> u32 \<Rightarrow> OvrRow \<Rightarrow> OvrRowMap" where
  "row_map_insert m block row = m\<lparr>rows := btree_insert block row (rows m)\<rparr>"

definition row_map_get :: "OvrRowMap \<Rightarrow> u32 \<Rightarrow> OvrRow option" where
  "row_map_get m block = map_of (rows m) block"

definition is_aborted :: "OvrRowMap \<Rightarrow> u64 \<Rightarrow> bool" where
  "is_aborted m version =
     (let index = partition_point (\<lambda>(lo, _). lo \<le> version) (aborted m)
      in 0 < index \<and> version \<le> snd (aborted m ! (index - 1)))"

definition row_map_resolve :: "OvrRowMap \<Rightarrow> u32 \<Rightarrow> u64 \<Rightarrow> BlockResolution" where
  "row_map_resolve m block ceiling =
     resolve_row_filtered (row_map_get m block) ceiling (is_aborted m)"

text \<open>
  The \<open>while let\<close> loop of \<open>add_aborted_range\<close>: it runs over the entries from \<open>start\<close> on
  and returns the merged bounds and how many entries it swallowed.
\<close>

fun absorb_ranges :: "u64 \<Rightarrow> u64 \<Rightarrow> (u64 \<times> u64) list \<Rightarrow> u64 \<times> u64 \<times> nat" where
  "absorb_ranges merged_lo merged_hi [] = (merged_lo, merged_hi, 0)"
| "absorb_ranges merged_lo merged_hi ((existing_lo, existing_hi) # rest) =
     (if saturating_add merged_hi 1 < existing_lo then (merged_lo, merged_hi, 0)
      else (let (lo, hi, n) =
              absorb_ranges (min merged_lo existing_lo) (max merged_hi existing_hi) rest
            in (lo, hi, Suc n)))"

definition add_aborted_range :: "OvrRowMap \<Rightarrow> u64 \<Rightarrow> u64 \<Rightarrow> OvrRowMap" where
  "add_aborted_range m lo hi =
     (if lo = 0 \<or> hi < lo then m
      else (let start = partition_point
                  (\<lambda>(_, existing_hi). saturating_add existing_hi 1 < lo) (aborted m);
                (merged_lo, merged_hi, n) = absorb_ranges lo hi (drop start (aborted m))
            in m\<lparr>aborted := take start (aborted m) @ [(merged_lo, merged_hi)]
                   @ drop (start + n) (aborted m)\<rparr>))"

text \<open>\<open>BTreeMap::range\<close> panics on a start above the end, which is \<open>None\<close> here.\<close>

definition row_map_range :: "OvrRowMap \<Rightarrow> u32 \<Rightarrow> u32 \<Rightarrow> (u32 \<times> OvrRow) list option" where
  "row_map_range m start end_excl =
     (if end_excl < start then None
      else Some (filter (\<lambda>(block, _). start \<le> block \<and> block < end_excl) (rows m)))"

definition row_map_len :: "OvrRowMap \<Rightarrow> nat" where
  "row_map_len m = length (rows m)"

definition row_map_is_empty :: "OvrRowMap \<Rightarrow> bool" where
  "row_map_is_empty m \<longleftrightarrow> rows m = []"

definition merge_row_for_write_in_map ::
    "OvrRow option \<Rightarrow> RowState \<Rightarrow> u64 \<Rightarrow> u64 \<Rightarrow> OvrRowMap option \<Rightarrow> OvrRow option" where
  "merge_row_for_write_in_map old new_state version base_ceiling base_map =
     merge_row_for_write_filtered old new_state version base_ceiling
       (\<lambda>candidate. case base_map of None \<Rightarrow> False | Some m \<Rightarrow> is_aborted m candidate)"

section \<open>Fetch plans\<close>

datatype BlockFetchPlan =
    Zeros
  | StalePlan
  | Fetch (fetch_version: u64) (fetch_read_len: nat) (fetch_miss_is_loss: bool)

definition block_fetch_plan ::
    "OvrRowMap option \<Rightarrow> u32 \<Rightarrow> u64 \<Rightarrow> nat \<Rightarrow> nat \<Rightarrow> BlockFetchPlan" where
  "block_fetch_plan orows block ceiling block_size content_len =
     (let resolution = (case orows of Some m \<Rightarrow> row_map_resolve m block ceiling | None \<Rightarrow> ResolvedBase);
          fetch = (\<lambda>version miss_is_loss.
            Fetch version (if 1 < version then max block_size content_len else content_len)
              miss_is_loss)
      in case resolution of
           ResolvedHole \<Rightarrow> Zeros
         | Stale \<Rightarrow> StalePlan
         | Exact version \<Rightarrow> fetch version True
         | ResolvedBase \<Rightarrow> fetch 1 False)"

definition ZERO_BLOCK :: bytes where
  "ZERO_BLOCK = replicate (128 * 1024) 0"

definition zeros :: "nat \<Rightarrow> bytes" where
  "zeros len = (if len \<le> length ZERO_BLOCK then take len ZERO_BLOCK else replicate len 0)"

section \<open>NSS keys\<close>

definition OVR_ROW_PREFIX :: string where "OVR_ROW_PREFIX = ''@ovr/''"
definition OVR_GC_PREFIX :: string where "OVR_GC_PREFIX = ''@ovr-gc/''"

definition ovr_row_key :: "('u \<Rightarrow> string) \<Rightarrow> 'u \<Rightarrow> u32 \<Rightarrow> string" where
  "ovr_row_key as_simple blob_id block =
     OVR_ROW_PREFIX @ as_simple blob_id @ ''/'' @ hex_fixed 8 (unat block)"

definition ovr_abort_key :: "('u \<Rightarrow> string) \<Rightarrow> 'u \<Rightarrow> u64 \<Rightarrow> u64 \<Rightarrow> string" where
  "ovr_abort_key as_simple blob_id lo hi =
     OVR_ROW_PREFIX @ as_simple blob_id @ ''/x'' @ hex_fixed 16 (unat lo) @ ''-''
       @ hex_fixed 16 (unat hi)"

definition ovr_row_prefix :: "('u \<Rightarrow> string) \<Rightarrow> 'u \<Rightarrow> string" where
  "ovr_row_prefix as_simple blob_id = OVR_ROW_PREFIX @ as_simple blob_id @ ''/''"

definition ovr_gc_key :: "('u \<Rightarrow> string) \<Rightarrow> 'u \<Rightarrow> string" where
  "ovr_gc_key as_simple blob_id = OVR_GC_PREFIX @ as_simple blob_id"

definition nul :: char where "nul = CHR 0x00"

definition parse_ovr_row_block :: "string \<Rightarrow> u32 option" where
  "parse_ovr_row_block key0 =
     (let key = trim_end_matches nul key0
      in case strip_prefix OVR_ROW_PREFIX key of
           None \<Rightarrow> None
         | Some rest \<Rightarrow>
             (case split_once CHR ''/'' rest of
                None \<Rightarrow> None
              | Some (_, block_hex) \<Rightarrow>
                  (if length block_hex \<noteq> 8 then None
                   else map_option word_of_nat (from_str_radix16 32 block_hex))))"

definition parse_ovr_abort_range :: "string \<Rightarrow> (u64 \<times> u64) option" where
  "parse_ovr_abort_range key0 =
     (let key = trim_end_matches nul key0
      in case strip_prefix OVR_ROW_PREFIX key of
           None \<Rightarrow> None
         | Some rest \<Rightarrow>
             (case split_once CHR ''/'' rest of
                None \<Rightarrow> None
              | Some (_, encoded) \<Rightarrow>
                  (case strip_prefix ''x'' encoded of
                     None \<Rightarrow> None
                   | Some enc \<Rightarrow>
                       (case split_once CHR ''-'' enc of
                          None \<Rightarrow> None
                        | Some (lo_hex, hi_hex) \<Rightarrow>
                            (if length lo_hex \<noteq> 16 \<or> length hi_hex \<noteq> 16 then None
                             else case from_str_radix16 64 lo_hex of
                                 None \<Rightarrow> None
                               | Some lo \<Rightarrow>
                                   (case from_str_radix16 64 hi_hex of
                                      None \<Rightarrow> None
                                    | Some hi \<Rightarrow>
                                        (if 0 < lo \<and> lo \<le> hi
                                         then Some (word_of_nat lo, word_of_nat hi)
                                         else None)))))))"

definition parse_ovr_gc_blob_id :: "(string \<Rightarrow> 'u option) \<Rightarrow> string \<Rightarrow> 'u option" where
  "parse_ovr_gc_blob_id try_parse key0 =
     (case strip_prefix OVR_GC_PREFIX (trim_end_matches nul key0) of
        None \<Rightarrow> None
      | Some rest \<Rightarrow> try_parse rest)"

section \<open>Codecs\<close>

lemma tag_state_state_tag [simp]: "tag_state (state_tag s) = Some s"
  by (cases s) (simp_all add: tag_state_def ovr_consts)

lemma tag_state_Some: "tag_state t = Some s \<longleftrightarrow> t = state_tag s"
  by (cases s) (auto simp: tag_state_def ovr_consts)

lemma state_tag_not_base [simp]: "state_tag s \<noteq> PREV_BASE"
  by (cases s) (simp_all add: ovr_consts)

lemma row_bytes_split:
  assumes "length buf = OVR_ROW_LEN"
  shows "buf = [buf ! 0, buf ! 1, buf ! 2, buf ! 3] @ take 8 (drop 4 buf) @ take 8 (drop 12 buf)"
proof -
  have len: "length buf = 20" using assms by (simp add: OVR_ROW_LEN_def)
  have "drop 8 (drop 4 buf) = drop 12 buf"
    by simp
  then have "buf = take 4 buf @ take 8 (drop 4 buf) @ drop 12 buf"
    by (metis append_take_drop_id)
  moreover have "take 4 buf = [buf ! 0, buf ! 1, buf ! 2, buf ! 3]"
    using len by (intro nth_equalityI) (auto simp: less_Suc_eq numeral_eq_Suc)
  moreover have "drop 12 buf = take 8 (drop 12 buf)"
    using len by simp
  ultimately show ?thesis by simp
qed

lemma decode_encode_row: "row_ok row \<Longrightarrow> decode_row (encode_row row) = Some row"
  by (cases "prev row")
    (auto simp: decode_row_def encode_row_def row_ok_def OVR_ROW_LEN_def Let_def not_le)

lemma encode_decode_row:
  assumes "decode_row buf = Some row"
  shows "row_ok row \<and> buf = encode_row row"
proof -
  let ?cur = "from_le_bytes (take 8 (drop 4 buf)) :: u64"
    and ?prv = "from_le_bytes (take 8 (drop 12 buf)) :: u64"
  from assms have len: "length buf = OVR_ROW_LEN" and b0: "buf ! 0 = OVR_CODEC_TAG"
    and b3: "buf ! 3 = 0"
    by (auto simp: decode_row_def split: if_splits)
  from assms len b0 b3 obtain st where st: "buf ! 1 = state_tag st" "cur_state row = st"
    and cur: "cur_version row = ?cur" "?cur \<noteq> 0"
    and prv: "buf ! 2 = PREV_BASE \<and> ?prv = 0 \<and> prev row = Base \<or>
      (\<exists>ps. buf ! 2 = state_tag ps \<and> prev row = Slot ps ?prv \<and> ?prv \<noteq> 0 \<and> ?prv < ?cur)"
    by (auto simp: decode_row_def Let_def tag_state_Some not_le split: option.splits if_splits)
  have le: "to_le_bytes 8 ?cur = take 8 (drop 4 buf)" "to_le_bytes 8 ?prv = take 8 (drop 12 buf)"
    using len by (simp_all add: OVR_ROW_LEN_def)
  have "row_ok row"
    using cur prv by (auto simp: row_ok_def)
  moreover have "encode_row row =
      [buf ! 0, buf ! 1, buf ! 2, buf ! 3] @ take 8 (drop 4 buf) @ take 8 (drop 12 buf)"
    using st cur prv b0 b3 le by (auto simp: encode_row_def)
  ultimately show ?thesis
    using row_bytes_split [OF len] by simp
qed

text \<open>
  Row codec: the decoder accepts exactly the byte strings that the encoder produces for
  rows satisfying the documented field invariants (a nonzero current version, a previous
  version that is nonzero and strictly below it), and returns the encoded row. So the
  encoding is canonical, which the byte-wise row CAS relies on.
\<close>

theorem decode_row_iff: "decode_row buf = Some row \<longleftrightarrow> row_ok row \<and> buf = encode_row row"
  using decode_encode_row encode_decode_row by blast

lemma gc_tag_lengths [simp]:
  "length OVR_GC_LEGACY_VALUE = 2"
  "length OVR_GC_DATA_PENDING_TAG = 8"
  "length OVR_GC_ROWS_READY_TAG = 8"
  by (simp_all add: OVR_GC_LEGACY_VALUE_def OVR_GC_DATA_PENDING_TAG_def OVR_GC_ROWS_READY_TAG_def)

lemma gc_lengths [simp]:
  "length (encode_ovr_gc_data_pending v t) = 18"
  "length (encode_ovr_gc_rows_ready v) = 10"
  by (simp_all add: encode_ovr_gc_data_pending_def encode_ovr_gc_rows_ready_def)

lemma parse_pending_iff:
  "length val = 18 \<and> take 8 val = OVR_GC_DATA_PENDING_TAG \<and>
    from_le_bytes (take 2 (drop 8 val)) = v \<and> from_le_bytes (take 8 (drop 10 val)) = t \<longleftrightarrow>
    val = encode_ovr_gc_data_pending v t"
proof
  assume l: "length val = 18 \<and> take 8 val = OVR_GC_DATA_PENDING_TAG \<and>
    from_le_bytes (take 2 (drop 8 val)) = v \<and> from_le_bytes (take 8 (drop 10 val)) = t"
  then have "to_le_bytes 2 v = take 2 (drop 8 val)" "to_le_bytes 8 t = drop 10 val"
    by auto
  moreover have "val = take 8 val @ take 2 (drop 8 val) @ drop 10 val"
    using append_take_drop_id [of 8 val] append_take_drop_id [of 2 "drop 8 val"] by simp
  ultimately show "val = encode_ovr_gc_data_pending v t"
    using l by (simp add: encode_ovr_gc_data_pending_def)
next
  assume "val = encode_ovr_gc_data_pending v t"
  then show "length val = 18 \<and> take 8 val = OVR_GC_DATA_PENDING_TAG \<and>
    from_le_bytes (take 2 (drop 8 val)) = v \<and> from_le_bytes (take 8 (drop 10 val)) = t"
    by (simp add: encode_ovr_gc_data_pending_def)
qed

lemma parse_ready_iff:
  "length val = 10 \<and> take 8 val = OVR_GC_ROWS_READY_TAG \<and>
    from_le_bytes (take 2 (drop 8 val)) = v \<longleftrightarrow> val = encode_ovr_gc_rows_ready v"
proof
  assume l: "length val = 10 \<and> take 8 val = OVR_GC_ROWS_READY_TAG \<and>
    from_le_bytes (take 2 (drop 8 val)) = v"
  then have "to_le_bytes 2 v = drop 8 val"
    by auto
  then show "val = encode_ovr_gc_rows_ready v"
    using l append_take_drop_id [of 8 val] by (simp add: encode_ovr_gc_rows_ready_def)
next
  assume "val = encode_ovr_gc_rows_ready v"
  then show "length val = 10 \<and> take 8 val = OVR_GC_ROWS_READY_TAG \<and>
    from_le_bytes (take 2 (drop 8 val)) = v"
    by (simp add: encode_ovr_gc_rows_ready_def)
qed

text \<open>
  Teardown markers: each durable phase is recognised for exactly one byte string per
  volume and deadline, the one its encoder writes; every other value is a conditional
  intent, so a scavenger never replays a value it does not know.
\<close>

theorem parse_ovr_gc_marker_iff:
  "(parse_ovr_gc_marker val = LegacyDataPending \<longleftrightarrow> val = OVR_GC_LEGACY_VALUE) \<and>
   (parse_ovr_gc_marker val = DataPending v t \<longleftrightarrow> val = encode_ovr_gc_data_pending v t) \<and>
   (parse_ovr_gc_marker val = RowsReady v \<longleftrightarrow> val = encode_ovr_gc_rows_ready v) \<and>
   (parse_ovr_gc_marker val = Conditional \<longleftrightarrow>
      val \<noteq> OVR_GC_LEGACY_VALUE \<and> (\<nexists>v t. val = encode_ovr_gc_data_pending v t) \<and>
      (\<nexists>v. val = encode_ovr_gc_rows_ready v))"
  unfolding parse_ovr_gc_marker_def
    parse_pending_iff [symmetric] parse_ready_iff [symmetric]
  by auto

section \<open>Rejected generations\<close>

text \<open>
  The normal form that \<open>add_aborted_range\<close> keeps: nonempty ranges above 0 in increasing
  order, with a gap of at least one generation between neighbours.
\<close>

definition range_before :: "u64 \<times> u64 \<Rightarrow> u64 \<times> u64 \<Rightarrow> bool" where
  "range_before r s \<longleftrightarrow> unat (snd r) + 1 < unat (fst s)"

definition range_ok :: "u64 \<times> u64 \<Rightarrow> bool" where
  "range_ok r \<longleftrightarrow> 0 < fst r \<and> fst r \<le> snd r"

definition ranges_ok :: "(u64 \<times> u64) list \<Rightarrow> bool" where
  "ranges_ok rs \<longleftrightarrow> sorted_wrt range_before rs \<and> (\<forall>r \<in> set rs. range_ok r)"

definition covers :: "(u64 \<times> u64) list \<Rightarrow> u64 \<Rightarrow> bool" where
  "covers rs v \<longleftrightarrow> (\<exists>(lo, hi) \<in> set rs. lo \<le> v \<and> v \<le> hi)"

lemma covers_simps [simp]:
  "covers [] v \<longleftrightarrow> False"
  "covers ((lo, hi) # rs) v \<longleftrightarrow> lo \<le> v \<and> v \<le> hi \<or> covers rs v"
  "covers (rs @ ss) v \<longleftrightarrow> covers rs v \<or> covers ss v"
  by (auto simp: covers_def)

lemma ranges_ok_append:
  "ranges_ok (rs @ ss) \<longleftrightarrow> ranges_ok rs \<and> ranges_ok ss \<and>
    (\<forall>r \<in> set rs. \<forall>s \<in> set ss. range_before r s)"
  by (auto simp: ranges_ok_def sorted_wrt_append)

lemma ranges_ok_Cons:
  "ranges_ok (r # rs) \<longleftrightarrow> range_ok r \<and> ranges_ok rs \<and> (\<forall>s \<in> set rs. range_before r s)"
  by (auto simp: ranges_ok_def)

lemma sorted_wrt_mem:
  "sorted_wrt R xs \<Longrightarrow> (\<And>x y. x \<in> set xs \<Longrightarrow> y \<in> set xs \<Longrightarrow> R x y \<Longrightarrow> S x y) \<Longrightarrow> sorted_wrt S xs"
  by (induction xs) auto

lemma ranges_partitioned:
  assumes "ranges_ok rs"
    and "\<And>r s. range_ok r \<Longrightarrow> range_ok s \<Longrightarrow> range_before r s \<Longrightarrow> pred s \<Longrightarrow> pred r"
  shows "partitioned pred rs"
proof (rule partitioned_sorted_wrt)
  show "sorted_wrt (\<lambda>r s. range_ok r \<and> range_ok s \<and> range_before r s) rs"
    using assms(1) by (auto simp: ranges_ok_def elim: sorted_wrt_mem)
qed (use assms(2) in blast)

lemma is_aborted_covers:
  assumes "ranges_ok (aborted m)"
  shows "is_aborted m v \<longleftrightarrow> covers (aborted m) v"
proof -
  let ?p = "\<lambda>r :: u64 \<times> u64. fst r \<le> v"
  let ?pre = "takeWhile ?p (aborted m)"
  have part: "partitioned ?p (aborted m)"
    by (rule ranges_partitioned [OF assms]) (auto simp: range_before_def range_ok_def word_nat)
  have idx: "partition_point (\<lambda>(lo, _). lo \<le> v) (aborted m) = length ?pre"
    using partition_point_eq [OF part] by (simp add: case_prod_unfold)
  have split: "aborted m = ?pre @ dropWhile ?p (aborted m)"
    by simp
  have "\<not> covers (dropWhile ?p (aborted m)) v"
    using part unfolding covers_def partitioned_def by (metis (no_types, lifting) case_prodE fst_conv)
  then have cov: "covers (aborted m) v \<longleftrightarrow> covers ?pre v"
    using split by (metis covers_simps(3))
  show ?thesis
  proof (cases ?pre rule: rev_cases)
    case Nil
    then show ?thesis
      using cov idx by (simp add: is_aborted_def)
  next
    case (snoc init r)
    then have "r \<in> set ?pre" by simp
    then have r: "fst r \<le> v" by (rule set_takeWhileD [THEN conjunct2])
    have "aborted m ! length init = r"
      using split snoc by (metis append.assoc append_Cons nth_append_length)
    then have "is_aborted m v \<longleftrightarrow> v \<le> snd r"
      using idx snoc by (simp add: is_aborted_def)
    moreover have "\<not> covers init v"
    proof -
      have "ranges_ok (init @ [r] @ dropWhile ?p (aborted m))"
        using assms split snoc by (metis append.assoc)
      then have "\<forall>s \<in> set init. range_before s r"
        by (auto simp: ranges_ok_append)
      with r show ?thesis
        by (force simp: covers_def range_before_def word_nat)
    qed
    ultimately show ?thesis
      using cov snoc r by (cases r) simp
  qed
qed

lemma saturating_succ_less: "saturating_add h 1 < l \<longleftrightarrow> unat h + 1 < unat l"
  for h l :: u64
  using unat_less_pow [of l] by (auto simp: word_nat min_def)

lemma interval_union:
  assumes "el \<le> hi + 1" and "lo \<le> eh + 1" and "el \<le> eh" and "lo \<le> hi"
  shows "min lo el \<le> v \<and> v \<le> max hi eh \<longleftrightarrow> lo \<le> v \<and> v \<le> hi \<or> el \<le> v \<and> v \<le> (eh::nat)"
  using assms by linarith

text \<open>
  What the loop computes: the merged bounds cover the given range and the swallowed
  entries and nothing else, and what is left lies beyond a gap.
\<close>

lemma absorb_ranges_spec:
  assumes "ranges_ok rs" and "lo \<le> hi" and "\<forall>r \<in> set rs. unat lo \<le> unat (snd r) + 1"
    and "absorb_ranges lo hi rs = (a, b, n)"
  shows "a \<le> b" and "a \<le> lo" and "a = lo \<or> (\<exists>r \<in> set rs. a = fst r)"
    and "a \<le> v \<and> v \<le> b \<longleftrightarrow> lo \<le> v \<and> v \<le> hi \<or> covers (take n rs) v"
    and "s \<in> set (drop n rs) \<Longrightarrow> unat b + 1 < unat (fst s)"
proof -
  have "a \<le> b \<and> a \<le> lo \<and> (a = lo \<or> (\<exists>r \<in> set rs. a = fst r)) \<and>
    (a \<le> v \<and> v \<le> b \<longleftrightarrow> lo \<le> v \<and> v \<le> hi \<or> covers (take n rs) v) \<and>
    (s \<in> set (drop n rs) \<longrightarrow> unat b + 1 < unat (fst s))"
    using assms
  proof (induction rs arbitrary: lo hi n)
    case Nil
    then show ?case by simp
  next
    case (Cons r rs)
    obtain el eh where r: "r = (el, eh)" by (cases r)
    have el: "el \<le> eh" and rest: "ranges_ok rs" "\<forall>s \<in> set rs. unat eh + 1 < unat (fst s)"
      using Cons.prems(1) by (auto simp: r ranges_ok_Cons range_ok_def range_before_def)
    have lo: "unat lo \<le> unat eh + 1"
      using Cons.prems(3) by (simp add: r)
    show ?case
    proof (cases "saturating_add hi 1 < el")
      case True
      then have gap: "unat hi + 1 < unat el"
        by (simp add: saturating_succ_less)
      have "unat hi + 1 < unat (fst s)" if "s \<in> set (r # rs)"
        using that gap rest(2) el by (force simp: r word_nat)
      then show ?thesis
        using True Cons.prems by (auto simp: r)
    next
      case False
      then have near: "unat el \<le> unat hi + 1"
        by (simp add: saturating_succ_less)
      let ?lo = "min lo el" and ?hi = "max hi eh"
      from False Cons.prems(4) obtain n' where n: "n = Suc n'"
        and rec: "absorb_ranges ?lo ?hi rs = (a, b, n')"
        by (auto simp: r split: prod.splits)
      have le: "?lo \<le> ?hi"
        using Cons.prems(2) by (simp add: min_le_iff_disj le_max_iff_disj)
      have up: "\<forall>s \<in> set rs. unat ?lo \<le> unat (snd s) + 1"
        using rest lo by (force simp: word_nat ranges_ok_def range_ok_def)
      have IH: "a \<le> b \<and> a \<le> ?lo \<and> (a = ?lo \<or> (\<exists>r \<in> set rs. a = fst r)) \<and>
        (a \<le> v \<and> v \<le> b \<longleftrightarrow> ?lo \<le> v \<and> v \<le> ?hi \<or> covers (take n' rs) v) \<and>
        (s \<in> set (drop n' rs) \<longrightarrow> unat b + 1 < unat (fst s))"
        by (rule Cons.IH [OF rest(1) le up rec])
      have "?lo \<le> v \<and> v \<le> ?hi \<longleftrightarrow> lo \<le> v \<and> v \<le> hi \<or> el \<le> v \<and> v \<le> eh"
        using near lo el Cons.prems(2) unfolding word_nat by (rule interval_union)
      moreover have "a \<le> lo"
        using IH by simp
      moreover have "?lo = lo \<or> ?lo = el"
        by (simp add: min_def)
      then have "a = lo \<or> a = el \<or> (\<exists>s \<in> set rs. a = fst s)"
        using IH by metis
      ultimately show ?thesis
        using IH by (simp add: r n)
    qed
  qed
  then show "a \<le> b" and "a \<le> lo" and "a = lo \<or> (\<exists>r \<in> set rs. a = fst r)"
    and "a \<le> v \<and> v \<le> b \<longleftrightarrow> lo \<le> v \<and> v \<le> hi \<or> covers (take n rs) v"
    and "s \<in> set (drop n rs) \<Longrightarrow> unat b + 1 < unat (fst s)"
    by blast+
qed

definition row_map_ok :: "OvrRowMap \<Rightarrow> bool" where
  "row_map_ok m \<longleftrightarrow> sorted_wrt (<) (map fst (rows m)) \<and> ranges_ok (aborted m)"

lemma add_aborted_range_covers:
  assumes "ranges_ok (aborted m)"
  shows "ranges_ok (aborted (add_aborted_range m lo hi))" (is ?ok)
    and "covers (aborted (add_aborted_range m lo hi)) v \<longleftrightarrow>
      covers (aborted m) v \<or> lo \<noteq> 0 \<and> lo \<le> v \<and> v \<le> hi" (is ?cov)
proof -
  have "?ok \<and> ?cov"
  proof (cases "lo = 0 \<or> hi < lo")
    case True
    then show ?thesis
      using assms by (auto simp: add_aborted_range_def)
  next
    case False
    let ?p = "\<lambda>r :: u64 \<times> u64. saturating_add (snd r) 1 < lo"
    define P where "P = takeWhile ?p (aborted m)"
    define Q where "Q = dropWhile ?p (aborted m)"
    have split: "aborted m = P @ Q"
      by (simp add: P_def Q_def)
    have part: "partitioned ?p (aborted m)"
      by (rule ranges_partitioned [OF assms])
        (auto simp: range_before_def range_ok_def saturating_succ_less word_le_nat_alt)
    have start: "partition_point (\<lambda>(_, existing_hi). saturating_add existing_hi 1 < lo) (aborted m)
        = length P"
      using partition_point_eq [OF part] by (simp add: P_def case_prod_unfold)
    obtain a b n where abs: "absorb_ranges lo hi Q = (a, b, n)"
      by (cases "absorb_ranges lo hi Q") auto
    have res: "aborted (add_aborted_range m lo hi) = P @ [(a, b)] @ drop n Q"
      using False start abs by (simp add: add_aborted_range_def split)
    have ok: "ranges_ok P" "ranges_ok Q" "\<forall>r \<in> set P. \<forall>q \<in> set Q. range_before r q"
      using assms by (simp_all add: split ranges_ok_append)
    have Q_up: "\<forall>r \<in> set Q. unat lo \<le> unat (snd r) + 1"
      using part by (force simp: Q_def partitioned_def saturating_succ_less not_less)
    have lohi: "lo \<le> hi" "0 < lo"
      using False by (auto simp: word_neq_0_conv not_less)
    note spec = absorb_ranges_spec [OF ok(2) lohi(1) Q_up abs]
    have a_pos: "0 < a"
      using spec(3) lohi(2) ok(2) by (auto simp: ranges_ok_def range_ok_def)
    have P_a: "range_before r (a, b)" if "r \<in> set P" for r
    proof -
      from that have "?p r" unfolding P_def by (rule set_takeWhileD [THEN conjunct2])
      with spec(3) ok(3) that show ?thesis
        by (auto simp: range_before_def saturating_succ_less)
    qed
    have "ranges_ok ([(a, b)] @ drop n Q)"
      using spec(1,5) a_pos ok(2)
      by (auto simp: ranges_ok_def range_ok_def range_before_def sorted_wrt_drop dest: in_set_dropD)
    then have ?ok
      unfolding res ranges_ok_append [of P] using ok P_a by (auto dest: in_set_dropD)
    moreover have "covers Q v \<longleftrightarrow> covers (take n Q) v \<or> covers (drop n Q) v"
      by (metis append_take_drop_id covers_simps(3))
    then have ?cov
      using spec(4) [of v] lohi(2) unfolding res by (auto simp: split)
    ultimately show ?thesis ..
  qed
  then show ?ok and ?cov by simp_all
qed

lemma rows_add_aborted_range [simp]: "rows (add_aborted_range m lo hi) = rows m"
  by (simp add: add_aborted_range_def Let_def split: prod.split)

lemma ranges_ok_Nil [simp]: "ranges_ok []"
  by (simp add: ranges_ok_def)

lemma row_map_ok_simps [simp]:
  "row_map_ok (row_map_new e)"
  "row_map_ok m \<Longrightarrow> row_map_ok (row_map_insert m b r)"
  "row_map_ok m \<Longrightarrow> row_map_ok (add_aborted_range m lo hi)"
  by (simp_all add: row_map_ok_def row_map_new_def row_map_insert_def
      sorted_btree_insert add_aborted_range_covers)

lemma is_aborted_add:
  "row_map_ok m \<Longrightarrow> is_aborted (add_aborted_range m lo hi) v \<longleftrightarrow>
    is_aborted m v \<or> lo \<noteq> 0 \<and> lo \<le> v \<and> v \<le> hi"
  by (simp add: row_map_ok_def is_aborted_covers add_aborted_range_covers)

lemma get_insert [simp]:
  "row_map_ok m \<Longrightarrow> row_map_get (row_map_insert m b r) b' = (if b' = b then Some r else row_map_get m b')"
  by (simp add: row_map_ok_def row_map_get_def row_map_insert_def btree.get_insert)

lemma row_map_frames [simp]:
  "is_aborted (row_map_insert m b r) = is_aborted m"
  "row_map_get (add_aborted_range m lo hi) b = row_map_get m b"
  "is_aborted (row_map_new e) v \<longleftrightarrow> False"
  "row_map_get (row_map_new e) b = None"
  by (simp_all add: fun_eq_iff is_aborted_def row_map_get_def row_map_insert_def row_map_new_def
      partition_point_def)

text \<open>A snapshot's abort records, loaded one key at a time in listing order.\<close>

definition load_aborted :: "u64 \<Rightarrow> (u64 \<times> u64) list \<Rightarrow> OvrRowMap" where
  "load_aborted e ranges = fold (\<lambda>(lo, hi) m. add_aborted_range m lo hi) ranges (row_map_new e)"

lemma fold_add_aborted:
  "row_map_ok m \<Longrightarrow>
    row_map_ok (fold (\<lambda>(lo, hi) m. add_aborted_range m lo hi) ranges m) \<and>
    (is_aborted (fold (\<lambda>(lo, hi) m. add_aborted_range m lo hi) ranges m) v \<longleftrightarrow>
      is_aborted m v \<or> (\<exists>(lo, hi) \<in> set ranges. lo \<noteq> 0 \<and> lo \<le> v \<and> v \<le> hi))"
proof (induction ranges arbitrary: m)
  case Nil
  then show ?case by simp
next
  case (Cons r ranges)
  obtain lo hi where r: "r = (lo, hi)" by (cases r)
  have "row_map_ok (add_aborted_range m lo hi)"
    using Cons.prems by simp
  note Cons.IH [OF this]
  then show ?case
    using Cons.prems by (simp add: r is_aborted_add)
qed

text \<open>
  Rejected generations: whatever abort records are loaded, overlapping or adjacent and
  in any order, the snapshot keeps them merged in normal form and its binary-search lookup
  answers exactly whether some record covers the generation.
\<close>

theorem is_aborted_load_aborted:
  "row_map_ok (load_aborted e ranges) \<and>
   (is_aborted (load_aborted e ranges) v \<longleftrightarrow>
     (\<exists>(lo, hi) \<in> set ranges. lo \<noteq> 0 \<and> lo \<le> v \<and> v \<le> hi))"
  using fold_add_aborted [of "row_map_new e" ranges v] by (simp add: load_aborted_def)

section \<open>Staging and committing a flush\<close>

text \<open>
  One row write of a flush: the stored row is replaced by the merged one, or kept when the
  merge says the write must be skipped. \<open>c\<close> is the committed ceiling the flush prepared
  against and \<open>ab\<close> the rejected generations of its base snapshot.
\<close>

definition stage_row :: "(u64 \<Rightarrow> bool) \<Rightarrow> u64 \<Rightarrow> RowState \<times> u64 \<Rightarrow> OvrRow option \<Rightarrow> OvrRow option" where
  "stage_row ab c w orow =
     (case merge_row_for_write_filtered orow (fst w) (snd w) c ab of
        None \<Rightarrow> orow | Some row \<Rightarrow> Some row)"

definition stage_in_map :: "OvrRowMap \<Rightarrow> u64 \<Rightarrow> u32 \<times> RowState \<times> u64 \<Rightarrow> OvrRowMap \<Rightarrow> OvrRowMap" where
  "stage_in_map base c w m =
     (case merge_row_for_write_in_map (row_map_get m (fst w)) (fst (snd w)) (snd (snd w)) c (Some base)
      of None \<Rightarrow> m | Some row \<Rightarrow> row_map_insert m (fst w) row)"

text \<open>The slot a reader at the committed ceiling falls back to once a row is restaged.\<close>

definition row_fallback :: "(u64 \<Rightarrow> bool) \<Rightarrow> u64 \<Rightarrow> OvrRow option \<Rightarrow> PrevSlot" where
  "row_fallback ab c orow =
     (case orow of
        None \<Rightarrow> Base
      | Some row \<Rightarrow> if cur_version row \<le> c \<and> \<not> ab (cur_version row)
                    then Slot (cur_state row) (cur_version row) else prev row)"

definition resolve_slot :: "(u64 \<Rightarrow> bool) \<Rightarrow> u64 \<Rightarrow> PrevSlot \<Rightarrow> BlockResolution" where
  "resolve_slot ab c slot =
     (case slot of
        Base \<Rightarrow> ResolvedBase
      | Slot st v \<Rightarrow> if v \<le> c \<and> \<not> ab v then (case st of Hole \<Rightarrow> ResolvedHole | Written \<Rightarrow> Exact v)
                     else Stale)"

lemma resolve_fallback:
  "resolve_row_filtered orow c ab = resolve_slot ab c (row_fallback ab c orow)"
  by (auto simp: resolve_row_filtered_def resolve_slot_def row_fallback_def
      split: option.split PrevSlot.split)

lemma resolve_above:
  "\<not> (cur_version row \<le> c \<and> \<not> ab (cur_version row)) \<Longrightarrow>
    resolve_row_filtered (Some row) c ab = resolve_slot ab c (prev row)"
  by (auto simp: resolve_fallback row_fallback_def)

lemma resolve_above_ceiling:
  "c < cur_version row \<Longrightarrow> resolve_row_filtered (Some row) c ab = resolve_slot ab c (prev row)"
  by (rule resolve_above) (auto dest: leD)

lemma merge_filtered_Some:
  assumes "merge_row_for_write_filtered orow st g c ab = Some row"
  shows "cur_state row = st" and "cur_version row = g" and "prev row = row_fallback ab c orow"
    and "orow = Some r \<Longrightarrow> cur_version r < g"
  using assms by (auto simp: merge_row_for_write_filtered_def row_fallback_def not_le
      split: option.splits if_splits)

lemma merge_filtered_None:
  "merge_row_for_write_filtered orow st g c ab = None \<longleftrightarrow>
    (\<exists>r. orow = Some r \<and> g \<le> cur_version r)"
  by (auto simp: merge_row_for_write_filtered_def split: option.splits)

text \<open>Restaging above the ceiling never moves the fallback slot.\<close>

lemma row_fallback_staged:
  assumes "\<forall>w \<in> set ws. c < snd w"
  shows "fold (stage_row ab c) ws orow = orow \<or>
    (\<exists>row. fold (stage_row ab c) ws orow = Some row \<and> c < cur_version row \<and>
       prev row = row_fallback ab c orow \<and> (cur_state row, cur_version row) \<in> set ws)"
  using assms
proof (induction ws rule: rev_induct)
  case Nil
  show ?case by simp
next
  case (snoc w ws)
  let ?cur = "fold (stage_row ab c) ws orow"
  have fb: "row_fallback ab c ?cur = row_fallback ab c orow"
    using snoc by (auto simp: row_fallback_def not_le)
  show ?case
  proof (cases "merge_row_for_write_filtered ?cur (fst w) (snd w) c ab")
    case None
    then have "fold (stage_row ab c) (ws @ [w]) orow = ?cur"
      by (simp add: stage_row_def)
    with snoc show ?thesis by auto
  next
    case (Some row)
    then have "fold (stage_row ab c) (ws @ [w]) orow = Some row"
      by (simp add: stage_row_def)
    with merge_filtered_Some [OF Some] fb snoc.prems show ?thesis
      by simp
  qed
qed

lemma resolve_staged:
  assumes "\<forall>w \<in> set ws. c < snd w"
  shows "resolve_row_filtered (fold (stage_row ab c) ws orow) c ab = resolve_row_filtered orow c ab"
  using row_fallback_staged [OF assms, of ab orow]
  by (auto simp: resolve_above_ceiling resolve_fallback [of orow])

lemma stage_in_map_ok: "row_map_ok m \<Longrightarrow> row_map_ok (fold (stage_in_map base c) ws m)"
  by (induction ws arbitrary: m) (auto simp: stage_in_map_def split: option.split)

lemma stage_in_map_aborted: "is_aborted (fold (stage_in_map base c) ws m) = is_aborted m"
  by (induction ws arbitrary: m) (auto simp: stage_in_map_def split: option.split)

lemma stage_in_map_get:
  "row_map_ok m \<Longrightarrow> row_map_get (fold (stage_in_map base c) ws m) b =
    fold (stage_row (is_aborted base) c) (map snd (filter (\<lambda>w. fst w = b) ws)) (row_map_get m b)"
proof (induction ws arbitrary: m)
  case Nil
  then show ?case by simp
next
  case (Cons w ws)
  have "row_map_ok (stage_in_map base c w m)"
    using stage_in_map_ok [of m base c "[w]"] Cons.prems by simp
  moreover have "row_map_get (stage_in_map base c w m) b =
      (if fst w = b then stage_row (is_aborted base) c (snd w) (row_map_get m b) else row_map_get m b)"
    using Cons.prems
    by (auto simp: stage_in_map_def stage_row_def merge_row_for_write_in_map_def split: option.split)
  ultimately show ?case
    using Cons.IH by simp
qed

text \<open>
  C30. Staged rows are invisible: however many row writes a flush and abandoned attempts
  land above the committed ceiling, over whatever rows are stored, every block of the
  snapshot still resolves at that ceiling to what it resolved to before.
\<close>

theorem staged_rows_invisible:
  assumes "row_map_ok m" and "\<forall>w \<in> set ws. c < snd (snd w)"
  shows "row_map_resolve (fold (stage_in_map m c) ws m) b c = row_map_resolve m b c"
  using assms
  by (simp add: row_map_resolve_def stage_in_map_get stage_in_map_aborted resolve_staged)

theorem staged_rows_invisible_witness:
  "let m = row_map_insert (row_map_new 3) 11
             \<lparr>cur_state = Written, cur_version = 3, prev = Base\<rparr>;
       ws = [(11, Written, 5), (11, Hole, 6), (12, Written, 6)]
   in row_map_resolve (fold (stage_in_map m 3) ws m) 11 3 = Exact 3"
proof -
  let ?m = "row_map_insert (row_map_new 3) 11
    \<lparr>cur_state = Written, cur_version = 3, prev = Base\<rparr>"
  have "row_map_resolve (fold (stage_in_map ?m 3)
      [(11, Written, 5), (11, Hole, 6), (12, Written, 6)] ?m) 11 3 = row_map_resolve ?m 11 3"
    by (rule staged_rows_invisible) simp_all
  also have "\<dots> = Exact 3"
    by (simp add: row_map_resolve_def resolve_row_filtered_def)
  finally show ?thesis by (simp add: Let_def)
qed

lemma find_append:
  "find p (xs @ ys) = (case find p xs of None \<Rightarrow> find p ys | Some x \<Rightarrow> Some x)"
  by (induction xs) auto

lemma staged_version:
  assumes "\<forall>w \<in> set ws. snd w \<le> v" and "\<forall>row. orow = Some row \<longrightarrow> cur_version row < v"
  shows "case find (\<lambda>w. snd w = v) ws of
      None \<Rightarrow> \<forall>row. fold (stage_row ab c) ws orow = Some row \<longrightarrow> cur_version row < v
    | Some w \<Rightarrow> \<exists>row. fold (stage_row ab c) ws orow = Some row \<and>
        cur_version row = v \<and> cur_state row = fst w"
  using assms(1)
proof (induction ws rule: rev_induct)
  case Nil
  show ?case using assms(2) by simp
next
  case (snoc w ws)
  let ?cur = "fold (stage_row ab c) ws orow"
  have fold: "fold (stage_row ab c) (ws @ [w]) orow =
      (case merge_row_for_write_filtered ?cur (fst w) (snd w) c ab of None \<Rightarrow> ?cur | Some r \<Rightarrow> Some r)"
    by (simp add: stage_row_def)
  show ?case
  proof (cases "find (\<lambda>w. snd w = v) ws")
    case (Some x)
    with snoc obtain row where row: "?cur = Some row" "cur_version row = v" "cur_state row = fst x"
      by auto
    then have "merge_row_for_write_filtered ?cur (fst w) (snd w) c ab = None"
      using snoc.prems by (simp add: merge_filtered_None)
    with fold row Some show ?thesis
      by (simp add: find_append)
  next
    case None
    with snoc have low: "\<forall>row. ?cur = Some row \<longrightarrow> cur_version row < v"
      by simp
    show ?thesis
    proof (cases "merge_row_for_write_filtered ?cur (fst w) (snd w) c ab")
      case n: None
      then obtain row where "?cur = Some row" "snd w \<le> cur_version row"
        by (auto simp: merge_filtered_None)
      with low have "snd w \<noteq> v" by auto
      with None low fold n show ?thesis
        by (simp add: find_append)
    next
      case (Some row)
      note merge_filtered_Some(1,2) [OF Some]
      moreover have "snd w \<noteq> v \<Longrightarrow> snd w < v"
        using snoc.prems by (simp add: order_less_le)
      ultimately show ?thesis
        using None fold Some by (simp add: find_append)
    qed
  qed
qed

lemma resolve_slot_commit:
  assumes "c < v" and "\<And>x. ab' x \<longleftrightarrow> ab x \<or> c < x \<and> x < v"
    and "\<And>st p. slot = Slot st p \<Longrightarrow> p < v"
  shows "resolve_slot ab' v slot = resolve_slot ab c slot"
  using assms by (auto simp: resolve_slot_def not_le split: PrevSlot.split)

lemma row_fallback_commit:
  assumes "c < v" and "\<And>x. ab' x \<longleftrightarrow> ab x \<or> c < x \<and> x < v"
    and "\<And>row. orow = Some row \<Longrightarrow> cur_version row < v"
  shows "row_fallback ab' v orow = row_fallback ab c orow"
  using assms by (auto simp: row_fallback_def not_le split: option.split)

lemma row_fallback_below:
  assumes "\<And>row. orow = Some row \<Longrightarrow> row_ok row \<and> cur_version row < v"
    and "row_fallback ab c orow = Slot st p"
  shows "p < v"
  using assms by (auto simp: row_fallback_def row_ok_def split: option.splits if_splits)

lemma resolve_committed:
  assumes "c < v" and ab': "\<And>x. ab' x \<longleftrightarrow> ab x \<or> c < x \<and> x < v" and "\<not> ab v"
    and below: "\<And>row. orow = Some row \<Longrightarrow> row_ok row \<and> cur_version row < v"
    and ws: "\<forall>w \<in> set ws. c < snd w \<and> snd w \<le> v"
  shows "resolve_row_filtered (fold (stage_row ab c) ws orow) v ab' =
    (case find (\<lambda>w. snd w = v) ws of
       None \<Rightarrow> resolve_row_filtered orow c ab
     | Some w \<Rightarrow> (case fst w of Hole \<Rightarrow> ResolvedHole | Written \<Rightarrow> Exact v))"
proof -
  let ?new = "fold (stage_row ab c) ws orow" and ?fb = "row_fallback ab c orow"
  have ver: "case find (\<lambda>w. snd w = v) ws of
      None \<Rightarrow> \<forall>row. ?new = Some row \<longrightarrow> cur_version row < v
    | Some w \<Rightarrow> \<exists>row. ?new = Some row \<and> cur_version row = v \<and> cur_state row = fst w"
    using ws below by (intro staged_version) auto
  have slot: "resolve_slot ab' v ?fb = resolve_row_filtered orow c ab"
    using row_fallback_below [OF below] resolve_slot_commit [OF assms(1) ab']
    by (metis resolve_fallback)
  show ?thesis
  proof (cases "find (\<lambda>w. snd w = v) ws")
    case None
    consider "?new = orow" | row where "?new = Some row" "c < cur_version row" "prev row = ?fb"
      using row_fallback_staged [of ws c ab orow] ws by auto
    then show ?thesis
    proof cases
      case 1
      have "row_fallback ab' v orow = ?fb"
        using below by (intro row_fallback_commit assms(1) ab') simp
      with None 1 slot show ?thesis
        by (simp add: resolve_fallback [of orow v ab'])
    next
      case 2
      then have "ab' (cur_version row)"
        using ver None by (simp add: ab')
      with 2 None slot show ?thesis
        by (simp add: resolve_above)
    qed
  next
    case (Some w)
    with ver obtain row where "?new = Some row" "cur_version row = v" "cur_state row = fst w"
      by auto
    moreover have "\<not> ab' v"
      using assms(3) by (simp add: ab')
    ultimately show ?thesis
      using Some by (simp add: resolve_row_filtered_def)
  qed
qed

text \<open>The first row write of generation \<open>v\<close> for block \<open>b\<close>; later ones are skipped.\<close>

definition committed_write :: "u32 \<Rightarrow> u64 \<Rightarrow> (u32 \<times> RowState \<times> u64) list \<Rightarrow> RowState option" where
  "committed_write b v ws =
     map_option (\<lambda>w. fst (snd w)) (find (\<lambda>w. fst w = b \<and> snd (snd w) = v) ws)"

lemma committed_write_find:
  "committed_write b v ws =
    map_option fst (find (\<lambda>w. snd w = v) (map snd (filter (\<lambda>w. fst w = b) ws)))"
  by (induction ws) (auto simp: committed_write_def)

text \<open>
  C4. The commit switches a whole flush on and nothing else. Row writes of generation
  \<open>v\<close> (the committing flush) and of doomed generations between the old ceiling \<open>c\<close> and
  \<open>v\<close> land in any order, delayed ones included. Once the skipped generations are recorded
  as rejected and the ceiling is \<open>v\<close>, a block the flush wrote resolves to generation
  \<open>v\<close> (or to its hole), and every other block to exactly what it resolved to at \<open>c\<close>.
\<close>

theorem commit_resolution:
  assumes "row_map_ok m" and "c < v" and "\<not> is_aborted m v"
    and "\<forall>b row. row_map_get m b = Some row \<longrightarrow> row_ok row \<and> cur_version row < v"
    and "\<forall>w \<in> set ws. c < snd (snd w) \<and> snd (snd w) \<le> v"
  shows "row_map_resolve (add_aborted_range (fold (stage_in_map m c) ws m) (c + 1) (v - 1)) b v =
    (case committed_write b v ws of
       None \<Rightarrow> row_map_resolve m b c
     | Some st \<Rightarrow> (case st of Hole \<Rightarrow> ResolvedHole | Written \<Rightarrow> Exact v))"
proof -
  let ?staged = "fold (stage_in_map m c) ws m"
  let ?m' = "add_aborted_range ?staged (c + 1) (v - 1)"
  let ?wb = "map snd (filter (\<lambda>w. fst w = b) ws)"
  have bounds: "c + 1 \<noteq> 0" "c + 1 \<le> x \<longleftrightarrow> c < x" "x \<le> v - 1 \<longleftrightarrow> x < v" for x
    using assms(2) by unat_arith+
  have ab': "is_aborted ?m' x \<longleftrightarrow> is_aborted m x \<or> c < x \<and> x < v" for x
    using assms(1) by (simp add: is_aborted_add stage_in_map_ok stage_in_map_aborted bounds)
  have "row_map_get ?m' b = fold (stage_row (is_aborted m) c) ?wb (row_map_get m b)"
    using assms(1) by (simp add: stage_in_map_get)
  then have "row_map_resolve ?m' b v = resolve_row_filtered
      (fold (stage_row (is_aborted m) c) ?wb (row_map_get m b)) v (is_aborted ?m')"
    by (simp add: row_map_resolve_def)
  also have "\<dots> = (case find (\<lambda>w. snd w = v) ?wb of
       None \<Rightarrow> resolve_row_filtered (row_map_get m b) c (is_aborted m)
     | Some w \<Rightarrow> (case fst w of Hole \<Rightarrow> ResolvedHole | Written \<Rightarrow> Exact v))"
    using assms(3,4,5) by (intro resolve_committed [OF assms(2) ab']) auto
  also have "\<dots> = (case committed_write b v ws of
       None \<Rightarrow> row_map_resolve m b c
     | Some st \<Rightarrow> (case st of Hole \<Rightarrow> ResolvedHole | Written \<Rightarrow> Exact v))"
    by (simp add: committed_write_find row_map_resolve_def split: option.split)
  finally show ?thesis .
qed

theorem commit_resolution_witness:
  "let m = row_map_insert (row_map_new 3) 11
             \<lparr>cur_state = Written, cur_version = 3, prev = Base\<rparr>;
       ws = [(11, Written, 5), (12, Hole, 7), (11, Written, 6)];
       m' = add_aborted_range (fold (stage_in_map m 3) ws m) (3 + 1) (7 - 1)
   in row_map_resolve m' 11 7 = Exact 3 \<and> row_map_resolve m' 12 7 = ResolvedHole"
proof -
  let ?m = "row_map_insert (row_map_new 3) 11
    \<lparr>cur_state = Written, cur_version = 3, prev = Base\<rparr>"
  let ?ws = "[(11, Written, 5), (12, Hole, 7), (11, Written, 6)] :: (u32 \<times> RowState \<times> u64) list"
  have hyps: "row_map_ok ?m" "(3::u64) < 7" "\<not> is_aborted ?m 7"
    "\<forall>b row. row_map_get ?m b = Some row \<longrightarrow> row_ok row \<and> cur_version row < 7"
    "\<forall>w \<in> set ?ws. 3 < snd (snd w) \<and> snd (snd w) \<le> 7"
    by (simp_all add: row_ok_def)
  have vals: "committed_write 11 7 ?ws = None" "committed_write 12 7 ?ws = Some Hole"
    "row_map_resolve ?m 11 3 = Exact 3"
    by (simp_all add: committed_write_def row_map_resolve_def resolve_row_filtered_def)
  show ?thesis
    unfolding Let_def
    by (simp only: commit_resolution [OF hyps] vals option.case RowState.case simp_thms)
qed

section \<open>Fetch plans\<close>

text \<open>
  C29. A fetch plan reads committed generations only. A fetch that treats a miss as data
  loss names a generation that the row map holds, at or below the reader's ceiling and not
  rejected, and requests the padded block unless that generation is the base one; every
  other fetch is the base generation at its natural length, where a miss is a sparse hole.
\<close>

theorem block_fetch_plan_committed:
  assumes "block_fetch_plan (Some m) b ceiling block_size content_len = Fetch ver len loss"
  shows "if loss
    then ver \<le> ceiling \<and> \<not> is_aborted m ver \<and>
      (\<exists>row. row_map_get m b = Some row \<and>
        (cur_state row = Written \<and> cur_version row = ver \<or> prev row = Slot Written ver)) \<and>
      len = (if 1 < ver then max block_size content_len else content_len)
    else ver = 1 \<and> len = content_len"
  using assms
  by (auto simp: block_fetch_plan_def row_map_resolve_def resolve_row_filtered_def Let_def
      split: option.splits PrevSlot.splits RowState.splits if_splits)

theorem block_fetch_plan_committed_witness:
  "let m = row_map_insert (row_map_new 4) 1 \<lparr>cur_state = Written, cur_version = 3, prev = Base\<rparr>
   in block_fetch_plan (Some m) 1 4 131072 17 = Fetch 3 131072 True \<and> (3::u64) \<le> 4 \<and>
      \<not> is_aborted m 3"
proof -
  let ?m = "row_map_insert (row_map_new 4) 1 \<lparr>cur_state = Written, cur_version = 3, prev = Base\<rparr>"
  have plan: "block_fetch_plan (Some ?m) 1 4 131072 17 = Fetch 3 131072 True"
    by (simp add: block_fetch_plan_def row_map_resolve_def resolve_row_filtered_def)
  show ?thesis
    using plan block_fetch_plan_committed [OF plan] by (simp add: Let_def)
qed

section \<open>Keys\<close>

lemma nul_not_hex: "nul \<notin> set ''0123456789abcdef''"
  by (simp add: nul_def)

lemma last_hex_fixed: "0 < w \<Longrightarrow> last (hex_fixed w n) \<in> set ''0123456789abcdef''"
  using set_hex_fixed [of w n] by (cases w) (auto simp: hex_digit_set)

lemma trim_hex_tail [simp]:
  assumes "0 < w"
  shows "trim_end_matches nul (s @ hex_fixed w n) = s @ hex_fixed w n"
proof (rule trim_end_matches_id)
  have "hex_fixed w n \<noteq> []" using assms by (cases w) auto
  then show "s @ hex_fixed w n = [] \<or> last (s @ hex_fixed w n) \<noteq> nul"
    using last_hex_fixed [OF assms, of n] nul_not_hex by auto
qed

lemma char_not_hex: "c \<notin> set ''0123456789abcdef'' \<Longrightarrow> c \<notin> set (hex_fixed w n)"
  using set_hex_fixed [of w n] by blast

lemma from_str_radix16_word:
  "0 < w \<Longrightarrow> LENGTH('a) \<le> 4 * w \<Longrightarrow>
    from_str_radix16 LENGTH('a) (hex_fixed w (unat x)) = Some (unat (x :: 'a::len word))"
proof -
  assume w: "0 < w" "LENGTH('a) \<le> 4 * w"
  have "(2::nat) ^ LENGTH('a) \<le> 2 ^ (4 * w)"
    using w(2) by (simp add: power_increasing)
  also have "\<dots> = 16 ^ w"
    by (simp add: power_mult)
  finally have "unat x < 16 ^ w"
    using unat_less_pow [of x] by linarith
  then show ?thesis
    using w(1) by (simp add: from_str_radix16_hex_fixed)
qed

lemmas key_defs = ovr_row_key_def ovr_abort_key_def ovr_row_prefix_def OVR_ROW_PREFIX_def
  parse_ovr_row_block_def parse_ovr_abort_range_def Let_def

lemma parse_block_tail:
  assumes "CHR ''/'' \<notin> set i"
  shows "parse_ovr_row_block (OVR_ROW_PREFIX @ i @ CHR ''/'' # t) =
    (let t' = trim_end_matches nul t
     in if length t' \<noteq> 8 then None else map_option word_of_nat (from_str_radix16 32 t'))"
proof -
  have "trim_end_matches nul (OVR_ROW_PREFIX @ i @ CHR ''/'' # t) =
      OVR_ROW_PREFIX @ i @ CHR ''/'' # trim_end_matches nul t"
    using trim_end_matches_prefix [of "CHR ''/''" nul "OVR_ROW_PREFIX @ i" t]
    by (simp add: nul_def)
  then show ?thesis
    using assms by (simp add: parse_ovr_row_block_def split_once_append)
qed

lemma parse_abort_tail:
  assumes "CHR ''/'' \<notin> set i"
  shows "parse_ovr_abort_range (OVR_ROW_PREFIX @ i @ CHR ''/'' # t) =
    (case strip_prefix ''x'' (trim_end_matches nul t) of
       None \<Rightarrow> None
     | Some enc \<Rightarrow>
         (case split_once CHR ''-'' enc of
            None \<Rightarrow> None
          | Some (lo_hex, hi_hex) \<Rightarrow>
              (if length lo_hex \<noteq> 16 \<or> length hi_hex \<noteq> 16 then None
               else case from_str_radix16 64 lo_hex of
                   None \<Rightarrow> None
                 | Some lo \<Rightarrow>
                     (case from_str_radix16 64 hi_hex of
                        None \<Rightarrow> None
                      | Some hi \<Rightarrow>
                          (if 0 < lo \<and> lo \<le> hi then Some (word_of_nat lo, word_of_nat hi)
                           else None)))))"
proof -
  have "trim_end_matches nul (OVR_ROW_PREFIX @ i @ CHR ''/'' # t) =
      OVR_ROW_PREFIX @ i @ CHR ''/'' # trim_end_matches nul t"
    using trim_end_matches_prefix [of "CHR ''/''" nul "OVR_ROW_PREFIX @ i" t]
    by (simp add: nul_def)
  then show ?thesis
    using assms by (simp add: parse_ovr_abort_range_def split_once_append)
qed

lemma trim_hex_nuls [simp]:
  "0 < w \<Longrightarrow> trim_end_matches nul (hex_fixed w n @ replicate k nul) = hex_fixed w n"
  "0 < w \<Longrightarrow> trim_end_matches nul (s @ hex_fixed w n @ replicate k nul) = s @ hex_fixed w n"
proof -
  have r: "trim_end_matches nul (s @ replicate k nul) = trim_end_matches nul s" for s
    by (induction k) (simp_all add: replicate_append_same [symmetric] flip: append_assoc)
  show "0 < w \<Longrightarrow> trim_end_matches nul (hex_fixed w n @ replicate k nul) = hex_fixed w n"
    "0 < w \<Longrightarrow> trim_end_matches nul (s @ hex_fixed w n @ replicate k nul) = s @ hex_fixed w n"
    using r [of "hex_fixed w n"] r [of "s @ hex_fixed w n"] trim_hex_tail [of w "[]" n]
    by simp_all
qed

lemma strip_x_hex [simp]: "0 < w \<Longrightarrow> strip_prefix ''x'' (hex_fixed w n) = None"
proof -
  assume "0 < w"
  then obtain c cs where "hex_fixed w n = c # cs" by (cases w; cases "hex_fixed w n") auto
  moreover from this have "c \<in> set ''0123456789abcdef''"
    using set_hex_fixed [of w n] by auto
  ultimately show ?thesis
    by (auto simp: strip_prefix_def)
qed

text \<open>
  Row and abort keys parse back. For a blob id whose text form has no slash (the
  \<open>uuid\<close> crate prints 32 hexadecimal digits), the block number of a row key and the
  generation range of an abort key are recovered, with or without the trailing NUL bytes
  the metadata tree appends, and neither parser accepts the other kind of key.
\<close>

theorem ovr_keys_roundtrip:
  assumes "CHR ''/'' \<notin> set (as_simple blob_id)"
  shows "parse_ovr_row_block (ovr_row_key as_simple blob_id block @ replicate k nul) = Some block \<and>
    parse_ovr_abort_range (ovr_row_key as_simple blob_id block @ replicate k nul) = None \<and>
    parse_ovr_row_block (ovr_abort_key as_simple blob_id lo hi @ replicate k nul) = None \<and>
    parse_ovr_abort_range (ovr_abort_key as_simple blob_id lo hi @ replicate k nul) =
      (if 0 < lo \<and> lo \<le> hi then Some (lo, hi) else None)"
proof -
  have row: "ovr_row_key as_simple blob_id block @ replicate k nul =
      OVR_ROW_PREFIX @ as_simple blob_id @ CHR ''/'' # hex_fixed 8 (unat block) @ replicate k nul"
    by (simp add: ovr_row_key_def)
  have abort: "ovr_abort_key as_simple blob_id lo hi @ replicate k nul =
      OVR_ROW_PREFIX @ as_simple blob_id @ CHR ''/'' #
        (''x'' @ hex_fixed 16 (unat lo) @ ''-'') @ hex_fixed 16 (unat hi) @ replicate k nul"
    by (simp add: ovr_abort_key_def)
  have dash: "split_once CHR ''-'' (hex_fixed 16 (unat lo) @ CHR ''-'' # hex_fixed 16 (unat hi)) =
      Some (hex_fixed 16 (unat lo), hex_fixed 16 (unat hi))"
    by (rule split_once_append) (rule char_not_hex, simp)
  have strip: "strip_prefix ''x'' ((''x'' @ hex_fixed 16 (unat lo) @ ''-'') @ hex_fixed 16 (unat hi)) =
      Some (hex_fixed 16 (unat lo) @ CHR ''-'' # hex_fixed 16 (unat hi))"
    using strip_prefix_append [of "''x''"] by simp
  have hex: "from_str_radix16 32 (hex_fixed 8 (unat block)) = Some (unat block)"
    "from_str_radix16 64 (hex_fixed 16 (unat lo)) = Some (unat lo)"
    "from_str_radix16 64 (hex_fixed 16 (unat hi)) = Some (unat hi)"
    using from_str_radix16_word [of 8 block] from_str_radix16_word [of 16 lo]
      from_str_radix16_word [of 16 hi] by simp_all
  show ?thesis
    unfolding row abort parse_block_tail [OF assms] parse_abort_tail [OF assms]
    by (simp add: Let_def trim_hex_nuls strip dash hex word_less_nat_alt word_le_nat_alt
        del: append.simps append_assoc)
qed

theorem ovr_keys_roundtrip_witness:
  "parse_ovr_row_block (ovr_row_key (hex_fixed 32) 255 42 @ replicate 1 nul) = Some 42 \<and>
   parse_ovr_abort_range (ovr_row_key (hex_fixed 32) 255 42 @ replicate 1 nul) = None \<and>
   parse_ovr_row_block (ovr_abort_key (hex_fixed 32) 255 3 9 @ replicate 1 nul) = None \<and>
   parse_ovr_abort_range (ovr_abort_key (hex_fixed 32) 255 3 9 @ replicate 1 nul) = Some (3, 9)"
proof -
  have "CHR ''/'' \<notin> set (hex_fixed 32 255)"
    by (rule char_not_hex) simp
  from ovr_keys_roundtrip [where as_simple = "hex_fixed 32" and blob_id = 255 and block = 42
      and lo = 3 and hi = 9 and k = 1, OF this]
  show ?thesis by simp
qed

text \<open>
  Listing order is block order: row keys of one blob compare as their block numbers
  do, and every abort record of the blob sorts after all of its row keys.
\<close>

theorem ovr_row_key_order:
  "(ovr_row_key as_simple blob_id a < ovr_row_key as_simple blob_id b \<longleftrightarrow> a < b) \<and>
   ovr_row_key as_simple blob_id a < ovr_abort_key as_simple blob_id lo hi"
proof -
  have pre: "p @ xs < p @ ys \<longleftrightarrow> xs < ys" for p xs ys :: string
    by (simp add: append_less_append)
  have "unat x < 16 ^ 8" for x :: u32
    using unat_less_pow [of x] by simp
  then have "hex_fixed 8 (unat a) < hex_fixed 8 (unat b) \<longleftrightarrow> a < b"
    by (simp add: hex_fixed_less word_less_nat_alt)
  moreover have "hex_fixed 8 n < CHR ''x'' # xs" for n xs
  proof -
    obtain c cs where "hex_fixed 8 n = c # cs"
      using length_hex_fixed [of 8 n] by (cases "hex_fixed 8 n") auto
    moreover from this have "c \<in> set ''0123456789abcdef''"
      using set_hex_fixed [of 8 n] by auto
    ultimately show ?thesis by (auto simp: less_char_def)
  qed
  ultimately show ?thesis
    by (simp add: ovr_row_key_def ovr_abort_key_def pre del: append.simps) (simp add: pre)
qed

end
