(* ===== verification/Object_Layout.thy ===== *)
theory Object_Layout
  imports Ovr_Map
begin

text \<open>
  The inode record of \<open>crates/common/data_types/src/object_layout.rs\<close> and the blob
  identity of \<open>blob_guid.rs\<close>: the layout with its out-of-line filesystem members, the
  accessors, the normalising mutators, the POSIX-only rebase rule of the flush commit, the
  committed-data comparison, the orphan keys and the checksum values.

  A \<open>Uuid\<close> is its 128-bit value; its text forms are the parameters \<open>as_simple\<close>,
  \<open>hyphenated\<close> and \<open>try_parse\<close>. The \<open>rkyv\<close> encoder is the parameter \<open>to_bytes\<close>. Addition on
  \<open>u64\<close> wraps, as it does in a release build. A panic is \<open>None\<close>.
\<close>

section \<open>Data\<close>

type_synonym Uuid = u128

record DataBlobGuid =
  blob_id :: Uuid
  volume_id :: u16

definition S3_VOLUME :: u16 where "S3_VOLUME = - 1"

datatype ObjectLayoutError = InvalidState

type_synonym HeaderList = "(string \<times> string) list"

datatype BlobLocation = DataVgProxyLocation | S3Location

datatype ChecksumAlgorithm = Crc32 | Crc32c | Crc64Nvme | Sha1 | Sha256

datatype ChecksumValue =
    Crc32Value bytes
  | Crc32cValue bytes
  | Crc64NvmeValue bytes
  | Sha1Value bytes
  | Sha256Value bytes

record PosixAttrs =
  mode :: u32
  uid :: u32
  gid :: u32
  mtime_ns :: u64
  ctime_ns :: u64

definition posix_default :: PosixAttrs where
  "posix_default = \<lparr>mode = 0, uid = 0, gid = 0, mtime_ns = 0, ctime_ns = 0\<rparr>"

record FsExt =
  ext_posix :: "PosixAttrs option"
  ext_next_version :: u64
  ext_pending_append :: "(u32 \<times> u32) option"
  ext_map_epoch :: u64

definition fs_ext_default :: FsExt where
  "fs_ext_default =
     \<lparr>ext_posix = None, ext_next_version = 0, ext_pending_append = None, ext_map_epoch = 0\<rparr>"

record ObjectCoreMetaData =
  core_size :: u64
  core_etag :: string
  core_headers :: HeaderList
  core_checksum :: "ChecksumValue option"

record ObjectMetaData =
  meta_blob_guid :: DataBlobGuid
  meta_core :: ObjectCoreMetaData

datatype MpuState = Uploading | Completed ObjectCoreMetaData

record SymlinkData =
  target :: bytes
  symlink_core :: ObjectCoreMetaData

datatype SpecialKind = Fifo | BlockDevice | CharDevice | Socket

record SpecialData =
  special_kind :: SpecialKind
  rdev :: u32
  special_core :: ObjectCoreMetaData

record DirectoryData =
  dir_posix :: PosixAttrs

record IndirectEntry =
  inode_id :: Uuid

datatype ObjectState =
    Normal ObjectMetaData
  | Mpu MpuState
  | Symlink SymlinkData
  | Special SpecialData
  | Directory DirectoryData
  | Indirect IndirectEntry

record ObjectLayout =
  timestamp :: u64
  version_id :: Uuid
  block_size :: u32
  blob_version :: u64
  fs_ext :: "FsExt option"
  state :: ObjectState

record InodeRecord =
  inode_layout :: ObjectLayout
  nlink :: u32
  orphan_since :: "u64 option"

definition DEFAULT_BLOCK_SIZE :: u32 where "DEFAULT_BLOCK_SIZE = 128 * 1024"

section \<open>Checksums\<close>

fun algorithm :: "ChecksumValue \<Rightarrow> ChecksumAlgorithm" where
  "algorithm (Crc32Value _) = Crc32"
| "algorithm (Crc32cValue _) = Crc32c"
| "algorithm (Crc64NvmeValue _) = Crc64Nvme"
| "algorithm (Sha1Value _) = Sha1"
| "algorithm (Sha256Value _) = Sha256"

fun checksum_bytes :: "ChecksumValue \<Rightarrow> bytes" where
  "checksum_bytes (Crc32Value b) = b"
| "checksum_bytes (Crc32cValue b) = b"
| "checksum_bytes (Crc64NvmeValue b) = b"
| "checksum_bytes (Sha1Value b) = b"
| "checksum_bytes (Sha256Value b) = b"

section \<open>Accessors\<close>

fun state_listable :: "ObjectState \<Rightarrow> bool" where
  "state_listable (Normal _) = True"
| "state_listable (Mpu (Completed _)) = True"
| "state_listable (Symlink _) = True"
| "state_listable (Indirect _) = True"
| "state_listable _ = False"

definition is_listable :: "ObjectLayout \<Rightarrow> bool" where
  "is_listable l = state_listable (state l)"

definition is_special :: "ObjectLayout \<Rightarrow> bool" where
  "is_special l = (case state l of Special _ \<Rightarrow> True | _ \<Rightarrow> False)"

definition is_fs_visible :: "ObjectLayout \<Rightarrow> bool" where
  "is_fs_visible l =
     (case state l of
        Normal _ \<Rightarrow> True
      | Mpu (Completed _) \<Rightarrow> True
      | Symlink _ \<Rightarrow> True
      | Indirect _ \<Rightarrow> True
      | Special _ \<Rightarrow> True
      | _ \<Rightarrow> False)"

definition is_symlink :: "ObjectLayout \<Rightarrow> bool" where
  "is_symlink l = (case state l of Symlink _ \<Rightarrow> True | _ \<Rightarrow> False)"

definition special :: "ObjectLayout \<Rightarrow> SpecialData option" where
  "special l = (case state l of Special data \<Rightarrow> Some data | _ \<Rightarrow> None)"

definition is_directory :: "ObjectLayout \<Rightarrow> bool" where
  "is_directory l = (case state l of Directory _ \<Rightarrow> True | _ \<Rightarrow> False)"

definition symlink_target :: "ObjectLayout \<Rightarrow> bytes option" where
  "symlink_target l = (case state l of Symlink data \<Rightarrow> Some (target data) | _ \<Rightarrow> None)"

definition blob_guid :: "ObjectLayout \<Rightarrow> ObjectLayoutError + DataBlobGuid" where
  "blob_guid l = (case state l of Normal data \<Rightarrow> Inr (meta_blob_guid data) | _ \<Rightarrow> Inl InvalidState)"

definition get_blob_location :: "ObjectLayout \<Rightarrow> ObjectLayoutError + BlobLocation" where
  "get_blob_location l =
     (case blob_guid l of
        Inl e \<Rightarrow> Inl e
      | Inr g \<Rightarrow> Inr (if volume_id g = S3_VOLUME then S3Location else DataVgProxyLocation))"

definition layout_size :: "ObjectLayout \<Rightarrow> ObjectLayoutError + u64" where
  "layout_size l =
     (case state l of
        Normal data \<Rightarrow> Inr (core_size (meta_core data))
      | Mpu (Completed core) \<Rightarrow> Inr (core_size core)
      | Symlink data \<Rightarrow> Inr (word_of_nat (length (target data)))
      | Special _ \<Rightarrow> Inr 0
      | Directory _ \<Rightarrow> Inr 0
      | _ \<Rightarrow> Inl InvalidState)"

fun state_core :: "ObjectState \<Rightarrow> ObjectCoreMetaData option" where
  "state_core (Normal data) = Some (meta_core data)"
| "state_core (Mpu (Completed core)) = Some core"
| "state_core (Symlink data) = Some (symlink_core data)"
| "state_core _ = None"

definition etag :: "ObjectLayout \<Rightarrow> ObjectLayoutError + string" where
  "etag l = (case state_core (state l) of Some core \<Rightarrow> Inr (core_etag core) | None \<Rightarrow> Inl InvalidState)"

definition checksum :: "ObjectLayout \<Rightarrow> ObjectLayoutError + ChecksumValue option" where
  "checksum l =
     (case state_core (state l) of Some core \<Rightarrow> Inr (core_checksum core) | None \<Rightarrow> Inl InvalidState)"

definition headers :: "ObjectLayout \<Rightarrow> ObjectLayoutError + HeaderList" where
  "headers l =
     (case state_core (state l) of Some core \<Rightarrow> Inr (core_headers core) | None \<Rightarrow> Inl InvalidState)"

text \<open>\<open>u64::div_ceil\<close> panics on a zero divisor.\<close>

definition div_ceil :: "nat \<Rightarrow> nat \<Rightarrow> nat option" where
  "div_ceil a b = (if b = 0 then None else Some (a div b + (if a mod b = 0 then 0 else 1)))"

definition num_blocks :: "ObjectLayout \<Rightarrow> (ObjectLayoutError + nat) option" where
  "num_blocks l =
     (case state l of
        Symlink _ \<Rightarrow> Some (Inr 0)
      | Directory _ \<Rightarrow> Some (Inr 0)
      | _ \<Rightarrow>
          (case layout_size l of
             Inl e \<Rightarrow> Some (Inl e)
           | Inr sz \<Rightarrow> map_option Inr (div_ceil (unat sz) (unat (block_size l)))))"

section \<open>Filesystem members\<close>

definition fs_posix :: "ObjectLayout \<Rightarrow> PosixAttrs option" where
  "fs_posix l = (case fs_ext l of None \<Rightarrow> None | Some e \<Rightarrow> ext_posix e)"

definition next_burn_version :: "ObjectLayout \<Rightarrow> u64" where
  "next_burn_version l =
     (let next = (case fs_ext l of None \<Rightarrow> 0 | Some e \<Rightarrow> ext_next_version e)
      in max next (blob_version l + 1))"

definition update_fs_ext :: "(FsExt \<Rightarrow> FsExt) \<Rightarrow> ObjectLayout \<Rightarrow> ObjectLayout" where
  "update_fs_ext f l =
     (let ext = f (case fs_ext l of None \<Rightarrow> fs_ext_default | Some e \<Rightarrow> e)
      in l\<lparr>fs_ext := (if ext \<noteq> fs_ext_default then Some ext else None)\<rparr>)"

definition set_fs_posix :: "ObjectLayout \<Rightarrow> PosixAttrs option \<Rightarrow> ObjectLayout" where
  "set_fs_posix l posix = update_fs_ext (\<lambda>e. e\<lparr>ext_posix := posix\<rparr>) l"

definition set_next_version :: "ObjectLayout \<Rightarrow> u64 \<Rightarrow> ObjectLayout" where
  "set_next_version l v =
     update_fs_ext (\<lambda>e. e\<lparr>ext_next_version := max (ext_next_version e) v\<rparr>) l"

definition pending_append :: "ObjectLayout \<Rightarrow> (u32 \<times> u32) option" where
  "pending_append l = (case fs_ext l of None \<Rightarrow> None | Some e \<Rightarrow> ext_pending_append e)"

definition set_pending_append :: "ObjectLayout \<Rightarrow> (u32 \<times> u32) option \<Rightarrow> ObjectLayout" where
  "set_pending_append l rng = update_fs_ext (\<lambda>e. e\<lparr>ext_pending_append := rng\<rparr>) l"

definition map_epoch :: "ObjectLayout \<Rightarrow> u64" where
  "map_epoch l = (case fs_ext l of None \<Rightarrow> 0 | Some e \<Rightarrow> ext_map_epoch e)"

definition is_mapped :: "ObjectLayout \<Rightarrow> bool" where
  "is_mapped l \<longleftrightarrow> map_epoch l \<noteq> 0"

definition may_have_ovr_records :: "ObjectLayout \<Rightarrow> bool" where
  "may_have_ovr_records l \<longleftrightarrow> is_mapped l \<or>
     (case fs_ext l of
        None \<Rightarrow> False
      | Some ext \<Rightarrow> saturating_add (blob_version l) 1 < ext_next_version ext)"

definition set_map_epoch :: "ObjectLayout \<Rightarrow> u64 \<Rightarrow> ObjectLayout" where
  "set_map_epoch l e = update_fs_ext (\<lambda>x. x\<lparr>ext_map_epoch := max (ext_map_epoch x) e\<rparr>) l"

definition fs_ext_from :: "PosixAttrs option \<Rightarrow> FsExt option" where
  "fs_ext_from posix =
     (let ext = fs_ext_default\<lparr>ext_posix := posix\<rparr>
      in if ext \<noteq> fs_ext_default then Some ext else None)"

section \<open>Keys\<close>

definition ORPHAN_PREFIX :: string where "ORPHAN_PREFIX = ''@orphan/''"
definition HARDLINK_PREFIX :: string where "HARDLINK_PREFIX = ''@hardlink/''"

definition orphan_key :: "(Uuid \<Rightarrow> string) \<Rightarrow> Uuid \<Rightarrow> Uuid \<Rightarrow> string" where
  "orphan_key as_simple inst i = ORPHAN_PREFIX @ as_simple inst @ ''/'' @ as_simple i"

definition parse_orphan_instance :: "(string \<Rightarrow> Uuid option) \<Rightarrow> string \<Rightarrow> Uuid option" where
  "parse_orphan_instance try_parse key =
     (case strip_prefix ORPHAN_PREFIX (trim_end_matches nul key) of
        None \<Rightarrow> None
      | Some rest \<Rightarrow>
          (case split_once CHR ''/'' rest of
             None \<Rightarrow> None
           | Some (inst, _) \<Rightarrow> try_parse inst))"

definition key_for :: "(Uuid \<Rightarrow> string) \<Rightarrow> Uuid \<Rightarrow> string" where
  "key_for hyphenated i = HARDLINK_PREFIX @ hyphenated i"

section \<open>POSIX attributes and the rebase rule\<close>

definition layout_posix :: "ObjectLayout \<Rightarrow> PosixAttrs" where
  "layout_posix l =
     (let from_ext = (case fs_posix l of Some p \<Rightarrow> p | None \<Rightarrow> posix_default)
      in case state l of
           Directory data \<Rightarrow> dir_posix data
         | Normal _ \<Rightarrow> from_ext
         | Mpu (Completed _) \<Rightarrow> from_ext
         | Symlink _ \<Rightarrow> from_ext
         | Special _ \<Rightarrow> from_ext
         | _ \<Rightarrow> posix_default)"

definition layout_with_posix :: "ObjectLayout \<Rightarrow> PosixAttrs \<Rightarrow> ObjectLayout" where
  "layout_with_posix l new_posix =
     (case state l of
        Directory data \<Rightarrow> l\<lparr>state := Directory (data\<lparr>dir_posix := new_posix\<rparr>)\<rparr>
      | Normal _ \<Rightarrow> set_fs_posix l (Some new_posix)
      | Mpu (Completed _) \<Rightarrow> set_fs_posix l (Some new_posix)
      | Symlink _ \<Rightarrow> set_fs_posix l (Some new_posix)
      | Special _ \<Rightarrow> set_fs_posix l (Some new_posix)
      | _ \<Rightarrow> l)"

definition posix_only_moved ::
    "(ObjectLayout \<Rightarrow> bytes option) \<Rightarrow> ObjectLayout \<Rightarrow> ObjectLayout \<Rightarrow> bool" where
  "posix_only_moved layout_bytes expected current =
     (let compare = (\<lambda>normalized.
            case (layout_bytes expected, layout_bytes normalized) of
              (Some expected_bytes, Some normalized_bytes) \<Rightarrow> expected_bytes = normalized_bytes
            | _ \<Rightarrow> False)
      in case (state expected, state current) of
           (Directory expected_dir, Directory current_dir) \<Rightarrow>
             compare (current\<lparr>state := Directory (current_dir\<lparr>dir_posix := dir_posix expected_dir\<rparr>)\<rparr>)
         | (Directory _, _) \<Rightarrow> False
         | (_, Directory _) \<Rightarrow> False
         | _ \<Rightarrow> compare (set_fs_posix current (fs_posix expected)))"

definition same_committed_data :: "ObjectLayout \<Rightarrow> ObjectLayout \<Rightarrow> bool" where
  "same_committed_data expected current =
     (case (state expected, state current) of
        (Normal a, Normal b) \<Rightarrow>
          meta_blob_guid a = meta_blob_guid b \<and>
          core_size (meta_core a) = core_size (meta_core b) \<and>
          blob_version expected = blob_version current \<and>
          block_size expected = block_size current \<and>
          map_epoch expected = map_epoch current
      | _ \<Rightarrow> False)"

section \<open>The normal form of the filesystem members\<close>

definition fs_ext_normal :: "ObjectLayout \<Rightarrow> bool" where
  "fs_ext_normal l \<longleftrightarrow> fs_ext l \<noteq> Some fs_ext_default"

definition ext_of :: "ObjectLayout \<Rightarrow> FsExt" where
  "ext_of l = (case fs_ext l of None \<Rightarrow> fs_ext_default | Some e \<Rightarrow> e)"

lemma ext_accessors:
  "fs_posix l = ext_posix (ext_of l)"
  "pending_append l = ext_pending_append (ext_of l)"
  "map_epoch l = ext_map_epoch (ext_of l)"
  "next_burn_version l = max (ext_next_version (ext_of l)) (blob_version l + 1)"
  by (simp_all add: fs_posix_def pending_append_def map_epoch_def next_burn_version_def ext_of_def
      fs_ext_default_def split: option.split)

lemma update_fs_ext_simps [simp]:
  "ext_of (update_fs_ext f l) = f (ext_of l)"
  "fs_ext_normal (update_fs_ext f l)"
  "timestamp (update_fs_ext f l) = timestamp l"
  "version_id (update_fs_ext f l) = version_id l"
  "block_size (update_fs_ext f l) = block_size l"
  "blob_version (update_fs_ext f l) = blob_version l"
  "state (update_fs_ext f l) = state l"
  by (auto simp: update_fs_ext_def ext_of_def fs_ext_normal_def Let_def)

lemma normal_layout_eqI:
  assumes "fs_ext_normal a" "fs_ext_normal b" "ext_of a = ext_of b"
    "timestamp a = timestamp b" "version_id a = version_id b" "block_size a = block_size b"
    "blob_version a = blob_version b" "state a = state b"
  shows "a = b"
proof -
  have "fs_ext a = fs_ext b"
    using assms(1-3) by (auto simp: fs_ext_normal_def ext_of_def split: option.splits)
  then show ?thesis
    using assms by (cases a, cases b) simp
qed

lemma fs_ext_eqI:
  assumes "ext_posix a = ext_posix b" "ext_next_version a = ext_next_version b"
    "ext_pending_append a = ext_pending_append b" "ext_map_epoch a = ext_map_epoch b"
  shows "(a::FsExt) = b"
  using assms by (cases a, cases b) simp

lemmas layout_setters = set_fs_posix_def set_next_version_def set_pending_append_def
  set_map_epoch_def

section \<open>Version allocation\<close>

text \<open>
  The updates a layout goes through between two prepares: the four normalising mutators, and
  the assignment of a new ceiling by a commit.
\<close>

datatype layout_op =
    SetPosix "PosixAttrs option"
  | SetNext u64
  | SetPending "(u32 \<times> u32) option"
  | SetEpoch u64
  | SetCeiling u64

fun apply_op :: "layout_op \<Rightarrow> ObjectLayout \<Rightarrow> ObjectLayout" where
  "apply_op (SetPosix p) l = set_fs_posix l p"
| "apply_op (SetNext v) l = set_next_version l v"
| "apply_op (SetPending r) l = set_pending_append l r"
| "apply_op (SetEpoch e) l = set_map_epoch l e"
| "apply_op (SetCeiling c) l = l\<lparr>blob_version := c\<rparr>"

lemma ext_of_more [simp]:
  "ext_of (l\<lparr>blob_version := c\<rparr>) = ext_of l"
  "fs_ext_normal (l\<lparr>blob_version := c\<rparr>) = fs_ext_normal l"
  by (simp_all add: ext_of_def fs_ext_normal_def)

lemma apply_op_ext:
  "ext_next_version (ext_of l) \<le> ext_next_version (ext_of (apply_op op l))"
  "ext_map_epoch (ext_of l) \<le> ext_map_epoch (ext_of (apply_op op l))"
  "fs_ext_normal l \<Longrightarrow> fs_ext_normal (apply_op op l)"
  "state (apply_op op l) = state l"
  by (cases op; simp add: layout_setters)+

lemma apply_ops_ext:
  "ext_next_version (ext_of l) \<le> ext_next_version (ext_of (fold apply_op ops l)) \<and>
   ext_map_epoch (ext_of l) \<le> ext_map_epoch (ext_of (fold apply_op ops l)) \<and>
   (fs_ext_normal l \<longrightarrow> fs_ext_normal (fold apply_op ops l)) \<and>
   state (fold apply_op ops l) = state l"
proof (induction ops arbitrary: l)
  case (Cons op ops)
  show ?case
    using Cons.IH [of "apply_op op l"] apply_op_ext [where op = op and l = l] by auto
qed simp

text \<open>
  C31. A burned version is never handed out again. Once a prepare has burned
  \<open>next_burn_version\<close> by storing its successor in the allocator, every later layout, after any
  sequence of attribute, allocator, append-record, epoch and ceiling updates, allocates a
  strictly larger version, and keeps its map epoch at least as large. The layout stays in
  the normal form that byte-wise comparison relies on, and until a commit moves the ceiling
  it is reported as possibly having overwrite records. The one exclusion is the version that
  has no 64-bit successor.
\<close>

theorem burned_version_never_reallocated:
  assumes "next_burn_version l \<noteq> - 1"
  defines "p \<equiv> set_next_version l (next_burn_version l + 1)"
  shows "next_burn_version l < next_burn_version (fold apply_op ops p) \<and>
    map_epoch l \<le> map_epoch (fold apply_op ops p) \<and>
    fs_ext_normal (fold apply_op ops p) \<and> state (fold apply_op ops p) = state l \<and>
    (blob_version l = - 1 \<or> may_have_ovr_records p)"
proof -
  let ?v = "next_burn_version l"
  have v: "?v < ?v + 1"
    using assms(1) by (rule less_succ)
  have p: "ext_next_version (ext_of p) = max (ext_next_version (ext_of l)) (?v + 1)"
    "ext_map_epoch (ext_of p) = ext_map_epoch (ext_of l)" "fs_ext_normal p" "state p = state l"
    "blob_version p = blob_version l"
    by (simp_all add: p_def set_next_version_def)
  have "may_have_ovr_records p" if "blob_version l \<noteq> - 1"
  proof -
    have "saturating_add (blob_version p) 1 = blob_version l + 1"
      using that p by (simp add: saturating_add_succ)
    also have "\<dots> \<le> ?v"
      by (simp add: ext_accessors)
    also note v
    finally have "saturating_add (blob_version p) 1 < ext_next_version (ext_of p)"
      by (simp add: p less_max_iff_disj)
    then show ?thesis
      by (cases "fs_ext p") (auto simp: may_have_ovr_records_def ext_of_def fs_ext_default_def)
  qed
  then show ?thesis
    using v p apply_ops_ext [of p ops] by (auto simp: ext_accessors less_max_iff_disj)
qed

theorem burned_version_never_reallocated_witness:
  "let l = \<lparr>timestamp = 7, version_id = 1, block_size = 131072, blob_version = 4, fs_ext = None,
         state = Mpu Uploading\<rparr>;
       p = set_next_version l (next_burn_version l + 1);
       l' = fold apply_op [SetPosix (Some posix_default), SetCeiling 5, SetNext 3] p
   in next_burn_version l = 5 \<and> 5 < next_burn_version l' \<and> map_epoch l \<le> map_epoch l' \<and>
      fs_ext_normal l' \<and> state l' = state l \<and> (blob_version l = - 1 \<or> may_have_ovr_records p)"
proof -
  let ?l = "\<lparr>timestamp = 7, version_id = 1, block_size = 131072, blob_version = 4, fs_ext = None,
         state = Mpu Uploading\<rparr> :: ObjectLayout"
  have v: "next_burn_version ?l = 5"
    by (simp add: next_burn_version_def)
  then have "next_burn_version ?l \<noteq> - 1" by simp
  from burned_version_never_reallocated [OF this,
      of "[SetPosix (Some posix_default), SetCeiling 5, SetNext 3]"]
  show ?thesis
    by (simp only: Let_def v simp_thms)
qed

section \<open>The rebase rule\<close>

text \<open>A layout with its POSIX attributes blanked out, wherever its shape keeps them.\<close>

definition clear_posix :: "ObjectLayout \<Rightarrow> ObjectLayout" where
  "clear_posix l =
     (case state l of
        Directory data \<Rightarrow> l\<lparr>state := Directory (data\<lparr>dir_posix := posix_default\<rparr>)\<rparr>
      | _ \<Rightarrow> set_fs_posix l None)"

definition carries_posix :: "ObjectLayout \<Rightarrow> bool" where
  "carries_posix l =
     (case state l of Mpu Uploading \<Rightarrow> False | Indirect _ \<Rightarrow> False | _ \<Rightarrow> True)"

lemma set_fs_posix_twice [simp]: "set_fs_posix (set_fs_posix l p) q = set_fs_posix l q"
  by (rule normal_layout_eqI) (simp_all add: set_fs_posix_def)

lemma set_fs_posix_own: "fs_ext_normal l \<Longrightarrow> set_fs_posix l (fs_posix l) = l"
  by (rule normal_layout_eqI) (simp_all add: set_fs_posix_def ext_accessors)

lemma set_fs_posix_state [simp]: "state (set_fs_posix l p) = state l"
  by (simp add: set_fs_posix_def)

lemma fs_posix_set [simp]: "fs_posix (set_fs_posix l p) = p"
  by (simp add: set_fs_posix_def ext_accessors)

lemma set_fs_posix_eq_iff:
  "fs_ext_normal e \<Longrightarrow> e = set_fs_posix c (fs_posix e) \<longleftrightarrow> set_fs_posix e None = set_fs_posix c None"
  by (metis set_fs_posix_own set_fs_posix_twice)

lemma directory_clear_iff:
  assumes "state e = Directory d" "state c = Directory d'"
  shows "e = c\<lparr>state := Directory (d'\<lparr>dir_posix := dir_posix d\<rparr>)\<rparr> \<longleftrightarrow>
    e\<lparr>state := Directory (d\<lparr>dir_posix := posix_default\<rparr>)\<rparr> =
    c\<lparr>state := Directory (d'\<lparr>dir_posix := posix_default\<rparr>)\<rparr>"
  using assms by (cases e; cases c; cases d; cases d') auto

lemma posix_only_moved_eq:
  assumes "layout_bytes e \<noteq> None" "\<And>l. layout_bytes l = layout_bytes e \<Longrightarrow> l = e"
    and "fs_ext_normal e"
  shows "posix_only_moved layout_bytes e c \<longleftrightarrow>
    is_directory e = is_directory c \<and> clear_posix e = clear_posix c"
proof -
  have cmp: "(case (layout_bytes e, layout_bytes n) of
      (Some a, Some b) \<Rightarrow> a = b | _ \<Rightarrow> False) \<longleftrightarrow> e = n" for n
    using assms(1) assms(2) [of n] by (cases "layout_bytes e"; cases "layout_bytes n") auto
  show ?thesis
    unfolding posix_only_moved_def Let_def cmp is_directory_def clear_posix_def
    by (cases "state e"; cases "state c")
      (simp_all add: set_fs_posix_eq_iff [OF assms(3)] directory_clear_iff)
qed

lemma clear_layout_with_posix:
  "clear_posix (layout_with_posix l p) = clear_posix l"
  by (cases "state l")
    (auto simp: clear_posix_def layout_with_posix_def split: MpuState.split)

lemma is_directory_with_posix: "is_directory (layout_with_posix l p) = is_directory l"
  by (cases "state l") (auto simp: is_directory_def layout_with_posix_def split: MpuState.split)

lemma layout_posix_with_posix:
  "layout_posix (layout_with_posix l p) = (if carries_posix l then p else posix_default)"
  by (cases "state l")
    (auto simp: layout_posix_def layout_with_posix_def carries_posix_def Let_def
      split: MpuState.split)

text \<open>
  The rebase rule is exact. For an expected layout in normal form whose encoding is not
  shared by another layout (the determinism the code relies on of \<open>rkyv\<close>),
  \<open>posix_only_moved\<close> accepts a current layout exactly if both are directories or neither is
  and they agree once their POSIX attributes are blanked: nothing of the data binding may
  differ. Replacing the attributes of a layout is always accepted, and is read back by
  \<open>layout_posix\<close> on every shape that stores attributes.
\<close>

theorem posix_only_moved_exact:
  assumes "layout_bytes expected \<noteq> None"
    and "\<And>l. layout_bytes l = layout_bytes expected \<Longrightarrow> l = expected"
    and "fs_ext_normal expected"
  shows "(posix_only_moved layout_bytes expected current \<longleftrightarrow>
      is_directory expected = is_directory current \<and> clear_posix expected = clear_posix current) \<and>
    posix_only_moved layout_bytes expected (layout_with_posix expected p) \<and>
    layout_posix (layout_with_posix expected p) =
      (if carries_posix expected then p else posix_default)"
  using posix_only_moved_eq [of layout_bytes, OF assms, of current]
    posix_only_moved_eq [of layout_bytes, OF assms, of "layout_with_posix expected p"]
  by (simp add: clear_layout_with_posix is_directory_with_posix layout_posix_with_posix)

definition sample_layout :: ObjectLayout where
  "sample_layout = \<lparr>timestamp = 7, version_id = 1, block_size = 131072, blob_version = 4,
     fs_ext = None,
     state = Normal \<lparr>meta_blob_guid = \<lparr>blob_id = 9, volume_id = 1\<rparr>,
       meta_core = \<lparr>core_size = 200000, core_etag = ''e'', core_headers = [], core_checksum = None\<rparr>\<rparr>\<rparr>"

theorem posix_only_moved_exact_witness:
  "let enc = (\<lambda>l. Some (if l = sample_layout then [1] else [0 :: u8]));
       moved = layout_with_posix sample_layout \<lparr>mode = 420, uid = 0, gid = 0, mtime_ns = 1, ctime_ns = 1\<rparr>
   in posix_only_moved enc sample_layout moved \<and> mode (layout_posix moved) = 420 \<and>
      \<not> posix_only_moved enc sample_layout (sample_layout\<lparr>blob_version := 5\<rparr>)"
proof -
  let ?p = "\<lparr>mode = 420, uid = 0, gid = 0, mtime_ns = 1, ctime_ns = 1\<rparr> :: PosixAttrs"
  let ?enc = "\<lambda>l. Some (if l = sample_layout then [1] else [0 :: u8])"
  have hyps: "?enc sample_layout \<noteq> None"
    "\<And>l. ?enc l = ?enc sample_layout \<Longrightarrow> l = sample_layout"
    "fs_ext_normal sample_layout"
    by (auto simp: fs_ext_normal_def sample_layout_def split: if_splits)
  have "clear_posix sample_layout \<noteq> clear_posix (sample_layout\<lparr>blob_version := 5\<rparr>)"
    by (simp add: clear_posix_def sample_layout_def set_fs_posix_def update_fs_ext_def
        fs_ext_default_def Let_def)
  moreover have "carries_posix sample_layout"
    by (simp add: carries_posix_def sample_layout_def)
  ultimately show ?thesis
    using posix_only_moved_exact [of ?enc, OF hyps, of "sample_layout\<lparr>blob_version := 5\<rparr>" ?p]
    by (simp add: Let_def)
qed

section \<open>Committed data\<close>

definition prepare_op :: "layout_op \<Rightarrow> bool" where
  "prepare_op op = (case op of SetEpoch _ \<Rightarrow> False | SetCeiling _ \<Rightarrow> False | _ \<Rightarrow> True)"

lemma same_committed_data_normal:
  "state l = Normal d \<Longrightarrow> state l' = Normal d' \<Longrightarrow>
    same_committed_data l l' \<longleftrightarrow>
      meta_blob_guid d = meta_blob_guid d' \<and> core_size (meta_core d) = core_size (meta_core d') \<and>
      blob_version l = blob_version l' \<and> block_size l = block_size l' \<and> map_epoch l = map_epoch l'"
  by (simp add: same_committed_data_def)

lemma prepare_ops_keep:
  "\<forall>op \<in> set ops. prepare_op op \<Longrightarrow>
    state (fold apply_op ops l) = state l \<and> blob_version (fold apply_op ops l) = blob_version l \<and>
    block_size (fold apply_op ops l) = block_size l \<and> map_epoch (fold apply_op ops l) = map_epoch l"
proof (induction ops arbitrary: l)
  case (Cons op ops)
  have "state (apply_op op l) = state l \<and> blob_version (apply_op op l) = blob_version l \<and>
      block_size (apply_op op l) = block_size l \<and> map_epoch (apply_op op l) = map_epoch l"
    using Cons.prems by (cases op) (simp_all add: prepare_op_def layout_setters ext_accessors)
  then show ?case
    using Cons.IH [of "apply_op op l"] Cons.prems by simp
qed simp



section \<open>Blocks of an object\<close>

lemma div_ceil_bounds:
  "div_ceil a b = Some n \<Longrightarrow> a \<le> n * b \<and> n * b < a + b"
proof -
  assume "div_ceil a b = Some n"
  then have b: "0 < b" and n: "n = a div b + (if a mod b = 0 then 0 else 1)"
    by (auto simp: div_ceil_def split: if_splits)
  have "a = a div b * b + a mod b" "a mod b < b" using b by simp_all
  moreover have "a mod b = 0 \<and> n * b = a div b * b \<or> 0 < a mod b \<and> n * b = a div b * b + b"
    by (auto simp: n)
  ultimately show ?thesis
    by linarith
qed

text \<open>
  The block count of an object covers its size with no block to spare: the count times
  the block size is at least the size and below the size plus one block. The accessor
  panics only for a zero block size.
\<close>

theorem num_blocks_cover:
  "(num_blocks l = None \<longrightarrow> block_size l = 0) \<and>
   (num_blocks l = Some (Inr n) \<and> layout_size l = Inr sz \<and> \<not> is_symlink l \<and> \<not> is_directory l \<longrightarrow>
      unat sz \<le> n * unat (block_size l) \<and> n * unat (block_size l) < unat sz + unat (block_size l))"
proof -
  have gen: "num_blocks l = (case layout_size l of Inl e \<Rightarrow> Some (Inl e)
      | Inr sz \<Rightarrow> map_option Inr (div_ceil (unat sz) (unat (block_size l))))"
    if "\<not> is_symlink l" "\<not> is_directory l"
    using that by (cases "state l") (auto simp: num_blocks_def is_symlink_def is_directory_def)
  have "block_size l = 0" if n: "num_blocks l = None"
  proof -
    from n have "\<not> is_symlink l" "\<not> is_directory l"
      by (auto simp: num_blocks_def is_symlink_def is_directory_def split: ObjectState.splits)
    from n gen [OF this] show ?thesis
      by (auto simp: div_ceil_def unsigned_eq_0_iff split: sum.splits if_splits)
  qed
  moreover have "unat sz \<le> n * unat (block_size l) \<and>
      n * unat (block_size l) < unat sz + unat (block_size l)"
    if "num_blocks l = Some (Inr n)" "layout_size l = Inr sz" "\<not> is_symlink l" "\<not> is_directory l"
    using that gen div_ceil_bounds [of "unat sz" "unat (block_size l)" n] by auto
  ultimately show ?thesis by blast
qed

theorem num_blocks_cover_witness:
  "num_blocks sample_layout = Some (Inr 2) \<and> (200000::nat) \<le> 2 * 131072 \<and> 2 * 131072 < (200000 + 131072 :: nat)"
proof -
  have "num_blocks sample_layout = Some (Inr 2)" "layout_size sample_layout = Inr 200000"
    "block_size sample_layout = 131072"
    "\<not> is_symlink sample_layout" "\<not> is_directory sample_layout"
    by (simp_all add: sample_layout_def num_blocks_def layout_size_def div_ceil_def is_symlink_def
        is_directory_def)
  then show ?thesis
    using num_blocks_cover [of sample_layout 2 200000] by simp
qed

end
