(* ===== verification/Rpc_Retry.thy ===== *)
theory Rpc_Retry
  imports FB_Prelude
begin

text \<open>
  The RPC error type, the retry loops and the connection guard of
  \<open>crates/common/rpc_clients/client_common/src/lib.rs\<close>.

  One call of a client method is what the other side and the network answer: an attempt
  function from the \<open>retry_count\<close> the code passes to the result it gets. Random draws, the
  elapsed time and the outcomes of an address refresh are inputs. The loops return, with
  their result, the sleeps they asked for.
\<close>

section \<open>Errors\<close>

datatype IoErrorKind = TimedOut | UnexpectedEof | WriteZero | OtherIo nat

datatype RpcError =
    IoError IoErrorKind
  | OneshotRecvError
  | InternalRequestError string
  | InternalResponseError string
  | NotFound
  | AlreadyExists
  | NoSuchRootBlob
  | BucketAlreadyOwnedByYou
  | IncarnationMismatch
  | SendError string
  | EncodeError string
  | DecodeError string
  | Retry
  | ConnectionClosed
  | ChecksumMismatch
  | VersionSkipped
  | NoSpace
  | Mismatch

fun retryable :: "RpcError \<Rightarrow> bool" where
  "retryable OneshotRecvError = True"
| "retryable (InternalRequestError _) = True"
| "retryable (InternalResponseError _) = True"
| "retryable ConnectionClosed = True"
| "retryable _ = False"

text \<open>\<open>rpc_timeout\<close>: \<open>None\<close> is a future that did not finish in time.\<close>

definition rpc_timeout :: "'a option \<Rightarrow> IoErrorKind + 'a" where
  "rpc_timeout fut = (case fut of Some x \<Rightarrow> Inr x | None \<Rightarrow> Inl TimedOut)"

section \<open>Backoff\<close>

definition saturating_mul :: "'a::len word \<Rightarrow> 'a word \<Rightarrow> 'a word" where
  "saturating_mul a b =
     (if unat a * unat b < 2 ^ LENGTH('a) then a * b else - 1)"

text \<open>The half jitter. The draw is uniform over \<open>0..jitter_range\<close>.\<close>

definition jitter_range :: "u64 \<Rightarrow> u64" where
  "jitter_range base_ms = max (saturating_sub base_ms (base_ms div 2)) 1"

definition jitter_backoff :: "u64 \<Rightarrow> u64 \<Rightarrow> u64" where
  "jitter_backoff draw base_ms = max (base_ms div 2 + draw) 1"

text \<open>A \<open>Duration\<close> is kept in nanoseconds; its largest value is \<open>u64::MAX\<close> seconds and
  999,999,999 nanoseconds.\<close>

definition duration_max :: nat where
  "duration_max = (2 ^ 64 - 1) * 1000000000 + 999999999"

definition reclamation_grace :: "nat \<Rightarrow> nat" where
  "reclamation_grace rpc_timeout_ns = min (rpc_timeout_ns + 10 * 1000000000) duration_max"

section \<open>The bounded retry loop\<close>

text \<open>
  The loop of \<open>rpc_retry!\<close>, also written out in \<open>DataVgProxy\<close>: try, and on a retryable
  error, while retries are left, sleep and try again with a larger \<open>retry_count\<close>. \<open>dbl\<close> is
  the doubling of the backoff at its type.
\<close>

fun retry_loop ::
    "('b \<Rightarrow> 'b) \<Rightarrow> nat \<Rightarrow> u32 \<Rightarrow> 'b \<Rightarrow> (u32 \<Rightarrow> RpcError + 'a) \<Rightarrow> (RpcError + 'a) \<times> 'b list" where
  "retry_loop dbl retries retry_count backoff attempt =
     (case attempt retry_count of
        Inr val \<Rightarrow> (Inr val, [])
      | Inl e \<Rightarrow>
          (if retryable e
           then (case retries of
                   0 \<Rightarrow> (Inl e, [])
                 | Suc r \<Rightarrow>
                     (let (res, sleeps) =
                        retry_loop dbl r (retry_count + 1) (dbl backoff) attempt
                      in (res, backoff # sleeps)))
           else (Inl e, [])))"

declare retry_loop.simps [simp del]

definition rpc_retry :: "(u32 \<Rightarrow> RpcError + 'a) \<Rightarrow> (RpcError + 'a) \<times> u64 list" where
  "rpc_retry attempt = retry_loop (\<lambda>b. saturating_mul b 2) 3 0 2 attempt"

section \<open>NSS failover\<close>

text \<open>
  One round of the failover loop: the time elapsed since the first failure (milliseconds),
  whether the address refresh found a new address, the new client if one could be built, and
  the client at the same address.
\<close>

record 'a failover_round =
  elapsed_ms :: nat
  refreshed :: bool
  new_client :: "(u32 \<Rightarrow> RpcError + 'a) option"
  same_client :: "u32 \<Rightarrow> RpcError + 'a"

definition settled :: "RpcError + 'a \<Rightarrow> bool" where
  "settled res = (case res of Inr _ \<Rightarrow> True | Inl e \<Rightarrow> \<not> retryable e)"

definition failover_timeout_ms :: nat where "failover_timeout_ms = 30000"

definition failover_base_ms :: "u32 \<Rightarrow> u64" where
  "failover_base_ms refresh_attempt =
     min (200 * push_bit (unat (min refresh_attempt 3)) 1) 1000"

text \<open>The retry at a refreshed address: its result, if that settles the call.\<close>

definition refreshed_result :: "'a failover_round \<Rightarrow> (RpcError + 'a) option" where
  "refreshed_result t =
     (if refreshed t
      then (case new_client t of
              Some c \<Rightarrow> (let r = fst (rpc_retry c) in if settled r then Some r else None)
            | None \<Rightarrow> None)
      else None)"

text \<open>
  The rounds that follow a failed first attempt. An empty list of rounds is a loop still
  running. The recorded sleeps are the bases handed to the jitter.
\<close>

fun failover_loop ::
    "u32 \<Rightarrow> 'a failover_round list \<Rightarrow> ((RpcError + 'a) \<times> u64 list) option" where
  "failover_loop refresh_attempt [] = None"
| "failover_loop refresh_attempt (t # ts) =
     (if elapsed_ms t > failover_timeout_ms then Some (fst (rpc_retry (same_client t)), [])
      else case refreshed_result t of
          Some r \<Rightarrow> Some (r, [])
        | None \<Rightarrow>
            (let attempt = (if refreshed t then 0 else refresh_attempt);
                 base = failover_base_ms attempt;
                 same = fst (rpc_retry (same_client t))
             in if settled same then Some (same, [base])
                else map_option (\<lambda>(r, sleeps). (r, base # sleeps))
                       (failover_loop (saturating_add attempt 1) ts)))"

definition nss_rpc_retry ::
    "(u32 \<Rightarrow> RpcError + 'a) \<Rightarrow> 'a failover_round list \<Rightarrow> ((RpcError + 'a) \<times> u64 list) option" where
  "nss_rpc_retry client rounds =
     (let initial_result = fst (rpc_retry client)
      in if settled initial_result then Some (initial_result, [])
         else failover_loop 0 rounds)"

section \<open>Connections\<close>

text \<open>
  \<open>ensure_connected\<close> looks at the client under the read lock and again under the write lock,
  where another task may have replaced it: the two views are separate arguments. A client is
  modelled by its closed flag and an identity. The result is the client left in place.
\<close>

record 'c rpc_client =
  client_conn :: 'c
  client_closed :: bool

definition usable :: "'c rpc_client option \<Rightarrow> bool" where
  "usable c = (case c of Some client \<Rightarrow> \<not> client_closed client | None \<Rightarrow> False)"

fun connect_first :: "(string \<Rightarrow> RpcError + 'c) \<Rightarrow> string list \<Rightarrow> 'c option" where
  "connect_first establish [] = None"
| "connect_first establish (address # rest) =
     (case establish address of Inr conn \<Rightarrow> Some conn | Inl _ \<Rightarrow> connect_first establish rest)"

definition ensure_connected ::
    "(string \<Rightarrow> RpcError + 'c) \<Rightarrow> string list \<Rightarrow> 'c rpc_client option \<Rightarrow> 'c rpc_client option
      \<Rightarrow> (RpcError + unit) \<times> 'c rpc_client option" where
  "ensure_connected establish addresses seen inner =
     (if usable seen then (Inr (), seen)
      else if usable inner then (Inr (), inner)
      else case connect_first establish addresses of
          Some conn \<Rightarrow> (Inr (), Some \<lparr>client_conn = conn, client_closed = False\<rparr>)
        | None \<Rightarrow> (Inl ConnectionClosed, inner))"

text \<open>\<open>gen_request_id\<close>: an atomic counter that wraps at 32 bits and starts at 1.\<close>

definition gen_request_id :: "u32 \<Rightarrow> u32 \<times> u32" where
  "gen_request_id next_id = (next_id, next_id + 1)"

section \<open>Correctness of the retry loops\<close>

definition transient :: "RpcError + 'a \<Rightarrow> bool" where
  "transient res = (case res of Inl e \<Rightarrow> retryable e | Inr _ \<Rightarrow> False)"

lemma settled_iff: "settled res \<longleftrightarrow> \<not> transient res"
  by (simp add: settled_def transient_def split: sum.split)

lemma retry_loop_step:
  "retry_loop dbl retries c b attempt =
    (if transient (attempt c) \<and> retries \<noteq> 0
     then (let (res, sleeps) = retry_loop dbl (retries - 1) (c + 1) (dbl b) attempt
           in (res, b # sleeps))
     else (attempt c, []))"
  by (subst retry_loop.simps) (auto simp: transient_def split: sum.split nat.split)

lemma retry_loop_spec:
  "\<exists>n \<le> retries. fst (retry_loop dbl retries c b attempt) = attempt (c + of_nat n) \<and>
     snd (retry_loop dbl retries c b attempt) = map (\<lambda>i. (dbl ^^ i) b) [0..<n] \<and>
     (\<forall>i < n. transient (attempt (c + of_nat i))) \<and>
     (n = retries \<or> settled (attempt (c + of_nat n)))"
proof (induction retries arbitrary: c b)
  case 0
  show ?case by (simp add: retry_loop_step [of dbl 0])
next
  case (Suc r)
  show ?case
  proof (cases "transient (attempt c)")
    case False
    then show ?thesis
      by (intro exI [of _ 0]) (simp add: retry_loop_step [of dbl "Suc r"] settled_iff)
  next
    case True
    obtain n where n: "n \<le> r"
      "fst (retry_loop dbl r (c + 1) (dbl b) attempt) = attempt (c + 1 + of_nat n)"
      "snd (retry_loop dbl r (c + 1) (dbl b) attempt) = map (\<lambda>i. (dbl ^^ i) (dbl b)) [0..<n]"
      "\<forall>i < n. transient (attempt (c + 1 + of_nat i))"
      "n = r \<or> settled (attempt (c + 1 + of_nat n))"
      using Suc.IH [of "c + 1" "dbl b"] by blast
    have "map (\<lambda>i. (dbl ^^ i) b) [0..<Suc n] = b # map (\<lambda>i. (dbl ^^ i) (dbl b)) [0..<n]"
      by (simp add: map_upt_Suc funpow_swap1 del: upt_Suc)
    moreover have "transient (attempt (c + of_nat i))" if "i < Suc n" for i
      using that True n(4) by (cases i) (auto simp: ac_simps)
    ultimately show ?thesis
      using n True
      by (intro exI [of _ "Suc n"])
        (simp add: retry_loop_step [of dbl "Suc r"] case_prod_unfold ac_simps)
  qed
qed

lemma three_backoffs:
  "n \<le> 3 \<Longrightarrow> map (\<lambda>i. (dbl ^^ i) b) [0..<n] = take n [b, dbl b, dbl (dbl b)]"
proof -
  assume "n \<le> 3"
  then have "[0..<n] = take n [0..<3]" by simp
  moreover have "map (\<lambda>i. (dbl ^^ i) b) [0..<3] = [b, dbl b, dbl (dbl b)]"
    by (simp add: upt_rec)
  ultimately show ?thesis
    by (metis take_map)
qed

text \<open>
  \<open>rpc_retry\<close> makes at most four attempts. Its result is that of the first attempt that
  does not fail transiently, or of the fourth; every earlier attempt failed with a retryable
  error, and the sleeps in between have the bases 2, 4 and 8 milliseconds.
\<close>

theorem rpc_retry_spec:
  "\<exists>n \<le> 3. fst (rpc_retry attempt) = attempt (of_nat n) \<and>
     snd (rpc_retry attempt) = take n [2, 4, 8] \<and>
     (\<forall>i < n. transient (attempt (of_nat i))) \<and> (n = 3 \<or> settled (attempt (of_nat n)))"
proof -
  obtain n where n: "n \<le> 3" "fst (rpc_retry attempt) = attempt (of_nat n)"
    "snd (rpc_retry attempt) = map (\<lambda>i. ((\<lambda>b. saturating_mul b 2) ^^ i) 2) [0..<n]"
    "\<forall>i < n. transient (attempt (of_nat i))" "n = 3 \<or> settled (attempt (of_nat n))"
    using retry_loop_spec [of 3 "\<lambda>b :: u64. saturating_mul b 2" 0 2 attempt]
    by (auto simp: rpc_retry_def)
  have "snd (rpc_retry attempt) = take n [2, 4, 8]"
    using n(1,3) by (simp add: three_backoffs saturating_mul_def)
  with n show ?thesis by blast
qed

theorem rpc_retry_spec_witness:
  "let attempt = (\<lambda>c. if c < 2 then Inl ConnectionClosed else Inr True)
   in rpc_retry attempt = (Inr True, [2, 4]) \<and>
     (\<exists>n \<le> 3. fst (rpc_retry attempt) = attempt (of_nat n) \<and>
       snd (rpc_retry attempt) = take n [2, 4, 8] \<and>
       (\<forall>i < n. transient (attempt (of_nat i))) \<and> (n = 3 \<or> settled (attempt (of_nat n))))"
proof -
  have "rpc_retry (\<lambda>c. if c < 2 then Inl ConnectionClosed else Inr True) = (Inr True, [2, 4])"
    by (simp add: rpc_retry_def retry_loop_step [of _ 3] retry_loop_step [of _ 2]
        retry_loop_step [of _ "Suc 0"] transient_def saturating_mul_def)
  then show ?thesis
    using rpc_retry_spec [of "\<lambda>c. if c < 2 then Inl ConnectionClosed else Inr True"]
    unfolding Let_def by blast
qed

lemma failover_base_values: "failover_base_ms k \<in> {200, 400, 800, 1000}"
proof -
  have "unat (min k 3) \<le> 3"
    by (simp add: min_def word_le_nat_alt)
  moreover have "min (200 * push_bit j 1) (1000 :: u64) \<in> {200, 400, 800, 1000}" if "j \<le> 3" for j
  proof -
    from that have "j = 0 \<or> j = 1 \<or> j = 2 \<or> j = 3" by linarith
    then show ?thesis by (auto simp: push_bit_eq_mult)
  qed
  ultimately show ?thesis
    unfolding failover_base_ms_def by blast
qed

lemma refreshed_result_settled: "refreshed_result t = Some r \<Longrightarrow> settled r"
  by (auto simp: refreshed_result_def Let_def split: if_splits option.splits)

lemma failover_loop_result:
  "failover_loop k rounds = Some (r, sleeps) \<Longrightarrow>
    set sleeps \<subseteq> {200, 400, 800, 1000} \<and>
    (settled r \<or> (\<exists>t \<in> set rounds. failover_timeout_ms < elapsed_ms t))"
proof (induction rounds arbitrary: k r sleeps)
  case (Cons t ts)
  let ?a = "if refreshed t then 0 else k"
  let ?same = "fst (rpc_retry (same_client t))"
  consider "failover_timeout_ms < elapsed_ms t"
    | x where "elapsed_ms t \<le> failover_timeout_ms" "refreshed_result t = Some x"
    | "elapsed_ms t \<le> failover_timeout_ms" "refreshed_result t = None" "settled ?same"
    | "elapsed_ms t \<le> failover_timeout_ms" "refreshed_result t = None" "\<not> settled ?same"
    by (metis linorder_not_less option.exhaust)
  then show ?case
  proof cases
    case 1
    then show ?thesis using Cons.prems by auto
  next
    case (2 x)
    then show ?thesis using Cons.prems refreshed_result_settled [of t x] by simp
  next
    case 3
    then show ?thesis
      using Cons.prems failover_base_values [of ?a] by (auto simp: Let_def)
  next
    case 4
    then obtain sl where "failover_loop (saturating_add ?a 1) ts = Some (r, sl)"
      "sleeps = failover_base_ms ?a # sl"
      using Cons.prems by (auto simp: Let_def)
    then show ?thesis
      using Cons.IH failover_base_values [of ?a] by fastforce
  qed
qed simp

lemma failover_loop_returns:
  "\<exists>t \<in> set rounds. failover_timeout_ms < elapsed_ms t \<Longrightarrow> failover_loop k rounds \<noteq> None"
proof (induction rounds arbitrary: k)
  case (Cons t ts)
  show ?case
  proof (cases "failover_timeout_ms < elapsed_ms t")
    case False
    then have "failover_loop j ts \<noteq> None" for j
      using Cons by auto
    then show ?thesis
      using False by (auto simp: Let_def split: option.split)
  qed simp
qed simp

text \<open>
  C37. The failover loop ends. As soon as one round starts more than thirty seconds after the
  first failure the call returns, whatever the address refresh and the servers do before. A
  result that is still a transient error is only returned after that timeout, and every
  sleep has one of the bases 200, 400, 800 and 1000 milliseconds.
\<close>

theorem nss_rpc_retry_ends:
  "((\<exists>t \<in> set rounds. failover_timeout_ms < elapsed_ms t) \<longrightarrow>
      nss_rpc_retry client rounds \<noteq> None) \<and>
   (nss_rpc_retry client rounds = Some (r, sleeps) \<longrightarrow>
      set sleeps \<subseteq> {200, 400, 800, 1000} \<and>
      (settled r \<or> (\<exists>t \<in> set rounds. failover_timeout_ms < elapsed_ms t)))"
  using failover_loop_returns [of rounds 0] failover_loop_result [of 0 rounds r sleeps]
  by (auto simp: nss_rpc_retry_def Let_def split: if_splits)

theorem nss_rpc_retry_ends_witness:
  "let down = (\<lambda>_. Inl ConnectionClosed) :: u32 \<Rightarrow> RpcError + nat;
       rounds = [\<lparr>elapsed_ms = 10, refreshed = False, new_client = None, same_client = down\<rparr>,
                 \<lparr>elapsed_ms = 30001, refreshed = True, new_client = None, same_client = down\<rparr>]
   in nss_rpc_retry down rounds = Some (Inl ConnectionClosed, [200]) \<and>
      set [200] \<subseteq> {200, 400, 800, 1000 :: u64} \<and> nss_rpc_retry down rounds \<noteq> None"
proof -
  let ?down = "(\<lambda>_. Inl ConnectionClosed) :: u32 \<Rightarrow> RpcError + nat"
  let ?rounds = "[\<lparr>elapsed_ms = 10, refreshed = False, new_client = None, same_client = ?down\<rparr>,
    \<lparr>elapsed_ms = 30001, refreshed = True, new_client = None, same_client = ?down\<rparr>]"
  have down: "fst (rpc_retry ?down) = Inl ConnectionClosed"
    using retry_loop_spec [of 3 "\<lambda>b :: u64. saturating_mul b 2" 0 2 ?down]
    by (auto simp: rpc_retry_def)
  have run: "nss_rpc_retry ?down ?rounds = Some (Inl ConnectionClosed, [200])"
    by (simp add: nss_rpc_retry_def down settled_def refreshed_result_def Let_def
        failover_timeout_ms_def failover_base_ms_def)
  have "\<exists>t \<in> set ?rounds. failover_timeout_ms < elapsed_ms t"
    by (simp add: failover_timeout_ms_def)
  then show ?thesis
    using nss_rpc_retry_ends [of ?rounds ?down "Inl ConnectionClosed" "[200]"] run
    by (simp only: Let_def) blast
qed

section \<open>Jitter and connections\<close>

lemma unat_div_two: "unat (b div 2 :: u64) = unat b div 2"
  by (simp add: unat_div)

lemma jitter_range_unat: "unat (jitter_range b) = max (unat b - unat b div 2) 1"
  by (simp add: jitter_range_def word_nat unat_div_two)

text \<open>
  The half jitter stays in its window: for every draw the generator may return, the sleep
  is one millisecond when the base is at most one, and otherwise at least half the base and
  below the base. The addition never wraps.
\<close>

theorem jitter_backoff_bounds:
  assumes "draw < jitter_range base_ms"
  shows "if base_ms \<le> 1 then jitter_backoff draw base_ms = 1
         else base_ms div 2 \<le> jitter_backoff draw base_ms \<and> jitter_backoff draw base_ms < base_ms"
proof -
  have d: "unat draw < max (unat base_ms - unat base_ms div 2) 1"
    using assms by (simp add: word_less_nat_alt jitter_range_unat)
  have "unat base_ms div 2 + unat draw < 2 ^ 64"
    using d unat_less_pow [of base_ms] by (simp add: max_def split: if_splits)
  then have sum: "unat (base_ms div 2 + draw) = unat base_ms div 2 + unat draw"
    by (simp add: unat_word_ariths unat_div_two)
  then have ms: "unat (jitter_backoff draw base_ms) = max (unat base_ms div 2 + unat draw) 1"
    by (simp add: jitter_backoff_def word_nat)
  show ?thesis
  proof (cases "unat base_ms \<le> 1")
    case True
    then have "unat base_ms div 2 = 0" "unat draw = 0"
      using d by (auto simp: max_def split: if_splits)
    with ms have "unat (jitter_backoff draw base_ms) = 1"
      by simp
    then show ?thesis
      using True by (simp add: word_le_nat_alt word_unat_eq_iff)
  next
    case False
    then show ?thesis
      using d ms by (auto simp: word_le_nat_alt word_less_nat_alt unat_div_two max_def split: if_splits)
  qed
qed

theorem jitter_backoff_bounds_witness:
  "(3 :: u64) < jitter_range 8 \<and> jitter_backoff 3 8 = 7 \<and> jitter_backoff 3 8 < 8"
proof -
  have r: "(3 :: u64) < jitter_range 8"
    by (simp add: jitter_range_def saturating_sub_def)
  have "jitter_backoff 3 8 = 7"
    by (simp add: jitter_backoff_def)
  then show ?thesis
    using r jitter_backoff_bounds [OF r] by simp
qed

lemma connect_first_None:
  "connect_first establish addresses = None \<longleftrightarrow> (\<forall>a \<in> set addresses. \<exists>e. establish a = Inl e)"
  by (induction addresses) (auto split: sum.split)

text \<open>
  \<open>ensure_connected\<close> succeeds only with a live client in place, and fails only if neither
  lock saw a live client and every configured address refused the connection; a failure
  leaves the client slot as it was.
\<close>

theorem ensure_connected_live:
  "case ensure_connected establish addresses seen inner of
     (Inr _, client) \<Rightarrow> usable client
   | (Inl e, client) \<Rightarrow> e = ConnectionClosed \<and> client = inner \<and> \<not> usable seen \<and> \<not> usable inner \<and>
       (\<forall>a \<in> set addresses. \<exists>e. establish a = Inl e)"
  using connect_first_None [of establish addresses]
  by (auto simp: ensure_connected_def usable_def split: option.split)

theorem ensure_connected_live_witness:
  "let establish = (\<lambda>a. if a = ''b:1'' then Inr (7 :: nat) else Inl ConnectionClosed)
   in ensure_connected establish [''a:1'', ''b:1''] None None =
        (Inr (), Some \<lparr>client_conn = 7, client_closed = False\<rparr>) \<and>
      usable (Some \<lparr>client_conn = 7 :: nat, client_closed = False\<rparr>)"
proof -
  let ?establish = "\<lambda>a. if a = ''b:1'' then Inr (7 :: nat) else Inl ConnectionClosed"
  have run: "ensure_connected ?establish [''a:1'', ''b:1''] None None =
      (Inr (), Some \<lparr>client_conn = 7, client_closed = False\<rparr>)"
    by (simp add: ensure_connected_def usable_def)
  show ?thesis
    using ensure_connected_live [where establish = ?establish and addresses = "[''a:1'', ''b:1'']"
        and seen = None and inner = None] run by simp
qed

end
