(* ===== verification/Circuit_Breaker.thy ===== *)
theory Circuit_Breaker
  imports FB_Prelude
begin

text \<open>
  The per-node circuit breaker of
  \<open>crates/common/volume_group_proxy/src/data_vg_proxy.rs\<close> (\<open>CircuitState\<close>,
  \<open>CircuitBreaker\<close>). The breaker is three atomic cells and a constant configuration.

  Two views are given. The operations are functions on the breaker that run without
  interruption, as they do on a single-threaded runtime; the clock is an argument. Below
  them the same operations are programs of single atomic accesses, and any number of
  threads interleave those accesses arbitrarily.
\<close>

section \<open>State\<close>

record CircuitBreakerConfig =
  failure_threshold :: u32
  open_duration :: u64

definition default_config :: CircuitBreakerConfig where
  "default_config = \<lparr>failure_threshold = 3, open_duration = 30 * 1000000000\<rparr>"

datatype CircuitState = Closed | Open | HalfOpen

fun circuit_tag :: "CircuitState \<Rightarrow> u8" where
  "circuit_tag Closed = 0"
| "circuit_tag Open = 1"
| "circuit_tag HalfOpen = 2"

definition circuit_from :: "u8 \<Rightarrow> CircuitState" where
  "circuit_from val =
     (if val = 0 then Closed else if val = 1 then Open else if val = 2 then HalfOpen else Closed)"

record CircuitBreaker =
  cb_state :: u8
  failure_count :: u32
  opened_at :: u64
  config :: CircuitBreakerConfig

definition breaker_new :: "CircuitBreakerConfig \<Rightarrow> CircuitBreaker" where
  "breaker_new c =
     \<lparr>cb_state = circuit_tag Closed, failure_count = 0, opened_at = 0, config = c\<rparr>"

section \<open>Operations\<close>

text \<open>
  Run without interruption, the compare-and-swap of \<open>is_available\<close> meets the state that was
  just read, so it succeeds.
\<close>

definition is_available :: "u64 \<Rightarrow> CircuitBreaker \<Rightarrow> bool \<times> CircuitBreaker" where
  "is_available now b =
     (case circuit_from (cb_state b) of
        Closed \<Rightarrow> (True, b)
      | Open \<Rightarrow>
          (let elapsed_nanos = saturating_sub now (opened_at b)
           in if open_duration (config b) \<le> elapsed_nanos
              then (True, b\<lparr>cb_state := circuit_tag HalfOpen\<rparr>)
              else (False, b))
      | HalfOpen \<Rightarrow> (True, b))"

definition record_success :: "CircuitBreaker \<Rightarrow> CircuitBreaker" where
  "record_success b =
     (case circuit_from (cb_state b) of
        HalfOpen \<Rightarrow> b\<lparr>cb_state := circuit_tag Closed, failure_count := 0\<rparr>
      | Closed \<Rightarrow> b\<lparr>failure_count := 0\<rparr>
      | Open \<Rightarrow> b)"

text \<open>\<open>fetch_add\<close> wraps, and so does the addition of one to the value it returns.\<close>

definition record_failure :: "u64 \<Rightarrow> CircuitBreaker \<Rightarrow> CircuitBreaker" where
  "record_failure now b =
     (case circuit_from (cb_state b) of
        Closed \<Rightarrow>
          (let count = failure_count b + 1;
               b' = b\<lparr>failure_count := count\<rparr>
           in if failure_threshold (config b) \<le> count
              then b'\<lparr>cb_state := circuit_tag Open, opened_at := now\<rparr>
              else b')
      | HalfOpen \<Rightarrow> b\<lparr>cb_state := circuit_tag Open, opened_at := now\<rparr>
      | Open \<Rightarrow> b\<lparr>opened_at := now\<rparr>)"

lemma circuit_from_tag [simp]: "circuit_from (circuit_tag s) = s"
  by (cases s) (simp_all add: circuit_from_def)

section \<open>Histories\<close>

text \<open>A history of uninterrupted operations, each with the clock it saw.\<close>

datatype breaker_event = Checked u64 | Succeeded | Failed u64

fun breaker_step :: "breaker_event \<Rightarrow> CircuitBreaker \<Rightarrow> CircuitBreaker" where
  "breaker_step (Checked now) b = snd (is_available now b)"
| "breaker_step Succeeded b = record_success b"
| "breaker_step (Failed now) b = record_failure now b"

definition breaker_history :: "CircuitBreakerConfig \<Rightarrow> breaker_event list \<Rightarrow> CircuitBreaker" where
  "breaker_history c evs = fold breaker_step evs (breaker_new c)"

fun failures :: "breaker_event list \<Rightarrow> u64 list" where
  "failures [] = []"
| "failures (Failed t # evs) = t # failures evs"
| "failures (_ # evs) = failures evs"

lemma failures_append [simp]: "failures (xs @ ys) = failures xs @ failures ys"
  by (induction xs rule: failures.induct) simp_all

definition breaker_inv :: "CircuitBreakerConfig \<Rightarrow> breaker_event list \<Rightarrow> CircuitBreaker \<Rightarrow> bool" where
  "breaker_inv c evs b \<longleftrightarrow> config b = c \<and> cb_state b \<in> range circuit_tag \<and>
     unat (failure_count b) \<le> length (failures evs) \<and>
     (circuit_from (cb_state b) \<noteq> Closed \<longrightarrow>
        failures evs \<noteq> [] \<and> opened_at b = last (failures evs) \<and>
        unat (failure_threshold c) \<le> length (failures evs))"

lemma breaker_cases:
  assumes "cb_state b \<in> range circuit_tag"
  obtains s where "cb_state b = circuit_tag s"
  using assms by auto

lemma unat_succ_le: "unat ((w :: 'a::len word) + 1) \<le> unat w + 1"
  by (cases "w = - 1") (simp_all add: unat_succ)

lemma breaker_inv_step:
  assumes "breaker_inv c evs b"
  shows "breaker_inv c (evs @ [ev]) (breaker_step ev b)"
proof -
  obtain s where s: "cb_state b = circuit_tag s"
    using assms by (auto simp: breaker_inv_def)
  have r: "circuit_tag Open \<in> range circuit_tag" "circuit_tag HalfOpen \<in> range circuit_tag"
    "circuit_tag Closed \<in> range circuit_tag" "circuit_from 0 = Closed" "circuit_from 1 = Open"
    "circuit_from 2 = HalfOpen"
    by (simp_all add: circuit_from_def del: circuit_tag.simps)
  show ?thesis
  proof (cases ev)
    case (Checked now)
    then show ?thesis
      using assms s r by (cases s) (auto simp: breaker_inv_def is_available_def Let_def r)
  next
    case Succeeded
    then show ?thesis
      using assms s r by (cases s) (auto simp: breaker_inv_def record_success_def r)
  next
    case (Failed now)
    have "unat (failure_count b + 1) \<le> length (failures evs) + 1"
      using assms unat_succ_le [of "failure_count b"] by (auto simp: breaker_inv_def)
    then show ?thesis
      using assms s r Failed
      by (cases s) (auto simp: breaker_inv_def record_failure_def Let_def r word_le_nat_alt)
  qed
qed

lemma breaker_history_inv: "breaker_inv c evs (breaker_history c evs)"
proof (induction evs rule: rev_induct)
  case Nil
  show ?case
    using rangeI [of circuit_tag Closed]
    by (simp add: breaker_history_def breaker_inv_def breaker_new_def circuit_from_def)
next
  case (snoc ev evs)
  then show ?case
    using breaker_inv_step [OF snoc, of ev] by (simp add: breaker_history_def)
qed


lemma record_failures_closed:
  assumes "n < unat (failure_threshold (config b))"
    and "cb_state b = circuit_tag Closed" and "failure_count b = 0"
  shows "(record_failure now ^^ n) b = b\<lparr>failure_count := of_nat n\<rparr>"
  using assms(1)
proof (induction n)
  case 0
  show ?case using assms(3) by simp
next
  case (Suc n)
  have "Suc n < 2 ^ 32"
    using Suc.prems unat_less_pow [of "failure_threshold (config b)"] by simp
  then have "unat (of_nat n + 1 :: u32) = Suc n"
    by (simp add: unat_word_ariths unsigned_of_nat take_bit_nat_eq_self)
  then have "\<not> failure_threshold (config b) \<le> of_nat n + 1"
    using Suc.prems by (simp add: word_le_nat_alt)
  then show ?case
    using Suc assms(2) by (simp add: record_failure_def circuit_from_def Let_def add.commute)
qed

text \<open>
  The threshold is exact: starting from a closed breaker with no failures counted,
  \<open>n\<close> failures in a row leave it closed while \<open>n\<close> is below the threshold and open it at the
  threshold, and one success before that clears the count.
\<close>

theorem breaker_threshold_exact:
  assumes "cb_state b = circuit_tag Closed" and "failure_count b = 0"
    and "unat (failure_threshold (config b)) = Suc n"
  shows "(\<forall>i \<le> n. cb_state ((record_failure now ^^ i) b) = circuit_tag Closed) \<and>
    cb_state ((record_failure now ^^ Suc n) b) = circuit_tag Open \<and>
    opened_at ((record_failure now ^^ Suc n) b) = now \<and>
    (\<forall>i \<le> n. record_success ((record_failure now ^^ i) b) = b)"
proof -
  have run: "(record_failure now ^^ i) b = b\<lparr>failure_count := of_nat i\<rparr>" if "i \<le> n" for i
    using that assms by (intro record_failures_closed) simp_all
  have "Suc n < 2 ^ 32"
    using assms(3) unat_less_pow [of "failure_threshold (config b)"] by simp
  then have "unat (of_nat n + 1 :: u32) = Suc n"
    by (simp add: unat_word_ariths unsigned_of_nat take_bit_nat_eq_self)
  then have "failure_threshold (config b) \<le> of_nat n + 1"
    using assms(3) by (simp add: word_le_nat_alt)
  moreover have "record_success (b\<lparr>failure_count := x\<rparr>) = b" for x
    using assms(1,2) by (cases b) (simp add: record_success_def circuit_from_def)
  ultimately show ?thesis
    using run [OF order_refl] run assms(1)
    by (simp add: record_failure_def circuit_from_def Let_def add.commute)
qed

theorem breaker_threshold_exact_witness:
  "let b = breaker_new default_config
   in cb_state ((record_failure 50 ^^ 2) b) = circuit_tag Closed \<and>
      cb_state ((record_failure 50 ^^ Suc 2) b) = circuit_tag Open \<and>
      opened_at ((record_failure 50 ^^ Suc 2) b) = 50"
proof -
  have "unat (failure_threshold (config (breaker_new default_config))) = Suc 2"
    by (simp add: breaker_new_def default_config_def)
  then show ?thesis
    using breaker_threshold_exact [of "breaker_new default_config" 2 50]
    by (simp only: Let_def) (simp add: breaker_new_def)
qed

section \<open>Interleaved atomic accesses\<close>

text \<open>
  The operations as programs over the atomic cells. A program counter names the next access;
  the value it carries is the thread's local copy. \<open>Finished\<close> carries the answer of a check.
\<close>

datatype breaker_pc =
    CheckLoad | CheckOpenedAt | CheckNow u64 | CheckCas | CheckReload
  | SuccessLoad | SuccessClose | SuccessReset
  | FailureLoad | FailureCount | FailureOpen | FailureStamp
  | Finished bool

fun atomic_access :: "u64 \<Rightarrow> CircuitBreaker \<Rightarrow> breaker_pc \<Rightarrow> CircuitBreaker \<times> breaker_pc" where
  "atomic_access now b CheckLoad =
     (b, case circuit_from (cb_state b) of
           Closed \<Rightarrow> Finished True | Open \<Rightarrow> CheckOpenedAt | HalfOpen \<Rightarrow> Finished True)"
| "atomic_access now b CheckOpenedAt = (b, CheckNow (opened_at b))"
| "atomic_access now b (CheckNow opened) =
     (b, if open_duration (config b) \<le> saturating_sub now opened then CheckCas else Finished False)"
| "atomic_access now b CheckCas =
     (if cb_state b = circuit_tag Open
      then (b\<lparr>cb_state := circuit_tag HalfOpen\<rparr>, Finished True)
      else (b, CheckReload))"
| "atomic_access now b CheckReload = (b, Finished (circuit_from (cb_state b) \<noteq> Open))"
| "atomic_access now b SuccessLoad =
     (b, case circuit_from (cb_state b) of
           HalfOpen \<Rightarrow> SuccessClose | Closed \<Rightarrow> SuccessReset | Open \<Rightarrow> Finished True)"
| "atomic_access now b SuccessClose = (b\<lparr>cb_state := circuit_tag Closed\<rparr>, SuccessReset)"
| "atomic_access now b SuccessReset = (b\<lparr>failure_count := 0\<rparr>, Finished True)"
| "atomic_access now b FailureLoad =
     (b, case circuit_from (cb_state b) of
           Closed \<Rightarrow> FailureCount | HalfOpen \<Rightarrow> FailureOpen | Open \<Rightarrow> FailureStamp)"
| "atomic_access now b FailureCount =
     (let count = failure_count b + 1
      in (b\<lparr>failure_count := count\<rparr>,
          if failure_threshold (config b) \<le> count then FailureOpen else Finished True))"
| "atomic_access now b FailureOpen = (b\<lparr>cb_state := circuit_tag Open\<rparr>, FailureStamp)"
| "atomic_access now b FailureStamp = (b\<lparr>opened_at := now\<rparr>, Finished True)"
| "atomic_access now b (Finished r) = (b, Finished r)"

text \<open>A schedule lists which thread takes the next access, and the clock it reads.\<close>

fun run_schedule ::
    "(nat \<times> u64) list \<Rightarrow> CircuitBreaker \<Rightarrow> breaker_pc list \<Rightarrow> CircuitBreaker \<times> breaker_pc list" where
  "run_schedule [] b pcs = (b, pcs)"
| "run_schedule ((i, now) # rest) b pcs =
     (if i < length pcs
      then (let (b', pc') = atomic_access now b (pcs ! i)
            in run_schedule rest b' (pcs[i := pc']))
      else run_schedule rest b pcs)"

text \<open>One thread alone, with the clock standing still: the uninterrupted operation.\<close>

definition run_alone :: "u64 \<Rightarrow> CircuitBreaker \<Rightarrow> breaker_pc \<Rightarrow> CircuitBreaker \<times> breaker_pc list" where
  "run_alone now b pc = run_schedule (replicate 4 (0, now)) b [pc]"

text \<open>
  The uninterrupted operations are the programs run alone: a check, a success and a
  failure report that no other thread interrupts take at most four atomic accesses and have
  exactly the effect and the answer of \<open>is_available\<close>, \<open>record_success\<close> and
  \<open>record_failure\<close>.
\<close>

theorem uninterrupted_run_refines:
  "run_alone now b CheckLoad =
     (snd (is_available now b), [Finished (fst (is_available now b))]) \<and>
   run_alone now b SuccessLoad = (record_success b, [Finished True]) \<and>
   run_alone now b FailureLoad = (record_failure now b, [Finished True])"
proof -
  have from_1: "circuit_from w = Open \<longleftrightarrow> w = 1" "circuit_from 1 = Open" for w
    by (auto simp: circuit_from_def)
  have four: "replicate 4 (0 :: nat, now) = [(0, now), (0, now), (0, now), (0, now)]"
    by (simp add: numeral_eq_Suc)
  show ?thesis
    unfolding run_alone_def four
    by (cases "circuit_from (cb_state b)")
      (auto simp: is_available_def record_success_def record_failure_def Let_def from_1)
qed

lemma atomic_access_tag:
  "cb_state b \<in> range circuit_tag \<Longrightarrow> cb_state (fst (atomic_access now b pc)) \<in> range circuit_tag"
  by (cases pc) (auto simp: Let_def simp del: circuit_tag.simps)

text \<open>
  Under every interleaving of any number of threads the state cell keeps holding the tag
  of one of the three states, so the fallback of the tag conversion is never taken.
\<close>

theorem interleaving_keeps_state_tag:
  assumes "cb_state b \<in> range circuit_tag"
  shows "cb_state (fst (run_schedule sched b pcs)) \<in> range circuit_tag"
  using assms
proof (induction sched b pcs rule: run_schedule.induct)
  case (2 i now rest b pcs)
  then show ?case
    using atomic_access_tag [of b now "pcs ! i"]
    by (auto simp: case_prod_unfold Let_def)
qed simp

theorem interleaving_keeps_state_tag_witness:
  "cb_state (fst (run_schedule [(0, 5), (1, 6), (0, 7)] (breaker_new default_config)
     [FailureLoad, CheckLoad])) \<in> range circuit_tag"
  by (rule interleaving_keeps_state_tag) (simp add: breaker_new_def del: circuit_tag.simps)

text \<open>
  The open duration is not enforced against interleaved checks. \<open>record_failure\<close> stores
  the open state before it stores the opening time. Three threads report failures on a
  fresh breaker with the default configuration, at 40 seconds of process uptime, and a check
  runs between the two stores: it reads the opening time of the previous opening (zero on a
  fresh breaker) and lets the request through at once, although the breaker opened in the
  same instant and stays open for thirty seconds in every uninterrupted execution.
\<close>

theorem stale_opening_time_admits_request:
  "let t = 40 * 1000000000;
       b = breaker_new default_config;
       raced = run_schedule
         [(0, t), (0, t), (1, t), (1, t), (2, t), (2, t), (2, t),
          (3, t), (3, t), (3, t), (3, t), (2, t)] b [FailureLoad, FailureLoad, FailureLoad, CheckLoad];
       b3 = record_failure t (record_failure t (record_failure t b))
   in snd raced ! 3 = Finished True \<and> circuit_from (cb_state (fst raced)) = HalfOpen \<and>
      fst (is_available t b3) = False"
  by code_simp

end
