(* ===== verification/Vg_Types.thy ===== *)
theory Vg_Types
  imports Object_Layout Rpc_Retry Circuit_Breaker
begin

text \<open>
  Volume groups: the configuration of \<open>crates/common/data_types/src/volume.rs\<close>, the erasure
  coding arithmetic of \<open>ec_utils.rs\<close>, the errors of
  \<open>crates/common/volume_group_proxy/src/lib.rs\<close>, and of \<open>data_vg_proxy.rs\<close> the proxy state, its
  validating constructor and the volume selection of the write path.

  The hash functions of the \<open>crc32fast\<close> and \<open>xxhash_rust\<close> crates are the parameters \<open>crc32\<close>
  and \<open>xxh3_64\<close>. Random draws are arguments. Formatted error messages are replaced by
  constructors that carry the values the message shows.
\<close>

section \<open>Volume configuration\<close>

datatype VolumeMode =
    Replicated (repl_n: u32) (repl_r: u32) (repl_w: u32)
  | ErasureCoded (data_shards: u32) (parity_shards: u32)

record NodeConfig =
  node_id :: string
  ip :: string
  port :: u16

record Volume =
  cfg_volume_id :: u16
  cfg_uuid :: string
  cfg_bss_nodes :: "NodeConfig list"
  cfg_mode :: VolumeMode

record DataVgInfo =
  cfg_volumes :: "Volume list"

definition EC_VOLUME_ID_BASE :: u16 where "EC_VOLUME_ID_BASE = 0x8000"

definition is_ec_volume_id :: "u16 \<Rightarrow> bool" where
  "is_ec_volume_id v \<longleftrightarrow> EC_VOLUME_ID_BASE \<le> v \<and> v \<noteq> - 1"

fun is_ec_mode :: "VolumeMode \<Rightarrow> bool" where
  "is_ec_mode (ErasureCoded _ _) = True"
| "is_ec_mode (Replicated _ _ _) = False"

definition is_ec :: "Volume \<Rightarrow> bool" where
  "is_ec v = is_ec_mode (cfg_mode v)"

record MetadataVolume =
  md_volume_id :: u16
  md_uuid :: string
  md_bss_nodes :: "NodeConfig list"

record MetadataQuorum =
  quorum_n :: u32
  quorum_r :: u32
  quorum_w :: u32

record MetadataVgInfo =
  md_volumes :: "MetadataVolume list"
  md_quorum :: MetadataQuorum

record VolumeRef =
  ref_volume_id :: u16
  ref_uuid :: string

definition volume_refs :: "MetadataVgInfo \<Rightarrow> VolumeRef list" where
  "volume_refs info =
     map (\<lambda>v. \<lparr>ref_volume_id = md_volume_id v, ref_uuid = md_uuid v\<rparr>) (md_volumes info)"

definition pool_volume_refs ::
    "(string \<Rightarrow> string + MetadataVgInfo) \<Rightarrow> string \<Rightarrow> string + VolumeRef list" where
  "pool_volume_refs from_str pool_json =
     (case from_str pool_json of
        Inl e \<Rightarrow> Inl (''failed to parse journal VG pool: '' @ e)
      | Inr pool \<Rightarrow> Inr (volume_refs pool))"

section \<open>Erasure coding arithmetic\<close>

text \<open>The bytes of a \<open>Uuid\<close> in memory order, most significant first.\<close>

definition uuid_bytes :: "Uuid \<Rightarrow> bytes" where
  "uuid_bytes u = rev (to_le_bytes 16 u)"

text \<open>A zero shard count would divide by zero; the constructor rejects it.\<close>

definition ec_rotation :: "(bytes \<Rightarrow> u32) \<Rightarrow> Uuid \<Rightarrow> u32 \<Rightarrow> nat" where
  "ec_rotation crc32 u total_shards = unat (crc32 (uuid_bytes u) mod total_shards)"

definition ec_padded_len :: "nat \<Rightarrow> nat \<Rightarrow> nat" where
  "ec_padded_len content_len k =
     (let stripe_size = k * 2
      in if content_len mod stripe_size = 0 then content_len
         else content_len + (stripe_size - content_len mod stripe_size))"

definition ec_cohort_tag :: "(bytes \<Rightarrow> u64) \<Rightarrow> bytes \<Rightarrow> u64" where
  "ec_cohort_tag xxh3_64 padded_body = max (xxh3_64 padded_body) 1"

definition shard_index :: "nat \<Rightarrow> nat \<Rightarrow> nat \<Rightarrow> nat" where
  "shard_index node_idx rotation tot = (node_idx + tot - rotation) mod tot"

definition node_index :: "nat \<Rightarrow> nat \<Rightarrow> nat \<Rightarrow> nat" where
  "node_index shard_idx rotation tot = (shard_idx + rotation) mod tot"

section \<open>Errors\<close>

datatype InitError =
    NoVolumes
  | InvalidR u16
  | InvalidW u16
  | TooFewNodes u16 u32 nat
  | EcIdOutOfRange u16
  | InvalidDataShards u16
  | InvalidParityShards u16
  | ParityNotBelowData u16
  | WrongNodeCount u16 nat u32
  | VolumeNotFound u16

datatype QuorumReason =
    InsufficientNodes nat nat nat
  | QuorumNotReached nat nat "(string \<times> RpcError) list"
  | NoAvailableNodes
  | AllReadsFailed
  | CohortMismatch
  | NoDecodableCohort nat nat

datatype InternalReason = RsEncodeFailed | RsReconstructFailed | RsMissingShard nat | NoShards

datatype DataVgError =
    BssRpc RpcError
  | Config string
  | InitializationError InitError
  | QuorumFailure QuorumReason
  | StaleVersion u64
  | BlockNotFound
  | Corrupted
  | Internal InternalReason

section \<open>The proxy\<close>

record BssNode =
  address :: string
  circuit_breaker :: CircuitBreaker

record VolumeWithNodes =
  vol_id :: u16
  bss_nodes :: "BssNode list"
  vol_mode :: VolumeMode
  inflight :: u64

datatype VolumeSelectionPolicy = RoundRobin | LeastQd

record DataVgProxy =
  volumes :: "VolumeWithNodes list"
  round_robin_counter :: u64
  proxy_rpc_timeout :: nat
  policy :: VolumeSelectionPolicy
  ec_hedge_delay :: nat

definition DEFAULT_EC_HEDGE_DELAY :: nat where "DEFAULT_EC_HEDGE_DELAY = 5000000"

text \<open>Decimal text of a number, as \<open>format!\<close> prints it.\<close>

fun decimal :: "nat \<Rightarrow> string" where
  "decimal n = (if n < 10 then [char_of (48 + n)] else decimal (n div 10) @ [char_of (48 + n mod 10)])"

declare decimal.simps [simp del]

definition bss_node_new :: "string \<Rightarrow> CircuitBreakerConfig \<Rightarrow> BssNode" where
  "bss_node_new addr cb_config = \<lparr>address = addr, circuit_breaker = breaker_new cb_config\<rparr>"

text \<open>The checks of the constructor, in the order the source makes them.\<close>

definition validate_volume :: "Volume \<Rightarrow> InitError option" where
  "validate_volume v =
     (case cfg_mode v of
        Replicated n r w \<Rightarrow>
          (if r = 0 then Some (InvalidR (cfg_volume_id v))
           else if w = 0 then Some (InvalidW (cfg_volume_id v))
           else if length (cfg_bss_nodes v) < unat w
           then Some (TooFewNodes (cfg_volume_id v) w (length (cfg_bss_nodes v)))
           else None)
      | ErasureCoded k m \<Rightarrow>
          (if \<not> is_ec_volume_id (cfg_volume_id v) then Some (EcIdOutOfRange (cfg_volume_id v))
           else if k = 0 then Some (InvalidDataShards (cfg_volume_id v))
           else if m = 0 then Some (InvalidParityShards (cfg_volume_id v))
           else if k \<le> m then Some (ParityNotBelowData (cfg_volume_id v))
           else (let total_shards = k + m
                 in if length (cfg_bss_nodes v) \<noteq> unat total_shards
                    then Some (WrongNodeCount (cfg_volume_id v) (length (cfg_bss_nodes v)) total_shards)
                    else None)))"

definition build_volume :: "CircuitBreakerConfig \<Rightarrow> Volume \<Rightarrow> VolumeWithNodes" where
  "build_volume cb_config v =
     \<lparr>vol_id = cfg_volume_id v,
      bss_nodes = map (\<lambda>n. bss_node_new (ip n @ '':'' @ decimal (unat (port n))) cb_config)
        (cfg_bss_nodes v),
      vol_mode = cfg_mode v, inflight = 0\<rparr>"

fun build_volumes :: "CircuitBreakerConfig \<Rightarrow> Volume list \<Rightarrow> InitError + VolumeWithNodes list" where
  "build_volumes cb_config [] = Inr []"
| "build_volumes cb_config (v # vs) =
     (case validate_volume v of
        Some e \<Rightarrow> Inl e
      | None \<Rightarrow>
          (case build_volumes cb_config vs of
             Inl e \<Rightarrow> Inl e
           | Inr rest \<Rightarrow> Inr (build_volume cb_config v # rest)))"

definition new_with_circuit_breaker ::
    "DataVgInfo \<Rightarrow> nat \<Rightarrow> CircuitBreakerConfig \<Rightarrow> DataVgError + DataVgProxy" where
  "new_with_circuit_breaker info rpc_request_timeout cb_config =
     (if cfg_volumes info = [] then Inl (InitializationError NoVolumes)
      else case build_volumes cb_config (cfg_volumes info) of
          Inl e \<Rightarrow> Inl (InitializationError e)
        | Inr vs \<Rightarrow>
            Inr \<lparr>volumes = vs, round_robin_counter = 0, proxy_rpc_timeout = rpc_request_timeout,
              policy = LeastQd, ec_hedge_delay = DEFAULT_EC_HEDGE_DELAY\<rparr>)"

definition new_proxy :: "DataVgInfo \<Rightarrow> nat \<Rightarrow> DataVgError + DataVgProxy" where
  "new_proxy info rpc_request_timeout =
     new_with_circuit_breaker info rpc_request_timeout default_config"

definition with_ec_hedge_delay :: "DataVgProxy \<Rightarrow> nat \<Rightarrow> DataVgProxy" where
  "with_ec_hedge_delay p delay = p\<lparr>ec_hedge_delay := delay\<rparr>"

definition with_selection_policy :: "DataVgProxy \<Rightarrow> VolumeSelectionPolicy \<Rightarrow> DataVgProxy" where
  "with_selection_policy p pol = p\<lparr>policy := pol\<rparr>"

definition find_volume :: "DataVgProxy \<Rightarrow> u16 \<Rightarrow> VolumeWithNodes option" where
  "find_volume p vid = find (\<lambda>v. vol_id v = vid) (volumes p)"

section \<open>Volume selection\<close>

text \<open>The random draws of one selection: two indices and a coin.\<close>

record selection_draws =
  draw_i :: nat
  draw_j :: nat
  draw_coin :: bool

definition pick_volume_round_robin ::
    "DataVgProxy \<Rightarrow> VolumeWithNodes list \<Rightarrow> VolumeWithNodes \<times> DataVgProxy" where
  "pick_volume_round_robin p candidates =
     (let counter = unat (round_robin_counter p)
      in (candidates ! (counter mod length candidates),
          p\<lparr>round_robin_counter := round_robin_counter p + 1\<rparr>))"

definition pick_volume_least_qd ::
    "selection_draws \<Rightarrow> VolumeWithNodes list \<Rightarrow> VolumeWithNodes" where
  "pick_volume_least_qd d candidates =
     (let i = draw_i d;
          j = (if i \<le> draw_j d then draw_j d + 1 else draw_j d);
          a = candidates ! i;
          b = candidates ! j
      in if inflight a < inflight b then a
         else if inflight b < inflight a then b
         else if draw_coin d then a
         else b)"

text \<open>The draws \<open>random_range(0..len)\<close> and \<open>random_range(0..len - 1)\<close> may return.\<close>

definition draws_ok :: "selection_draws \<Rightarrow> nat \<Rightarrow> bool" where
  "draws_ok d len \<longleftrightarrow> (1 < len \<longrightarrow> draw_i d < len \<and> draw_j d < len - 1)"

definition pick_volume ::
    "selection_draws \<Rightarrow> DataVgProxy \<Rightarrow> VolumeWithNodes list \<Rightarrow> (VolumeWithNodes \<times> DataVgProxy) option" where
  "pick_volume d p candidates =
     (case candidates of
        [] \<Rightarrow> None
      | [v] \<Rightarrow> Some (v, p)
      | _ \<Rightarrow>
          (case policy p of
             RoundRobin \<Rightarrow> Some (pick_volume_round_robin p candidates)
           | LeastQd \<Rightarrow> Some (pick_volume_least_qd d candidates, p)))"

definition candidate_tier :: "DataVgProxy \<Rightarrow> bool \<Rightarrow> VolumeWithNodes list" where
  "candidate_tier p prefer_ec =
     (let c1 = (if prefer_ec then filter (\<lambda>v. is_ec_mode (vol_mode v)) (volumes p) else []);
          c2 = (if c1 = [] then filter (\<lambda>v. \<not> is_ec_mode (vol_mode v)) (volumes p) else c1)
      in if c2 = [] then volumes p else c2)"

definition select_volume_for_blob_with_preference ::
    "selection_draws \<Rightarrow> DataVgProxy \<Rightarrow> bool \<Rightarrow> (u16 \<times> DataVgProxy) option" where
  "select_volume_for_blob_with_preference d p prefer_ec =
     map_option (\<lambda>(v, p'). (vol_id v, p')) (pick_volume d p (candidate_tier p prefer_ec))"

definition select_volume_for_blob :: "selection_draws \<Rightarrow> DataVgProxy \<Rightarrow> (u16 \<times> DataVgProxy) option" where
  "select_volume_for_blob d p = select_volume_for_blob_with_preference d p False"

definition create_data_blob_guid_with_preference ::
    "Uuid \<Rightarrow> selection_draws \<Rightarrow> DataVgProxy \<Rightarrow> bool \<Rightarrow> (DataBlobGuid \<times> DataVgProxy) option" where
  "create_data_blob_guid_with_preference fresh d p prefer_ec =
     map_option (\<lambda>(vid, p'). (\<lparr>blob_id = fresh, volume_id = vid\<rparr>, p'))
       (select_volume_for_blob_with_preference d p prefer_ec)"

definition create_data_blob_guid ::
    "Uuid \<Rightarrow> selection_draws \<Rightarrow> DataVgProxy \<Rightarrow> (DataBlobGuid \<times> DataVgProxy) option" where
  "create_data_blob_guid fresh d p = create_data_blob_guid_with_preference fresh d p False"

section \<open>What the constructor guarantees\<close>

definition volume_ok :: "VolumeWithNodes \<Rightarrow> bool" where
  "volume_ok v =
     (case vol_mode v of
        Replicated n r w \<Rightarrow> 0 < r \<and> 0 < w \<and> unat w \<le> length (bss_nodes v)
      | ErasureCoded k m \<Rightarrow> is_ec_volume_id (vol_id v) \<and> 0 < m \<and> m < k \<and>
          length (bss_nodes v) = unat (k + m))"

definition proxy_ok :: "DataVgProxy \<Rightarrow> bool" where
  "proxy_ok p \<longleftrightarrow> volumes p \<noteq> [] \<and> list_all volume_ok (volumes p)"

lemma validate_build: "validate_volume v = None \<longleftrightarrow> volume_ok (build_volume c v)"
  by (auto simp: validate_volume_def volume_ok_def build_volume_def Let_def not_le not_less
      word_neq_0_conv split: VolumeMode.split)

lemma build_volumes_cases:
  "case build_volumes c vs of
     Inr ws \<Rightarrow> list_all (\<lambda>v. validate_volume v = None) vs \<and> ws = map (build_volume c) vs
   | Inl e \<Rightarrow> \<not> list_all (\<lambda>v. validate_volume v = None) vs"
  by (induction vs) (auto split: option.split sum.splits)

lemma constructor_iff:
  "new_with_circuit_breaker info t c = Inr p \<longleftrightarrow>
     p = \<lparr>volumes = map (build_volume c) (cfg_volumes info), round_robin_counter = 0,
          proxy_rpc_timeout = t, policy = LeastQd, ec_hedge_delay = DEFAULT_EC_HEDGE_DELAY\<rparr> \<and>
     proxy_ok p"
proof -
  have "list_all (\<lambda>v. validate_volume v = None) vs \<longleftrightarrow> list_all volume_ok (map (build_volume c) vs)" for vs
    by (induction vs) (simp_all add: validate_build [of _ c])
  with build_volumes_cases [of "cfg_volumes info" c] show ?thesis
    by (auto simp: new_with_circuit_breaker_def proxy_ok_def split: sum.splits)
qed

text \<open>
  The constructor accepts exactly the configurations that name at least one volume and
  whose volumes satisfy the quorum conditions the read and write paths rely on: a positive
  read and write quorum that fits the nodes, or, for erasure coding, an id in the reserved
  range, \<open>0 < m < k\<close> and one node per shard. The accepted proxy has one entry per
  configured volume, in order, with closed breakers and no writes in flight.
\<close>

theorem constructor_accepts_iff:
  "new_with_circuit_breaker info t c = Inr p \<longleftrightarrow>
     p = \<lparr>volumes = map (build_volume c) (cfg_volumes info), round_robin_counter = 0,
          proxy_rpc_timeout = t, policy = LeastQd, ec_hedge_delay = DEFAULT_EC_HEDGE_DELAY\<rparr> \<and>
     proxy_ok p"
  by (rule constructor_iff)

section \<open>Placement of shards\<close>

lemma node_shard_index:
  assumes "r \<le> n" "i < n" shows "shard_index (node_index i r n) r n = i"
proof -
  have "((i + r) mod n + n - r) mod n = ((i + r) mod n + (n - r)) mod n"
    using assms by simp
  also have "\<dots> = (i + r + (n - r)) mod n"
    by (rule mod_add_left_eq)
  also have "\<dots> = i"
    using assms by simp
  finally show ?thesis
    by (simp add: shard_index_def node_index_def)
qed

lemma node_index_less: "0 < n \<Longrightarrow> node_index i r n < n"
  by (simp add: node_index_def)

lemma node_index_inj:
  assumes "r \<le> n" "i < n" "j < n" shows "node_index i r n = node_index j r n \<longleftrightarrow> i = j"
  using assms node_shard_index [of r n] by metis

lemma node_index_bij:
  assumes "r \<le> n" shows "bij_betw (\<lambda>i. node_index i r n) {..<n} {..<n}"
proof -
  have inj: "inj_on (\<lambda>i. node_index i r n) {..<n}"
    using node_index_inj [OF assms] by (auto simp: inj_on_def)
  moreover have "(\<lambda>i. node_index i r n) ` {..<n} \<subseteq> {..<n}"
    by (auto simp: node_index_def)
  ultimately show ?thesis
    by (simp add: bij_betw_def endo_inj_surj)
qed

text \<open>
  The rotation places shards on nodes one to one: for every rotation up to the number of
  shards the map from shard to node is a bijection, and \<open>shard_index\<close> inverts it.
\<close>

theorem shard_placement_bijective:
  assumes "rotation \<le> n"
  shows "bij_betw (\<lambda>i. node_index i rotation n) {..<n} {..<n} \<and>
    (\<forall>i < n. shard_index (node_index i rotation n) rotation n = i) \<and>
    (\<forall>j < n. node_index (shard_index j rotation n) rotation n = j)"
proof -
  have "node_index (shard_index j rotation n) rotation n = j" if "j < n" for j
  proof -
    have "j \<in> (\<lambda>i. node_index i rotation n) ` {..<n}"
      using that node_index_bij [OF assms] by (simp add: bij_betw_def)
    then obtain i where "i < n" "j = node_index i rotation n"
      by auto
    then show ?thesis
      using node_shard_index [OF assms] by simp
  qed
  then show ?thesis
    using node_index_bij [OF assms] node_shard_index [OF assms] by blast
qed

theorem shard_placement_bijective_witness:
  "bij_betw (\<lambda>i. node_index i 4 6) {..<6} {..<6} \<and> node_index 3 4 6 = 1 \<and> shard_index 1 4 6 = 3"
proof -
  have n: "node_index 3 4 6 = 1" by (simp add: node_index_def)
  have "shard_index (node_index 3 4 6) 4 6 = 3"
    using shard_placement_bijective [of 4 6] by simp
  then show ?thesis
    using shard_placement_bijective [of 4 6] n by simp
qed

lemma ec_rotation_less: "0 < t \<Longrightarrow> ec_rotation crc32 u t < unat t"
  by (simp add: ec_rotation_def word_less_nat_alt [symmetric] word_mod_less_divisor)

lemma ec_padded_len_props:
  assumes "0 < k"
  shows "ec_padded_len n k mod (k * 2) = 0" "n \<le> ec_padded_len n k"
    "ec_padded_len n k < n + k * 2" "k * (ec_padded_len n k div k) = ec_padded_len n k"
proof -
  have less: "n mod (k * 2) < k * 2" using assms by simp
  have "(n + (k * 2 - n mod (k * 2))) mod (k * 2) = (n mod (k * 2) + (k * 2 - n mod (k * 2))) mod (k * 2)"
    by (metis mod_add_left_eq)
  also have "\<dots> = 0" using less by simp
  finally show *: "ec_padded_len n k mod (k * 2) = 0"
    by (simp add: ec_padded_len_def Let_def)
  show "n \<le> ec_padded_len n k"
    by (simp add: ec_padded_len_def Let_def)
  show "ec_padded_len n k < n + k * 2"
    using less assms by (auto simp: ec_padded_len_def Let_def)
  from * have "k * 2 dvd ec_padded_len n k"
    by (rule dvd_eq_mod_eq_0 [THEN iffD2])
  then have "k dvd ec_padded_len n k"
    by (rule dvd_mult_left)
  then show "k * (ec_padded_len n k div k) = ec_padded_len n k"
    by simp
qed

section \<open>Selection never fails\<close>

lemma candidate_tier_props:
  "proxy_ok p \<Longrightarrow> candidate_tier p prefer_ec \<noteq> [] \<and>
    set (candidate_tier p prefer_ec) \<subseteq> set (volumes p)"
  by (auto simp: candidate_tier_def proxy_ok_def Let_def filter_empty_conv)

lemma least_qd_member:
  assumes "draws_ok d (length c)" "1 < length c"
  shows "pick_volume_least_qd d c \<in> set c"
proof -
  have i: "draw_i d < length c" and j: "draw_j d + 1 < length c"
    using assms by (auto simp: draws_ok_def)
  let ?j = "if draw_i d \<le> draw_j d then draw_j d + 1 else draw_j d"
  have "?j < length c" using j by auto
  then have "c ! draw_i d \<in> set c" "c ! ?j \<in> set c"
    using i by (meson nth_mem)+
  then show ?thesis
    unfolding pick_volume_least_qd_def Let_def by (auto split: if_splits)
qed

definition second_draw :: "selection_draws \<Rightarrow> nat" where
  "second_draw d = (if draw_i d \<le> draw_j d then draw_j d + 1 else draw_j d)"

lemma least_qd_min:
  "inflight (pick_volume_least_qd d c) =
    min (inflight (c ! draw_i d)) (inflight (c ! second_draw d))"
  by (auto simp: pick_volume_least_qd_def second_draw_def Let_def min_def)

lemma pick_volume_member:
  assumes "c \<noteq> []" "draws_ok d (length c)"
  shows "\<exists>v rr. pick_volume d p c = Some (v, p\<lparr>round_robin_counter := rr\<rparr>) \<and> v \<in> set c \<and>
    (policy p = LeastQd \<and> 1 < length c \<longrightarrow>
       inflight v = min (inflight (c ! draw_i d)) (inflight (c ! second_draw d)))"
proof (cases "length c = 1")
  case True
  then obtain v where "c = [v]" by (auto simp: length_Suc_conv)
  then show ?thesis
    by (intro exI [of _ v] exI [of _ "round_robin_counter p"]) (simp add: pick_volume_def)
next
  case False
  then have len: "1 < length c" using assms(1) by (cases c) auto
  then obtain a b r where c: "c = a # b # r"
    by (cases c; cases "tl c") auto
  have "c ! (x mod length c) \<in> set c" for x
    using len by (intro nth_mem mod_less_divisor) linarith
  then show ?thesis
    using least_qd_member [OF assms(2) len] least_qd_min [of d c] c
    by (cases "policy p")
      (auto simp: pick_volume_def pick_volume_round_robin_def Let_def
        intro: exI [of _ "round_robin_counter p"])
qed

lemma candidate_tier_preferred:
  "prefer_ec \<Longrightarrow> \<exists>x \<in> set (volumes p). is_ec_mode (vol_mode x) \<Longrightarrow>
    v \<in> set (candidate_tier p prefer_ec) \<Longrightarrow> is_ec_mode (vol_mode v)"
  "\<not> prefer_ec \<Longrightarrow> \<exists>x \<in> set (volumes p). \<not> is_ec_mode (vol_mode x) \<Longrightarrow>
    v \<in> set (candidate_tier p prefer_ec) \<Longrightarrow> \<not> is_ec_mode (vol_mode v)"
  by (auto simp: candidate_tier_def Let_def filter_empty_conv split: if_splits)

text \<open>
  On a proxy the constructor accepted, selection never reaches its unreachable branch:
  it returns the id of a configured volume, of the preferred tier if the tier has one, and
  changes nothing but the round-robin counter. Under the least-loaded policy the chosen
  volume has the smaller number of writes in flight of the two sampled ones.
\<close>

theorem selection_total:
  assumes "proxy_ok p" and "draws_ok d (length (candidate_tier p prefer_ec))"
  shows "\<exists>v rr. select_volume_for_blob_with_preference d p prefer_ec =
      Some (vol_id v, p\<lparr>round_robin_counter := rr\<rparr>) \<and>
    v \<in> set (volumes p) \<and>
    (prefer_ec \<and> (\<exists>x \<in> set (volumes p). is_ec_mode (vol_mode x)) \<longrightarrow> is_ec_mode (vol_mode v)) \<and>
    (\<not> prefer_ec \<and> (\<exists>x \<in> set (volumes p). \<not> is_ec_mode (vol_mode x)) \<longrightarrow> \<not> is_ec_mode (vol_mode v)) \<and>
    (policy p = LeastQd \<and> 1 < length (candidate_tier p prefer_ec) \<longrightarrow>
       inflight v = min (inflight (candidate_tier p prefer_ec ! draw_i d))
         (inflight (candidate_tier p prefer_ec ! second_draw d)))"
proof -
  let ?c = "candidate_tier p prefer_ec"
  note tier = candidate_tier_props [OF assms(1), of prefer_ec]
  obtain v rr where v: "pick_volume d p ?c = Some (v, p\<lparr>round_robin_counter := rr\<rparr>)"
    "v \<in> set ?c" "policy p = LeastQd \<and> 1 < length ?c \<longrightarrow>
       inflight v = min (inflight (?c ! draw_i d)) (inflight (?c ! second_draw d))"
    using pick_volume_member [OF _ assms(2), of p] tier by blast
  then have "select_volume_for_blob_with_preference d p prefer_ec =
      Some (vol_id v, p\<lparr>round_robin_counter := rr\<rparr>)"
    by (simp add: select_volume_for_blob_with_preference_def)
  then show ?thesis
    using v tier candidate_tier_preferred [of prefer_ec p v] by blast
qed

theorem selection_total_witness:
  "let vol = (\<lambda>i load. \<lparr>vol_id = i, bss_nodes = [], vol_mode = ErasureCoded 2 1, inflight = load\<rparr>);
       nodes = replicate 3 (bss_node_new ''n'' default_config);
       p = \<lparr>volumes = [(vol 0x8000 5)\<lparr>bss_nodes := nodes\<rparr>, (vol 0x8001 2)\<lparr>bss_nodes := nodes\<rparr>],
         round_robin_counter = 0, proxy_rpc_timeout = 9, policy = LeastQd, ec_hedge_delay = 5\<rparr>;
       d = \<lparr>draw_i = 0, draw_j = 0, draw_coin = True\<rparr>
   in \<exists>v rr. select_volume_for_blob_with_preference d p True =
        Some (vol_id v, p\<lparr>round_robin_counter := rr\<rparr>) \<and> v \<in> set (volumes p) \<and>
        is_ec_mode (vol_mode v) \<and> inflight v = 2"
proof -
  let ?vol = "\<lambda>i load. \<lparr>vol_id = i, bss_nodes = replicate 3 (bss_node_new ''n'' default_config),
    vol_mode = ErasureCoded 2 1, inflight = load\<rparr>"
  let ?p = "\<lparr>volumes = [?vol 0x8000 5, ?vol 0x8001 2], round_robin_counter = 0,
    proxy_rpc_timeout = 9, policy = LeastQd, ec_hedge_delay = 5\<rparr> :: DataVgProxy"
  let ?d = "\<lparr>draw_i = 0, draw_j = 0, draw_coin = True\<rparr> :: selection_draws"
  have tier: "candidate_tier ?p True = volumes ?p"
    by (simp add: candidate_tier_def)
  have "proxy_ok ?p"
    by (simp add: proxy_ok_def volume_ok_def is_ec_volume_id_def EC_VOLUME_ID_BASE_def)
  moreover have "draws_ok ?d (length (candidate_tier ?p True))"
    by (simp add: tier draws_ok_def)
  ultimately show ?thesis
    using selection_total [of ?p ?d True] by (simp add: tier second_draw_def Let_def)
qed

end
