(* ===== verification/Vg_Replicated.thy ===== *)
theory Vg_Replicated
  imports Vg_Types "HOL-Library.Product_Lexorder"
begin

text \<open>
  The replicated branches of \<open>put_blob_inner\<close>, \<open>put_blob_vectored\<close>, \<open>get_blob\<close>,
  \<open>list_blob_blocks_inner\<close> and \<open>delete_blob\<close> in
  \<open>crates/common/volume_group_proxy/src/data_vg_proxy.rs\<close>, on one volume.

  An operation asks every node's breaker in turn, starts one call per available node and
  handles the results in the order they complete. What the other side decides is an
  environment argument: the clock at each breaker check and each completion, the completion
  order, the random choices, and the answer of each call. A completion order is any list of
  node positions; \<open>arrange\<close> turns it into an order of exactly the started calls, and every
  such order arises. Calls dropped by an early return are not handled, and calls left over
  once a write quorum is reached are handled by the background task.

  An operation runs against a volume no other operation changes meanwhile. The
  theorems about quorums hold for every state of the breakers and every environment, so
  they do not depend on that.
\<close>

section \<open>Breaker checks and completion orders\<close>

fun availability_pass :: "(nat \<Rightarrow> u64) \<Rightarrow> nat \<Rightarrow> BssNode list \<Rightarrow> bool list \<times> BssNode list" where
  "availability_pass clk i [] = ([], [])"
| "availability_pass clk i (n # ns) =
     (let (a, b) = is_available (clk i) (circuit_breaker n);
          (as, ns') = availability_pass clk (Suc i) ns
      in (a # as, n\<lparr>circuit_breaker := b\<rparr> # ns'))"

definition available_indices :: "bool list \<Rightarrow> nat list" where
  "available_indices avail = filter (\<lambda>i. avail ! i) [0..<length avail]"

definition arrange :: "nat list \<Rightarrow> nat list \<Rightarrow> nat list" where
  "arrange order launched =
     filter (\<lambda>i. i \<in> set launched) (remdups order) @ filter (\<lambda>i. i \<notin> set order) launched"

definition node_success :: "nat \<Rightarrow> BssNode list \<Rightarrow> BssNode list" where
  "node_success i nodes =
     nodes[i := (nodes ! i)\<lparr>circuit_breaker := record_success (circuit_breaker (nodes ! i))\<rparr>]"

definition node_failure :: "u64 \<Rightarrow> nat \<Rightarrow> BssNode list \<Rightarrow> BssNode list" where
  "node_failure now i nodes =
     nodes[i := (nodes ! i)\<lparr>circuit_breaker := record_failure now (circuit_breaker (nodes ! i))\<rparr>]"

section \<open>Writes\<close>

datatype PutBlobOutcome = Stored | AlreadyPresent

text \<open>One \<open>PutDataBlob\<close> request as a node receives it.\<close>

record put_request =
  pr_guid :: DataBlobGuid
  pr_block :: u32
  pr_body :: bytes
  pr_checksum :: u64
  pr_version :: u64
  pr_cohort :: u64

record put_env =
  pe_clock :: "nat \<Rightarrow> u64"
  pe_order :: "nat list"
  pe_done :: "nat \<Rightarrow> u64"
  pe_rpc :: "nat \<Rightarrow> put_request \<Rightarrow> RpcError + unit"

definition put_blob_to_node ::
    "put_env \<Rightarrow> nat \<Rightarrow> DataBlobGuid \<Rightarrow> u32 \<Rightarrow> bytes \<Rightarrow> u64 \<Rightarrow> u64 \<Rightarrow> u64 \<Rightarrow> RpcError + unit" where
  "put_blob_to_node env i guid block body body_checksum version cohort_tag =
     pe_rpc env i \<lparr>pr_guid = guid, pr_block = block, pr_body = body, pr_checksum = body_checksum,
       pr_version = version, pr_cohort = cohort_tag\<rparr>"

definition put_blob_to_node_vectored ::
    "put_env \<Rightarrow> nat \<Rightarrow> DataBlobGuid \<Rightarrow> u32 \<Rightarrow> bytes list \<Rightarrow> u64 \<Rightarrow> u64 \<Rightarrow> RpcError + unit" where
  "put_blob_to_node_vectored env i guid block chunks body_checksum version =
     pe_rpc env i \<lparr>pr_guid = guid, pr_block = block, pr_body = concat chunks,
       pr_checksum = body_checksum, pr_version = version, pr_cohort = 0\<rparr>"

text \<open>
  The loop over completed writes. It returns the result, the calls still running when a
  quorum is reached, and the nodes.
\<close>

fun put_loop ::
    "(nat \<Rightarrow> RpcError + unit) \<Rightarrow> (nat \<Rightarrow> u64) \<Rightarrow> nat \<Rightarrow> nat list \<Rightarrow> nat \<Rightarrow> PutBlobOutcome
      \<Rightarrow> (string \<times> RpcError) list \<Rightarrow> BssNode list
      \<Rightarrow> (DataVgError + PutBlobOutcome) \<times> nat list \<times> BssNode list" where
  "put_loop res dn write_quorum [] successful_writes outcome errors nodes =
     (Inl (QuorumFailure (QuorumNotReached successful_writes write_quorum errors)), [], nodes)"
| "put_loop res dn write_quorum (i # rest) successful_writes outcome errors nodes =
     (if res i = Inl Mismatch then (Inl (BssRpc Mismatch), [], node_failure (dn i) i nodes)
      else
        (let (succ, outc, errs, nodes') =
           (case res i of
              Inr _ \<Rightarrow> (successful_writes + 1, outcome, errors, node_success i nodes)
            | Inl e \<Rightarrow>
                (if e = VersionSkipped
                 then (successful_writes + 1, AlreadyPresent, errors, node_success i nodes)
                 else (successful_writes, outcome, errors @ [(address (nodes ! i), e)],
                       node_failure (dn i) i nodes)))
         in if write_quorum \<le> succ then (Inr outc, rest, nodes')
            else put_loop res dn write_quorum rest succ outc errs nodes'))"

definition acked :: "RpcError + unit \<Rightarrow> bool" where
  "acked r \<longleftrightarrow> r = Inr () \<or> r = Inl VersionSkipped"

text \<open>The background task: the remaining writes only feed the breakers.\<close>

fun background_writes ::
    "(nat \<Rightarrow> RpcError + unit) \<Rightarrow> (nat \<Rightarrow> u64) \<Rightarrow> nat list \<Rightarrow> BssNode list \<Rightarrow> BssNode list" where
  "background_writes res dn [] nodes = nodes"
| "background_writes res dn (i # rest) nodes =
     background_writes res dn rest
       (if acked (res i) then node_success i nodes else node_failure (dn i) i nodes)"

text \<open>The part the plain and the vectored put share, given the call to each node.\<close>

definition put_to_quorum ::
    "put_env \<Rightarrow> (nat \<Rightarrow> RpcError + unit) \<Rightarrow> VolumeWithNodes \<Rightarrow>
      (DataVgError + PutBlobOutcome) \<times> VolumeWithNodes" where
  "put_to_quorum env res vol =
     (let vol1 = vol\<lparr>inflight := inflight vol + 1\<rparr>;
          write_quorum = unat (repl_w (vol_mode vol));
          (avail, nodes1) = availability_pass (pe_clock env) 0 (bss_nodes vol);
          available_nodes = available_indices avail
      in if length available_nodes < write_quorum
         then (Inl (QuorumFailure (InsufficientNodes (length available_nodes)
                 (length (bss_nodes vol)) write_quorum)),
               vol1\<lparr>bss_nodes := nodes1, inflight := inflight vol1 - 1\<rparr>)
         else
           (let (r, pending, nodes2) =
              put_loop res (pe_done env) write_quorum (arrange (pe_order env) available_nodes)
                0 Stored [] nodes1
            in (r, vol1\<lparr>bss_nodes := background_writes res (pe_done env) pending nodes2,
                  inflight := inflight vol1 - 1\<rparr>)))"

definition put_blob_replicated ::
    "put_env \<Rightarrow> (bytes \<Rightarrow> u64) \<Rightarrow> VolumeWithNodes \<Rightarrow> DataBlobGuid \<Rightarrow> u32 \<Rightarrow> bytes \<Rightarrow> u64 \<Rightarrow>
      (DataVgError + PutBlobOutcome) \<times> VolumeWithNodes" where
  "put_blob_replicated env xxh3_64 vol guid block body version =
     (let body_checksum = xxh3_64 body
      in put_to_quorum env (\<lambda>i. put_blob_to_node env i guid block body body_checksum version 0) vol)"

text \<open>\<open>xxh3_digest\<close> is the streaming hasher fed with the chunks in order.\<close>

definition put_blob_vectored_replicated ::
    "put_env \<Rightarrow> (bytes list \<Rightarrow> u64) \<Rightarrow> VolumeWithNodes \<Rightarrow> DataBlobGuid \<Rightarrow> u32 \<Rightarrow> bytes list \<Rightarrow> u64 \<Rightarrow>
      (DataVgError + unit) \<times> VolumeWithNodes" where
  "put_blob_vectored_replicated env xxh3_digest vol guid block chunks version =
     (let body_checksum = xxh3_digest chunks;
          (r, vol') = put_to_quorum env
            (\<lambda>i. put_blob_to_node_vectored env i guid block chunks body_checksum version) vol
      in (map_sum id (\<lambda>_. ()) r, vol'))"

section \<open>Reads\<close>

record NodeBlob =
  nb_body :: bytes
  nb_cohort :: u64

record get_env =
  ge_clock1 :: "nat \<Rightarrow> u64"
  ge_pick :: nat
  ge_fast_done :: u64
  ge_clock2 :: "nat \<Rightarrow> u64"
  ge_order :: "nat list"
  ge_done :: "nat \<Rightarrow> u64"
  ge_rpc :: "bool \<Rightarrow> nat \<Rightarrow> u32 \<Rightarrow> RpcError + NodeBlob"

text \<open>
  One read from one node: a single attempt on the fast path, the bounded retry loop with
  backoffs of 5, 10 and 20 milliseconds otherwise.
\<close>

definition get_blob_from_node_instance ::
    "(u32 \<Rightarrow> RpcError + NodeBlob) \<Rightarrow> bool \<Rightarrow> RpcError + NodeBlob" where
  "get_blob_from_node_instance attempt fast_path =
     (if fast_path then attempt 0 else fst (retry_loop (\<lambda>b :: nat. b * 2) 3 0 5 attempt))"

fun get_loop ::
    "(nat \<Rightarrow> RpcError + NodeBlob) \<Rightarrow> (nat \<Rightarrow> u64) \<Rightarrow> nat \<Rightarrow> nat list \<Rightarrow> nat \<Rightarrow> BssNode list
      \<Rightarrow> (DataVgError + bytes option \<times> nat) \<times> BssNode list" where
  "get_loop res dn absence_quorum [] not_found_count nodes = (Inr (None, not_found_count), nodes)"
| "get_loop res dn absence_quorum (i # rest) not_found_count nodes =
     (case res i of
        Inr blob_data \<Rightarrow> (Inr (Some (nb_body blob_data), not_found_count), node_success i nodes)
      | Inl e \<Rightarrow>
          (if e = NotFound
           then (let nf = not_found_count + 1
                 in if absence_quorum \<le> nf then (Inl BlockNotFound, node_success i nodes)
                    else get_loop res dn absence_quorum rest nf (node_success i nodes))
           else get_loop res dn absence_quorum rest not_found_count (node_failure (dn i) i nodes)))"

definition get_blob_fallback ::
    "get_env \<Rightarrow> VolumeWithNodes \<Rightarrow> (DataVgError + bytes) \<times> VolumeWithNodes" where
  "get_blob_fallback env vol =
     (let write_quorum = unat (repl_w (vol_mode vol));
          (avail, nodes1) = availability_pass (ge_clock2 env) 0 (bss_nodes vol);
          fallback_nodes = available_indices avail
      in if fallback_nodes = []
         then (Inl (QuorumFailure NoAvailableNodes), vol\<lparr>bss_nodes := nodes1\<rparr>)
         else
           (let absence_quorum = length (bss_nodes vol) - write_quorum + 1;
                (r, nodes2) = get_loop
                  (\<lambda>i. get_blob_from_node_instance (ge_rpc env False i) False)
                  (ge_done env) absence_quorum (arrange (ge_order env) fallback_nodes) 0 nodes1
            in (case r of
                  Inl e \<Rightarrow> Inl e
                | Inr (Some body, _) \<Rightarrow> Inr body
                | Inr (None, not_found_count) \<Rightarrow>
                    (if absence_quorum \<le> not_found_count then Inl BlockNotFound
                     else Inl (QuorumFailure AllReadsFailed)),
                vol\<lparr>bss_nodes := nodes2\<rparr>)))"

definition get_blob_replicated ::
    "get_env \<Rightarrow> VolumeWithNodes \<Rightarrow> (DataVgError + bytes) \<times> VolumeWithNodes" where
  "get_blob_replicated env vol =
     (let (avail, nodes1) = availability_pass (ge_clock1 env) 0 (bss_nodes vol);
          available_nodes = available_indices avail
      in if available_nodes = [] then get_blob_fallback env (vol\<lparr>bss_nodes := nodes1\<rparr>)
         else
           (let i = available_nodes ! (ge_pick env mod length available_nodes)
            in case get_blob_from_node_instance (ge_rpc env True i) True of
                 Inr blob_data \<Rightarrow>
                   (Inr (nb_body blob_data), vol\<lparr>bss_nodes := node_success i nodes1\<rparr>)
               | Inl e \<Rightarrow>
                   get_blob_fallback env
                     (vol\<lparr>bss_nodes := if e = NotFound then node_success i nodes1
                        else node_failure (ge_fast_done env) i nodes1\<rparr>)))"

section \<open>Block listings\<close>

record BlobBlockEntry =
  be_block_number :: u32
  be_version :: u64
  be_cohort_tag :: u64

record list_env =
  le_clock :: "nat \<Rightarrow> u64"
  le_order :: "nat list"
  le_done :: "nat \<Rightarrow> u64"
  le_rpc :: "nat \<Rightarrow> RpcError + BlobBlockEntry list"

definition entry_key :: "BlobBlockEntry \<Rightarrow> u32 \<times> u64" where
  "entry_key e = (be_block_number e, be_version e)"

type_synonym block_map = "((u32 \<times> u64) \<times> BlobBlockEntry) list"

definition add_entries :: "BlobBlockEntry list \<Rightarrow> block_map \<Rightarrow> block_map" where
  "add_entries node_entries m = fold (\<lambda>e. btree_or_insert (entry_key e, e)) node_entries m"

fun list_loop ::
    "(nat \<Rightarrow> RpcError + BlobBlockEntry list) \<Rightarrow> (nat \<Rightarrow> u64) \<Rightarrow> nat \<Rightarrow> nat list \<Rightarrow> block_map
      \<Rightarrow> (string \<times> RpcError) list \<Rightarrow> nat \<Rightarrow> BssNode list
      \<Rightarrow> (DataVgError + BlobBlockEntry list) \<times> BssNode list" where
  "list_loop res dn required [] m errors successful_responses nodes =
     (if successful_responses < required
      then Inl (QuorumFailure (QuorumNotReached successful_responses required errors))
      else Inr (map snd m), nodes)"
| "list_loop res dn required (i # rest) m errors successful_responses nodes =
     (case res i of
        Inr node_entries \<Rightarrow>
          (let m' = add_entries node_entries m
           in if required \<le> successful_responses + 1 then (Inr (map snd m'), node_success i nodes)
              else list_loop res dn required rest m' errors (successful_responses + 1)
                     (node_success i nodes))
      | Inl e \<Rightarrow>
          list_loop res dn required rest m (errors @ [(address (nodes ! i), e)])
            successful_responses (node_failure (dn i) i nodes))"

fun mode_write_quorum :: "VolumeMode \<Rightarrow> nat" where
  "mode_write_quorum (Replicated n r w) = unat w"
| "mode_write_quorum (ErasureCoded k m) = unat k + 1"

definition list_blob_blocks_volume ::
    "list_env \<Rightarrow> VolumeWithNodes \<Rightarrow> bool \<Rightarrow> (DataVgError + BlobBlockEntry list) \<times> VolumeWithNodes" where
  "list_blob_blocks_volume env vol require_all_nodes =
     (let (avail, nodes1) = availability_pass (le_clock env) 0 (bss_nodes vol);
          available_nodes = available_indices avail;
          write_quorum = mode_write_quorum (vol_mode vol);
          absence_quorum = length (bss_nodes vol) - write_quorum + 1;
          required_responses = (if require_all_nodes then length (bss_nodes vol) else absence_quorum)
      in if length available_nodes < required_responses
         then (Inl (QuorumFailure (InsufficientNodes (length available_nodes)
                 (length (bss_nodes vol)) required_responses)), vol\<lparr>bss_nodes := nodes1\<rparr>)
         else
           (let (r, nodes2) = list_loop (le_rpc env) (le_done env) required_responses
                  (arrange (le_order env) available_nodes) [] [] 0 nodes1
            in (r, vol\<lparr>bss_nodes := nodes2\<rparr>)))"

section \<open>Deletes\<close>

record delete_env =
  de_clock :: "nat \<Rightarrow> u64"
  de_order :: "nat list"
  de_done :: "nat \<Rightarrow> u64"
  de_rpc :: "nat \<Rightarrow> u32 \<Rightarrow> RpcError + unit"

definition delete_result_succeeded :: "RpcError + unit \<Rightarrow> bool" where
  "delete_result_succeeded r \<longleftrightarrow> r = Inr () \<or> r = Inl NotFound"

definition delete_blob_from_node :: "(u32 \<Rightarrow> RpcError + unit) \<Rightarrow> RpcError + unit" where
  "delete_blob_from_node attempt = fst (retry_loop (\<lambda>b :: nat. b * 2) 3 0 5 attempt)"

fun delete_loop ::
    "(nat \<Rightarrow> RpcError + unit) \<Rightarrow> (nat \<Rightarrow> u64) \<Rightarrow> nat list \<Rightarrow> nat \<Rightarrow> (string \<times> RpcError) list
      \<Rightarrow> BssNode list \<Rightarrow> nat \<times> (string \<times> RpcError) list \<times> BssNode list" where
  "delete_loop res dn [] successful_deletes errors nodes = (successful_deletes, errors, nodes)"
| "delete_loop res dn (i # rest) successful_deletes errors nodes =
     (case res i of
        Inr _ \<Rightarrow> delete_loop res dn rest (successful_deletes + 1) errors (node_success i nodes)
      | Inl e \<Rightarrow>
          (if e = NotFound
           then delete_loop res dn rest (successful_deletes + 1) errors (node_success i nodes)
           else delete_loop res dn rest successful_deletes (errors @ [(address (nodes ! i), e)])
                  (node_failure (dn i) i nodes)))"

definition delete_from_all ::
    "delete_env \<Rightarrow> nat \<Rightarrow> VolumeWithNodes \<Rightarrow> (DataVgError + unit) \<times> VolumeWithNodes" where
  "delete_from_all env required_deletes vol =
     (let (avail, nodes1) = availability_pass (de_clock env) 0 (bss_nodes vol);
          available_nodes = available_indices avail
      in if length available_nodes < required_deletes
         then (Inl (QuorumFailure (InsufficientNodes (length available_nodes)
                 (length (bss_nodes vol)) required_deletes)), vol\<lparr>bss_nodes := nodes1\<rparr>)
         else
           (let (successful_deletes, errors, nodes2) =
              delete_loop (\<lambda>i. delete_blob_from_node (de_rpc env i)) (de_done env)
                (arrange (de_order env) available_nodes) 0 [] nodes1
            in (if successful_deletes = required_deletes then Inr ()
                else Inl (QuorumFailure (QuorumNotReached successful_deletes required_deletes errors)),
                vol\<lparr>bss_nodes := nodes2\<rparr>)))"

definition delete_blob_replicated ::
    "delete_env \<Rightarrow> VolumeWithNodes \<Rightarrow> (DataVgError + unit) \<times> VolumeWithNodes" where
  "delete_blob_replicated env vol = delete_from_all env (length (bss_nodes vol)) vol"

section \<open>Breaker checks and completion orders, facts\<close>

named_theorems pass_simps

lemma availability_pass_length [simp, pass_simps]:
  "length (fst (availability_pass clk k nodes)) = length nodes"
  "length (snd (availability_pass clk k nodes)) = length nodes"
  by (induction nodes arbitrary: k) (simp_all add: case_prod_unfold Let_def)

lemma availability_pass_nth:
  "i < length nodes \<Longrightarrow>
    fst (availability_pass clk k nodes) ! i = fst (is_available (clk (k + i)) (circuit_breaker (nodes ! i))) \<and>
    snd (availability_pass clk k nodes) ! i =
      (nodes ! i)\<lparr>circuit_breaker := snd (is_available (clk (k + i)) (circuit_breaker (nodes ! i)))\<rparr>"
proof (induction nodes arbitrary: k i)
  case (Cons n ns)
  then show ?case
    by (cases i) (simp_all add: case_prod_unfold Let_def)
qed simp

lemma available_indices_props [simp]:
  "distinct (available_indices avail)"
  "set (available_indices avail) = {i. i < length avail \<and> avail ! i}"
  by (auto simp: available_indices_def)

lemma available_indices_le: "length (available_indices avail) \<le> length avail"
  by (metis available_indices_def diff_zero length_filter_le length_upt)

lemma arrange_props [simp]:
  "distinct launched \<Longrightarrow> distinct (arrange order launched)"
  "set (arrange order launched) = set launched"
  by (auto simp: arrange_def)

lemma length_arrange: "distinct launched \<Longrightarrow> length (arrange order launched) = length launched"
  by (metis arrange_props distinct_card)

lemma node_update_length [simp]:
  "length (node_success i nodes) = length nodes"
  "length (node_failure now i nodes) = length nodes"
  by (simp_all add: node_success_def node_failure_def)

lemma count_distinct: "distinct xs \<Longrightarrow> length (filter P xs) = card {x \<in> set xs. P x}"
  by (metis distinct_card distinct_filter set_filter)

section \<open>Write quorums\<close>

text \<open>One round of the write loop for a result that is not a mismatch.\<close>

lemma put_loop_step:
  assumes "res i \<noteq> Inl Mismatch"
  shows "put_loop res dn w (i # rest) sw outc errs nodes =
    (let sw' = (if acked (res i) then sw + 1 else sw);
         outc' = (if res i = Inl VersionSkipped then AlreadyPresent else outc);
         errs' = (if acked (res i) then errs else errs @ [(address (nodes ! i), projl (res i))]);
         nodes' = (if acked (res i) then node_success i nodes else node_failure (dn i) i nodes)
     in if w \<le> sw' then (Inr outc', rest, nodes')
        else put_loop res dn w rest sw' outc' errs' nodes')"
  using assms by (cases "res i") (auto simp: acked_def Let_def)

lemma put_loop_mismatch:
  "res i = Inl Mismatch \<Longrightarrow> put_loop res dn w (i # rest) sw outc errs nodes =
    (Inl (BssRpc Mismatch), [], node_failure (dn i) i nodes)"
  by simp

declare put_loop.simps(2) [simp del]

lemma put_loop_ok:
  "put_loop res dn w order sw outc errs nodes = (Inr out, pending, nodes') \<Longrightarrow>
    \<exists>handled. order = handled @ pending \<and> w \<le> sw + length (filter (\<lambda>i. acked (res i)) handled) \<and>
      (\<forall>i \<in> set handled. res i \<noteq> Inl Mismatch) \<and>
      out = (if \<exists>i \<in> set handled. res i = Inl VersionSkipped then AlreadyPresent else outc)"
proof (induction order arbitrary: sw outc errs nodes)
  case (Cons i rest)
  have nm: "res i \<noteq> Inl Mismatch"
    using Cons.prems by (auto simp: put_loop_mismatch)
  let ?sw = "if acked (res i) then sw + 1 else sw"
  let ?outc = "if res i = Inl VersionSkipped then AlreadyPresent else outc"
  show ?case
  proof (cases "w \<le> ?sw")
    case True
    then have "out = ?outc" "pending = rest"
      using Cons.prems by (simp_all add: put_loop_step [of res, OF nm] Let_def)
    then show ?thesis
      using True nm by (intro exI [of _ "[i]"]) auto
  next
    case False
    then obtain errs' nodes'' where
      "put_loop res dn w rest ?sw ?outc errs' nodes'' = (Inr out, pending, nodes')"
      using Cons.prems by (simp only: put_loop_step [of res, OF nm] Let_def if_False)
    from Cons.IH [OF this] obtain h where h: "rest = h @ pending"
      "w \<le> ?sw + length (filter (\<lambda>i. acked (res i)) h)" "\<forall>i \<in> set h. res i \<noteq> Inl Mismatch"
      "out = (if \<exists>i \<in> set h. res i = Inl VersionSkipped then AlreadyPresent else ?outc)"
      by blast
    then show ?thesis
      using nm by (intro exI [of _ "i # h"]) auto
  qed
qed simp

lemma put_loop_iff:
  assumes "\<forall>i \<in> set order. res i \<noteq> Inl Mismatch" and "sw < w"
  shows "(\<exists>out. fst (put_loop res dn w order sw outc errs nodes) = Inr out) \<longleftrightarrow>
    w \<le> sw + length (filter (\<lambda>i. acked (res i)) order)"
  using assms
proof (induction order arbitrary: sw outc errs nodes)
  case (Cons i rest)
  then have nm: "res i \<noteq> Inl Mismatch" by simp
  show ?case
  proof (cases "acked (res i) \<and> w \<le> sw + 1")
    case True
    then show ?thesis by (simp add: put_loop_step [of res, OF nm] Let_def)
  next
    case False
    then have "(if acked (res i) then sw + 1 else sw) < w"
      using Cons.prems by auto
    then show ?thesis
      using Cons by (auto simp: put_loop_step [of res, OF nm] Let_def not_le)
  qed
qed simp

lemma put_loop_mismatch_only:
  "fst (put_loop res dn w order sw outc errs nodes) = Inl (BssRpc e) \<Longrightarrow>
    e = Mismatch \<and> (\<exists>i \<in> set order. res i = Inl Mismatch)"
proof (induction order arbitrary: sw outc errs nodes)
  case (Cons i rest)
  show ?case
  proof (cases "res i = Inl Mismatch")
    case False
    then show ?thesis
      using Cons by (auto simp: put_loop_step Let_def split: if_splits)
  qed (use Cons.prems in \<open>simp add: put_loop_mismatch\<close>)
qed simp

text \<open>The nodes an operation may call: those whose breaker admits it.\<close>

definition admitted :: "(nat \<Rightarrow> u64) \<Rightarrow> BssNode list \<Rightarrow> nat set" where
  "admitted clk nodes = {i. i < length nodes \<and> fst (is_available (clk i) (circuit_breaker (nodes ! i)))}"

lemma admitted_indices:
  "set (available_indices (fst (availability_pass clk 0 nodes))) = admitted clk nodes"
  using availability_pass_nth [of _ nodes clk 0] by (auto simp: admitted_def)

lemma admitted_card:
  "length (available_indices (fst (availability_pass clk 0 nodes))) = card (admitted clk nodes)"
  by (metis admitted_indices available_indices_props(1) distinct_card)

lemma admitted_finite [simp]: "finite (admitted clk nodes)"
  by (simp add: admitted_def)

text \<open>The order in which the calls to the admitted nodes complete.\<close>

definition launch_order :: "(nat \<Rightarrow> u64) \<Rightarrow> nat list \<Rightarrow> BssNode list \<Rightarrow> nat list" where
  "launch_order clk order nodes =
     arrange order (available_indices (fst (availability_pass clk 0 nodes)))"

lemma launch_order_props [simp]:
  "distinct (launch_order clk order nodes)"
  "set (launch_order clk order nodes) = admitted clk nodes"
  "length (launch_order clk order nodes) = card (admitted clk nodes)"
  by (simp_all add: launch_order_def length_arrange admitted_card admitted_indices
      del: available_indices_props(2))

lemma put_to_quorum_unfold:
  "put_to_quorum env res vol =
    (let w = unat (repl_w (vol_mode vol));
         nodes1 = snd (availability_pass (pe_clock env) 0 (bss_nodes vol));
         l = put_loop res (pe_done env) w
               (launch_order (pe_clock env) (pe_order env) (bss_nodes vol)) 0 Stored [] nodes1
     in if card (admitted (pe_clock env) (bss_nodes vol)) < w
        then (Inl (QuorumFailure (InsufficientNodes (card (admitted (pe_clock env) (bss_nodes vol)))
                (length (bss_nodes vol)) w)), vol\<lparr>bss_nodes := nodes1\<rparr>)
        else (fst l, vol\<lparr>bss_nodes :=
                background_writes res (pe_done env) (fst (snd l)) (snd (snd l))\<rparr>))"
  by (simp add: put_to_quorum_def Let_def case_prod_unfold admitted_card launch_order_def)

lemma put_to_quorum_ok:
  assumes "fst (put_to_quorum env res vol) = Inr out"
  shows "\<exists>H \<subseteq> admitted (pe_clock env) (bss_nodes vol).
    unat (repl_w (vol_mode vol)) \<le> card {i \<in> H. acked (res i)} \<and>
    (\<forall>i \<in> H. res i \<noteq> Inl Mismatch) \<and>
    out = (if \<exists>i \<in> H. res i = Inl VersionSkipped then AlreadyPresent else Stored)"
proof -
  let ?w = "unat (repl_w (vol_mode vol))"
  let ?order = "launch_order (pe_clock env) (pe_order env) (bss_nodes vol)"
  let ?nodes1 = "snd (availability_pass (pe_clock env) 0 (bss_nodes vol))"
  have "fst (put_loop res (pe_done env) ?w ?order 0 Stored [] ?nodes1) = Inr out"
    using assms by (auto simp: put_to_quorum_unfold Let_def split: if_splits)
  then obtain pending nodes' where
    "put_loop res (pe_done env) ?w ?order 0 Stored [] ?nodes1 = (Inr out, pending, nodes')"
    by (metis prod.collapse)
  from put_loop_ok [OF this] obtain h where h: "?order = h @ pending"
    "?w \<le> length (filter (\<lambda>i. acked (res i)) h)" "\<forall>i \<in> set h. res i \<noteq> Inl Mismatch"
    "out = (if \<exists>i \<in> set h. res i = Inl VersionSkipped then AlreadyPresent else Stored)"
    by auto
  have "distinct h" "set h \<subseteq> admitted (pe_clock env) (bss_nodes vol)"
    using launch_order_props(1,2) [of "pe_clock env" "pe_order env" "bss_nodes vol"]
    unfolding h(1) by auto
  then show ?thesis
    using h(2-4) by (intro exI [of _ "set h"]) (simp add: count_distinct)
qed

lemma put_to_quorum_state [simp]:
  "inflight (snd (put_to_quorum env res vol)) = inflight vol"
  "vol_id (snd (put_to_quorum env res vol)) = vol_id vol"
  "vol_mode (snd (put_to_quorum env res vol)) = vol_mode vol"
  by (simp_all add: put_to_quorum_unfold Let_def)

lemma background_writes_length [simp]:
  "length (background_writes res dn pending nodes) = length nodes"
  by (induction pending arbitrary: nodes) simp_all

lemma put_loop_length [simp]:
  "length (snd (snd (put_loop res dn w order sw outc errs nodes))) = length nodes"
proof (induction order arbitrary: sw outc errs nodes)
  case (Cons i rest)
  then show ?case
    by (cases "res i = Inl Mismatch") (simp_all add: put_loop_mismatch put_loop_step Let_def)
qed simp

lemma put_to_quorum_nodes [simp]:
  "length (bss_nodes (snd (put_to_quorum env res vol))) = length (bss_nodes vol)"
  by (simp add: put_to_quorum_unfold Let_def)

lemma put_to_quorum_rpc_error:
  "fst (put_to_quorum env res vol) = Inl (BssRpc e) \<Longrightarrow>
    e = Mismatch \<and> (\<exists>i < length (bss_nodes vol). res i = Inl Mismatch)"
  by (auto simp: put_to_quorum_unfold Let_def admitted_def split: if_splits
      dest!: put_loop_mismatch_only)

lemma put_to_quorum_iff:
  assumes "\<forall>i \<in> admitted (pe_clock env) (bss_nodes vol). res i \<noteq> Inl Mismatch"
    and "0 < unat (repl_w (vol_mode vol))"
  shows "(\<exists>out. fst (put_to_quorum env res vol) = Inr out) \<longleftrightarrow>
    unat (repl_w (vol_mode vol)) \<le> card {i \<in> admitted (pe_clock env) (bss_nodes vol). acked (res i)}"
proof -
  let ?A = "admitted (pe_clock env) (bss_nodes vol)"
  let ?w = "unat (repl_w (vol_mode vol))"
  let ?nodes1 = "snd (availability_pass (pe_clock env) 0 (bss_nodes vol))"
  have "card {i \<in> ?A. acked (res i)} \<le> card ?A"
    by (intro card_mono) auto
  moreover have "(\<exists>out. fst (put_loop res (pe_done env) ?w
      (launch_order (pe_clock env) (pe_order env) (bss_nodes vol)) 0 Stored [] ?nodes1) = Inr out) \<longleftrightarrow>
    ?w \<le> card {i \<in> ?A. acked (res i)}"
    using assms by (subst put_loop_iff) (simp_all add: count_distinct)
  ultimately show ?thesis
    by (simp add: put_to_quorum_unfold Let_def)
qed

text \<open>The answer of node \<open>i\<close> to a replicated put of one block.\<close>

definition put_answer ::
    "put_env \<Rightarrow> (bytes \<Rightarrow> u64) \<Rightarrow> DataBlobGuid \<Rightarrow> u32 \<Rightarrow> bytes \<Rightarrow> u64 \<Rightarrow> nat \<Rightarrow> RpcError + unit" where
  "put_answer env xxh3_64 guid block body version i =
     pe_rpc env i \<lparr>pr_guid = guid, pr_block = block, pr_body = body, pr_checksum = xxh3_64 body,
       pr_version = version, pr_cohort = 0\<rparr>"

lemma put_blob_replicated_eq:
  "put_blob_replicated env xxh3_64 vol guid block body version =
    put_to_quorum env (put_answer env xxh3_64 guid block body version) vol"
  by (simp add: put_blob_replicated_def put_blob_to_node_def put_answer_def [abs_def] Let_def)

text \<open>
  C12. A successful put is held by a write quorum. If the replicated put returns \<open>Ok\<close>, at least
  \<open>w\<close> different nodes of the volume acknowledged the write, with success or with the answer
  that they already hold the key; \<open>Stored\<close> is only reported if \<open>w\<close> nodes stored the caller's
  bytes. A mismatch answered by one node is the only RPC error passed on. When no node
  answers a mismatch, the put succeeds exactly if \<open>w\<close> of the nodes whose breaker admits the
  call acknowledge. The count of writes in flight and the placement are as before.
\<close>

theorem put_blob_write_quorum:
  fixes env :: put_env and xxh3_64 guid block body version
  defines "ans \<equiv> put_answer env xxh3_64 guid block body version"
  assumes "vol_mode vol = Replicated n rq w" "0 < w"
    and "put_blob_replicated env xxh3_64 vol guid block body version = (r, vol')"
  shows "(r = Inr out \<longrightarrow> unat w \<le> card {i. i < length (bss_nodes vol) \<and> acked (ans i)}) \<and>
    (r = Inr Stored \<longrightarrow> unat w \<le> card {i. i < length (bss_nodes vol) \<and> ans i = Inr ()}) \<and>
    (r = Inl (BssRpc e) \<longrightarrow> e = Mismatch \<and> (\<exists>i < length (bss_nodes vol). ans i = Inl Mismatch)) \<and>
    ((\<forall>i \<in> admitted (pe_clock env) (bss_nodes vol). ans i \<noteq> Inl Mismatch) \<longrightarrow>
      ((\<exists>x. r = Inr x) \<longleftrightarrow>
        unat w \<le> card {i \<in> admitted (pe_clock env) (bss_nodes vol). acked (ans i)})) \<and>
    inflight vol' = inflight vol \<and> length (bss_nodes vol') = length (bss_nodes vol)"
proof -
  have run: "put_to_quorum env ans vol = (r, vol')"
    using assms(4) by (simp add: put_blob_replicated_eq ans_def)
  have w: "unat (repl_w (vol_mode vol)) = unat w" "0 < unat w"
    using assms(2,3) by (simp_all add: word_less_nat_alt)
  have sub: "card {i \<in> H. acked (ans i)} \<le> card {i. i < length (bss_nodes vol) \<and> Q i}"
    if "H \<subseteq> admitted (pe_clock env) (bss_nodes vol)" "\<forall>i \<in> H. acked (ans i) \<longrightarrow> Q i" for H Q
    using that by (intro card_mono) (auto simp: admitted_def)
  have ok: "unat w \<le> card {i. i < length (bss_nodes vol) \<and> acked (ans i)}" if r: "r = Inr out"
  proof -
    obtain H where "H \<subseteq> admitted (pe_clock env) (bss_nodes vol)"
      "unat w \<le> card {i \<in> H. acked (ans i)}"
      using put_to_quorum_ok [of env ans vol out] run r w(1) by auto
    then show ?thesis
      using sub [of H "\<lambda>i. acked (ans i)"] by simp
  qed
  have stored: "unat w \<le> card {i. i < length (bss_nodes vol) \<and> ans i = Inr ()}" if r: "r = Inr Stored"
  proof -
    obtain H where H: "H \<subseteq> admitted (pe_clock env) (bss_nodes vol)"
      "unat w \<le> card {i \<in> H. acked (ans i)}" "\<forall>i \<in> H. ans i \<noteq> Inl VersionSkipped"
      using put_to_quorum_ok [of env ans vol Stored] run r w(1) by (auto split: if_splits)
    then have "\<forall>i \<in> H. acked (ans i) \<longrightarrow> ans i = Inr ()"
      by (auto simp: acked_def)
    then show ?thesis
      using sub [of H "\<lambda>i. ans i = Inr ()"] H by simp
  qed
  have iff: "(\<exists>x. r = Inr x) \<longleftrightarrow>
      unat w \<le> card {i \<in> admitted (pe_clock env) (bss_nodes vol). acked (ans i)}"
    if "\<forall>i \<in> admitted (pe_clock env) (bss_nodes vol). ans i \<noteq> Inl Mismatch"
    using put_to_quorum_iff [OF that] w run by simp
  have "r = Inl (BssRpc e) \<longrightarrow> e = Mismatch \<and> (\<exists>i < length (bss_nodes vol). ans i = Inl Mismatch)"
    using put_to_quorum_rpc_error [of env ans vol e] run by auto
  moreover have "inflight vol' = inflight vol" "length (bss_nodes vol') = length (bss_nodes vol)"
    using put_to_quorum_state(1) [of env ans vol] put_to_quorum_nodes [of env ans vol] run
    by simp_all
  ultimately show ?thesis
    using ok stored iff by blast
qed

text \<open>A three-node volume with write quorum two, and a put where one node is down.\<close>

definition sample_volume :: VolumeWithNodes where
  "sample_volume = \<lparr>vol_id = 1,
     bss_nodes = map (\<lambda>a. bss_node_new a default_config) [''a'', ''b'', ''c''],
     vol_mode = Replicated 3 2 2, inflight = 0\<rparr>"

definition sample_guid :: DataBlobGuid where
  "sample_guid = \<lparr>blob_id = 9, volume_id = 1\<rparr>"

definition sample_put :: put_env where
  "sample_put = \<lparr>pe_clock = (\<lambda>_. 0), pe_order = [2, 1, 0], pe_done = (\<lambda>_. 0),
     pe_rpc = (\<lambda>i _. if i = 2 then Inl ConnectionClosed else Inr ())\<rparr>"

lemma sample_put_run:
  "fst (put_blob_replicated sample_put (\<lambda>_. 7) sample_volume sample_guid 0 [1] 1) = Inr Stored"
  by code_simp

theorem put_blob_write_quorum_witness:
  "let run = put_blob_replicated sample_put (\<lambda>_. 7) sample_volume sample_guid 0 [1] 1
   in fst run = Inr Stored \<and>
      2 \<le> card {i. i < 3 \<and> put_answer sample_put (\<lambda>_. 7) sample_guid 0 [1] 1 i = Inr ()} \<and>
      inflight (snd run) = 0"
proof -
  let ?run = "put_blob_replicated sample_put (\<lambda>_. 7) sample_volume sample_guid 0 [1] 1"
  have vol: "vol_mode sample_volume = Replicated 3 2 2" "(0::u32) < 2"
    "length (bss_nodes sample_volume) = 3" "inflight sample_volume = 0"
    by (simp_all add: sample_volume_def)
  have "?run = (fst ?run, snd ?run)" by simp
  from put_blob_write_quorum [OF vol(1,2) this, of Stored Mismatch] show ?thesis
    using sample_put_run vol(3,4) by (simp add: Let_def)
qed

text \<open>
  The vectored put is the plain put of the concatenated chunks: given that the streaming
  hasher agrees with the one-shot hash, both send every node the same request, return the
  same result and leave the volume in the same state.
\<close>

theorem put_blob_vectored_equiv:
  assumes "\<And>cs. xxh3_digest cs = xxh3_64 (concat cs)"
  shows "put_blob_vectored_replicated env xxh3_digest vol guid block chunks version =
    apfst (map_sum id (\<lambda>_. ()))
      (put_blob_replicated env xxh3_64 vol guid block (concat chunks) version)"
  by (simp add: put_blob_vectored_replicated_def put_blob_replicated_def put_blob_to_node_def
      put_blob_to_node_vectored_def assms Let_def case_prod_unfold apfst_def map_prod_def)

theorem put_blob_vectored_equiv_witness:
  "put_blob_vectored_replicated sample_put (\<lambda>cs. of_nat (length (concat cs))) sample_volume
     sample_guid 0 [[1], [2, 3]] 1 =
   apfst (map_sum id (\<lambda>_. ()))
     (put_blob_replicated sample_put (\<lambda>b. of_nat (length b)) sample_volume sample_guid 0
       (concat [[1], [2, 3]]) 1)"
  by (rule put_blob_vectored_equiv) simp

section \<open>Read quorums\<close>

lemma node_instance_attempt: "\<exists>c. get_blob_from_node_instance attempt fast = attempt c"
  using retry_loop_spec [of 3 "\<lambda>b :: nat. b * 2" 0 5 attempt]
  by (auto simp: get_blob_from_node_instance_def)

lemma get_loop_error:
  "fst (get_loop res dn q order nf nodes) = Inl e \<Longrightarrow>
    e = BlockNotFound \<and> q \<le> nf + length (filter (\<lambda>i. res i = Inl NotFound) order)"
proof (induction order arbitrary: nf nodes)
  case (Cons i rest)
  show ?case
  proof (cases "res i")
    case (Inl x)
    show ?thesis
    proof (cases "x = NotFound \<and> q \<le> nf + 1")
      case True
      then show ?thesis using Cons.prems Inl by (simp add: Let_def)
    next
      case False
      then show ?thesis
        using Cons Inl by (fastforce simp: Let_def split: if_splits)
    qed
  qed (use Cons.prems in simp)
qed simp

lemma get_loop_found:
  "fst (get_loop res dn q order nf nodes) = Inr (Some b, x) \<Longrightarrow>
    \<exists>i \<in> set order. \<exists>blob. res i = Inr blob \<and> b = nb_body blob"
proof (induction order arbitrary: nf nodes)
  case (Cons i rest)
  then show ?case
    by (cases "res i") (auto simp: Let_def split: if_splits)
qed simp

lemma get_loop_exhausted:
  "fst (get_loop res dn q order nf nodes) = Inr (None, x) \<Longrightarrow>
    (\<forall>i \<in> set order. \<exists>e. res i = Inl e) \<and>
    x = nf + length (filter (\<lambda>i. res i = Inl NotFound) order)"
proof (induction order arbitrary: nf nodes)
  case (Cons i rest)
  then show ?case
    by (cases "res i") (fastforce simp: Let_def split: if_splits)+
qed simp

text \<open>The answer of node \<open>i\<close> to the fallback read, after its retries.\<close>

definition fallback_answer :: "get_env \<Rightarrow> nat \<Rightarrow> RpcError + NodeBlob" where
  "fallback_answer env i = get_blob_from_node_instance (ge_rpc env False i) False"

definition absence_quorum_of :: "VolumeWithNodes \<Rightarrow> nat" where
  "absence_quorum_of vol = length (bss_nodes vol) - unat (repl_w (vol_mode vol)) + 1"

lemma get_blob_fallback_unfold:
  "fst (get_blob_fallback env vol) =
    (if admitted (ge_clock2 env) (bss_nodes vol) = {} then Inl (QuorumFailure NoAvailableNodes)
     else case fst (get_loop (fallback_answer env) (ge_done env) (absence_quorum_of vol)
         (launch_order (ge_clock2 env) (ge_order env) (bss_nodes vol)) 0
         (snd (availability_pass (ge_clock2 env) 0 (bss_nodes vol)))) of
       Inl e \<Rightarrow> Inl e
     | Inr (Some body, _) \<Rightarrow> Inr body
     | Inr (None, nf) \<Rightarrow> if absence_quorum_of vol \<le> nf then Inl BlockNotFound
                        else Inl (QuorumFailure AllReadsFailed))"
proof -
  have "available_indices (fst (availability_pass (ge_clock2 env) 0 (bss_nodes vol))) = [] \<longleftrightarrow>
      admitted (ge_clock2 env) (bss_nodes vol) = {}"
    by (metis admitted_indices set_empty)
  then show ?thesis
    unfolding get_blob_fallback_def Let_def launch_order_def fallback_answer_def [abs_def]
      absence_quorum_of_def
    by (simp add: case_prod_unfold)
qed

lemma get_blob_fallback_cases:
  fixes env :: get_env and vol
  defines "A \<equiv> admitted (ge_clock2 env) (bss_nodes vol)"
  shows "case fst (get_blob_fallback env vol) of
      Inr b \<Rightarrow> \<exists>i \<in> A. \<exists>blob. fallback_answer env i = Inr blob \<and> b = nb_body blob
    | Inl e \<Rightarrow>
        e = BlockNotFound \<and> absence_quorum_of vol \<le> card {i \<in> A. fallback_answer env i = Inl NotFound} \<or>
        e = QuorumFailure NoAvailableNodes \<and> A = {} \<or>
        e = QuorumFailure AllReadsFailed \<and> (\<forall>i \<in> A. \<exists>x. fallback_answer env i = Inl x)"
proof -
  let ?order = "launch_order (ge_clock2 env) (ge_order env) (bss_nodes vol)"
  let ?l = "fst (get_loop (fallback_answer env) (ge_done env) (absence_quorum_of vol) ?order 0
         (snd (availability_pass (ge_clock2 env) 0 (bss_nodes vol))))"
  have count: "length (filter (\<lambda>i. fallback_answer env i = Inl NotFound) ?order) =
      card {i \<in> A. fallback_answer env i = Inl NotFound}"
    by (simp add: count_distinct A_def)
  consider e where "?l = Inl e" | b x where "?l = Inr (Some b, x)" | x where "?l = Inr (None, x)"
    by (metis old.sum.exhaust option.exhaust surj_pair)
  then show ?thesis
  proof cases
    case (1 e)
    then show ?thesis
      using get_loop_error [OF 1] count by (auto simp: get_blob_fallback_unfold A_def)
  next
    case (2 b x)
    then show ?thesis
      using get_loop_found [OF 2] by (auto simp: get_blob_fallback_unfold A_def)
  next
    case (3 x)
    then show ?thesis
      using get_loop_exhausted [OF 3] count by (auto simp: get_blob_fallback_unfold A_def)
  qed
qed

text \<open>The state of the volume after the fast path failed to produce the block.\<close>

definition after_fast :: "get_env \<Rightarrow> VolumeWithNodes \<Rightarrow> VolumeWithNodes" where
  "after_fast env vol =
     (let (avail, nodes1) = availability_pass (ge_clock1 env) 0 (bss_nodes vol);
          available_nodes = available_indices avail;
          i = available_nodes ! (ge_pick env mod length available_nodes)
      in if available_nodes = [] then vol\<lparr>bss_nodes := nodes1\<rparr>
         else vol\<lparr>bss_nodes :=
                (if ge_rpc env True i 0 = Inl NotFound then node_success i nodes1
                 else node_failure (ge_fast_done env) i nodes1)\<rparr>)"

lemma get_blob_replicated_cases:
  "(\<exists>i blob. i < length (bss_nodes vol) \<and> ge_rpc env True i 0 = Inr blob \<and>
      fst (get_blob_replicated env vol) = Inr (nb_body blob)) \<or>
   fst (get_blob_replicated env vol) = fst (get_blob_fallback env (after_fast env vol))"
proof -
  let ?av = "available_indices (fst (availability_pass (ge_clock1 env) 0 (bss_nodes vol)))"
  let ?i = "?av ! (ge_pick env mod length ?av)"
  have "?i < length (bss_nodes vol)" if "?av \<noteq> []"
  proof -
    have "?i \<in> set ?av"
      using that by (intro nth_mem mod_less_divisor) simp
    then show ?thesis by simp
  qed
  then show ?thesis
    by (cases "ge_rpc env True ?i 0")
      (auto simp: get_blob_replicated_def after_fast_def Let_def case_prod_unfold
        get_blob_from_node_instance_def)
qed

lemma after_fast_simps [simp]:
  "length (bss_nodes (after_fast env vol)) = length (bss_nodes vol)"
  "vol_mode (after_fast env vol) = vol_mode vol"
  "absence_quorum_of (after_fast env vol) = absence_quorum_of vol"
  by (simp_all add: after_fast_def absence_quorum_of_def Let_def case_prod_unfold)

lemma fallback_answer_attempt: "\<exists>c. fallback_answer env i = ge_rpc env False i c"
  using node_instance_attempt by (auto simp: fallback_answer_def)

text \<open>A breaker found closed stays closed unless this operation reports a failure.\<close>

definition breaker_closed :: "BssNode \<Rightarrow> bool" where
  "breaker_closed n \<longleftrightarrow> circuit_from (cb_state (circuit_breaker n)) = Closed"

lemma closed_pass:
  assumes "i < length nodes" "breaker_closed (nodes ! i)"
  shows "fst (is_available now (circuit_breaker (nodes ! i)))"
    "breaker_closed (snd (availability_pass clk k nodes) ! i)"
  using assms availability_pass_nth [of i nodes clk k]
  by (auto simp: breaker_closed_def is_available_def)

lemma closed_updates:
  assumes "i < length nodes" "breaker_closed (nodes ! i)"
  shows "breaker_closed (node_success j nodes ! i)" "i \<noteq> j \<Longrightarrow> breaker_closed (node_failure now j nodes ! i)"
  using assms
  by (cases "i = j"; auto simp: breaker_closed_def node_success_def node_failure_def
      record_success_def)+

lemma fast_or_admitted:
  assumes "i < length (bss_nodes vol)" "breaker_closed (bss_nodes vol ! i)"
    and "ge_rpc env True i 0 = Inr blob"
  shows "(\<exists>j b. ge_rpc env True j 0 = Inr b \<and> fst (get_blob_replicated env vol) = Inr (nb_body b)) \<or>
    fst (get_blob_replicated env vol) = fst (get_blob_fallback env (after_fast env vol)) \<and>
    i \<in> admitted (ge_clock2 env) (bss_nodes (after_fast env vol))"
proof -
  let ?n1 = "snd (availability_pass (ge_clock1 env) 0 (bss_nodes vol))"
  let ?av = "available_indices (fst (availability_pass (ge_clock1 env) 0 (bss_nodes vol)))"
  let ?p = "?av ! (ge_pick env mod length ?av)"
  have c: "i < length ?n1" "breaker_closed (?n1 ! i)"
    using assms(1,2) closed_pass by auto
  show ?thesis
  proof (cases "ge_rpc env True ?p 0")
    case (Inr b)
    have "i \<in> admitted (ge_clock1 env) (bss_nodes vol)"
      using assms(1,2) closed_pass(1) by (simp add: admitted_def)
    then have "?av \<noteq> []"
      by (metis admitted_indices empty_iff set_empty)
    then have "fst (get_blob_replicated env vol) = Inr (nb_body b)"
      using Inr by (simp add: get_blob_replicated_def Let_def case_prod_unfold
          get_blob_from_node_instance_def)
    then show ?thesis using Inr by blast
  next
    case (Inl e)
    then have "?p \<noteq> i" using assms(3) by auto
    then have "breaker_closed (bss_nodes (after_fast env vol) ! i)"
      using closed_updates [OF c] c by (auto simp: after_fast_def Let_def case_prod_unfold)
    then have "i \<in> admitted (ge_clock2 env) (bss_nodes (after_fast env vol))"
      using assms(1) closed_pass(1) [of i "bss_nodes (after_fast env vol)"]
      by (simp add: admitted_def)
    then show ?thesis
      using get_blob_replicated_cases [of vol env] by blast
  qed
qed

text \<open>
  What the code relies on of the nodes between a put and a later read of the same key:
  \<open>holds i\<close> says that node \<open>i\<close> has the block when it answers the read. A node that
  acknowledged the put has it, a node that has it never answers \<open>NotFound\<close>, and a body
  returned for the write-once key is the one that was put.
\<close>

definition nodes_keep_block ::
    "put_env \<Rightarrow> (bytes \<Rightarrow> u64) \<Rightarrow> DataBlobGuid \<Rightarrow> u32 \<Rightarrow> bytes \<Rightarrow> u64 \<Rightarrow> get_env \<Rightarrow> (nat \<Rightarrow> bool) \<Rightarrow> bool" where
  "nodes_keep_block penv xxh3_64 guid block body version genv holds \<longleftrightarrow>
     (\<forall>i. acked (put_answer penv xxh3_64 guid block body version i) \<longrightarrow> holds i) \<and>
     (\<forall>fast i a. holds i \<longrightarrow> ge_rpc genv fast i a \<noteq> Inl NotFound) \<and>
     (\<forall>fast i a blob. ge_rpc genv fast i a = Inr blob \<longrightarrow> nb_body blob = body)"

lemma absence_quorum_intersects:
  assumes "w \<le> n" "0 < w" "w \<le> card {i. i < n \<and> P i}" "A \<subseteq> {i. i < n \<and> \<not> P i}"
  shows "\<not> n - w + 1 \<le> card A"
proof -
  have "card A \<le> card {i. i < n \<and> \<not> P i}"
    using assms(4) by (intro card_mono) auto
  moreover have "card {i. i < n \<and> P i} + card {i. i < n \<and> \<not> P i} = n"
  proof -
    have "card ({i. i < n \<and> P i} \<union> {i. i < n \<and> \<not> P i}) =
        card {i. i < n \<and> P i} + card {i. i < n \<and> \<not> P i}"
      by (rule card_Un_disjoint) auto
    moreover have "{i. i < n \<and> P i} \<union> {i. i < n \<and> \<not> P i} = {..<n}" by auto
    ultimately show ?thesis by simp
  qed
  ultimately show ?thesis
    using assms(1-3) by linarith
qed

lemma put_blob_write_quorum_acks:
  assumes "vol_mode vol = Replicated n rq w"
    and "put_blob_replicated penv xxh3_64 vol guid block body version = (Inr out, vol1)"
  shows "unat w \<le> card {i. i < length (bss_nodes vol) \<and>
    acked (put_answer penv xxh3_64 guid block body version i)}"
proof -
  obtain H where "H \<subseteq> admitted (pe_clock penv) (bss_nodes vol)"
    "unat w \<le> card {i \<in> H. acked (put_answer penv xxh3_64 guid block body version i)}"
    using put_to_quorum_ok [of penv "put_answer penv xxh3_64 guid block body version" vol out] assms
    by (auto simp: put_blob_replicated_eq)
  moreover from this(1) have "card {i \<in> H. acked (put_answer penv xxh3_64 guid block body version i)} \<le>
      card {i. i < length (bss_nodes vol) \<and> acked (put_answer penv xxh3_64 guid block body version i)}"
    by (intro card_mono) (auto simp: admitted_def)
  ultimately show ?thesis by linarith
qed

lemma replicated_read_back:
  assumes "volume_ok vol" "vol_mode vol = Replicated n rq w"
    and "put_blob_replicated penv xxh3_64 vol guid block body version = (Inr out, vol1)"
    and "vol_mode vol2 = vol_mode vol" "length (bss_nodes vol2) = length (bss_nodes vol)"
    and "nodes_keep_block penv xxh3_64 guid block body version genv holds"
  shows "fst (get_blob_replicated genv vol2) \<noteq> Inl BlockNotFound \<and>
    (fst (get_blob_replicated genv vol2) = Inr b \<longrightarrow> b = body) \<and>
    (i < length (bss_nodes vol) \<and> breaker_closed (bss_nodes vol2 ! i) \<and>
       (\<forall>fast a. \<exists>blob. ge_rpc genv fast i a = Inr blob) \<longrightarrow>
     fst (get_blob_replicated genv vol2) = Inr body)"
proof -
  let ?get = "fst (get_blob_replicated genv vol2)"
  let ?fb = "fst (get_blob_fallback genv (after_fast genv vol2))"
  let ?A = "admitted (ge_clock2 genv) (bss_nodes (after_fast genv vol2))"
  note keep = assms(6) [unfolded nodes_keep_block_def]
  have w: "0 < unat w" "unat w \<le> length (bss_nodes vol)"
    using assms(1,2) by (simp_all add: volume_ok_def word_less_nat_alt)
  have fbcases: "case ?fb of
      Inr b \<Rightarrow> \<exists>i \<in> ?A. \<exists>blob. fallback_answer genv i = Inr blob \<and> b = nb_body blob
    | Inl e \<Rightarrow> e = BlockNotFound \<and>
          absence_quorum_of vol2 \<le> card {i \<in> ?A. fallback_answer genv i = Inl NotFound} \<or>
        e = QuorumFailure NoAvailableNodes \<and> ?A = {} \<or>
        e = QuorumFailure AllReadsFailed \<and> (\<forall>i \<in> ?A. \<exists>x. fallback_answer genv i = Inl x)"
    using get_blob_fallback_cases [of "after_fast genv vol2" genv]
    unfolding after_fast_simps(3) .
  have "unat w \<le> card {i. i < length (bss_nodes vol) \<and>
      acked (put_answer penv xxh3_64 guid block body version i)}"
    using put_blob_write_quorum_acks [OF assms(2,3)] .
  moreover have "{i \<in> ?A. fallback_answer genv i = Inl NotFound} \<subseteq>
      {i. i < length (bss_nodes vol) \<and> \<not> acked (put_answer penv xxh3_64 guid block body version i)}"
  proof (rule subsetI, simp, elim conjE, intro conjI notI)
    fix i assume i: "i \<in> ?A" "fallback_answer genv i = Inl NotFound"
    from i(1) show "i < length (bss_nodes vol)"
      using assms(5) by (simp add: admitted_def)
    assume "acked (put_answer penv xxh3_64 guid block body version i)"
    then have "holds i" using keep by blast
    then show False
      using keep i(2) fallback_answer_attempt [of genv i] by metis
  qed
  ultimately have absent: "\<not> absence_quorum_of vol2 \<le> card {i \<in> ?A. fallback_answer genv i = Inl NotFound}"
    using absence_quorum_intersects [OF w(2,1)] assms(2,4,5) by (simp add: absence_quorum_of_def)
  have fbbody: "?fb \<noteq> Inl BlockNotFound" "?fb = Inr b \<Longrightarrow> b = body" for b
    using fbcases absent keep fallback_answer_attempt [of genv] by (auto, metis)
  have part: "?get \<noteq> Inl BlockNotFound" "?get = Inr b \<Longrightarrow> b = body" for b
    using get_blob_replicated_cases [of vol2 genv] fbbody keep by auto
  have "?get = Inr body" if i: "i < length (bss_nodes vol)" "breaker_closed (bss_nodes vol2 ! i)"
    "\<forall>fast a. \<exists>blob. ge_rpc genv fast i a = Inr blob"
  proof -
    obtain blob where "ge_rpc genv True i 0 = Inr blob" using i(3) by blast
    moreover have "i < length (bss_nodes vol2)" using i(1) assms(5) by simp
    ultimately consider b where "?get = Inr b" | "?get = ?fb" "i \<in> ?A"
      using fast_or_admitted [of i vol2 genv blob] i(2) by blast
    then show ?thesis
    proof cases
      case (1 b)
      then show ?thesis using part(2) by simp
    next
      case 2
      have "\<not> (\<exists>x. fallback_answer genv i = Inl x)"
        using i(3) fallback_answer_attempt [of genv i] by (metis sum.distinct(1))
      then have "\<exists>b. ?fb = Inr b"
        using fbcases absent 2(2) by (cases ?fb) auto
      then show ?thesis
        using 2(1) part(2) by auto
    qed
  qed
  then show ?thesis
    using part by blast
qed


definition sample_get :: get_env where
  "sample_get = \<lparr>ge_clock1 = (\<lambda>_. 1), ge_pick = 2, ge_fast_done = 1, ge_clock2 = (\<lambda>_. 1),
     ge_order = [2, 0, 1], ge_done = (\<lambda>_. 1),
     ge_rpc = (\<lambda>_ i _. if i = 2 then Inl NotFound else Inr \<lparr>nb_body = [1], nb_cohort = 0\<rparr>)\<rparr>"


section \<open>Listings\<close>

lemma add_entries_eq:
  "add_entries es m = fold btree.or_insert (map (\<lambda>e. (entry_key e, e)) es) m"
  by (simp add: add_entries_def fold_map comp_def btree_or_insert_eq)

lemma fold_add_entries:
  "fold add_entries ess m = add_entries (concat ess) m"
  by (induction ess arbitrary: m) (simp_all add: add_entries_def)

definition answered :: "(nat \<Rightarrow> RpcError + 'a) \<Rightarrow> nat list \<Rightarrow> bool" where
  "answered res H \<longleftrightarrow> (\<forall>i \<in> set H. \<exists>x. res i = Inr x)"

text \<open>The listing loop merges the answers of the first \<open>required\<close> nodes that answer.\<close>

lemma list_loop_ok:
  "fst (list_loop res dn req order m errs sr nodes) = Inr out \<Longrightarrow> sr < req \<Longrightarrow> distinct order \<Longrightarrow>
    \<exists>H. distinct H \<and> set H \<subseteq> set order \<and> req \<le> sr + length H \<and> answered res H \<and>
      out = map snd (fold add_entries (map (\<lambda>i. projr (res i)) H) m)"
proof (induction order arbitrary: m errs sr nodes)
  case (Cons i rest)
  show ?case
  proof (cases "res i")
    case (Inl e)
    then show ?thesis
      using Cons.IH [of m _ sr] Cons.prems by fastforce
  next
    case (Inr es)
    show ?thesis
    proof (cases "req \<le> sr + 1")
      case True
      then show ?thesis
        using Cons.prems Inr by (intro exI [of _ "[i]"]) (auto simp: answered_def Let_def)
    next
      case False
      then have "fst (list_loop res dn req rest (add_entries es m) errs (sr + 1) (node_success i nodes)) = Inr out"
        using Cons.prems(1) Inr by (simp add: Let_def)
      from Cons.IH [OF this] Cons.prems False obtain H where
        "distinct H" "set H \<subseteq> set rest" "req \<le> sr + 1 + length H" "answered res H"
        "out = map snd (fold add_entries (map (\<lambda>i. projr (res i)) H) (add_entries es m))"
        by auto
      then show ?thesis
        using Inr Cons.prems(3) by (intro exI [of _ "i # H"]) (auto simp: answered_def)
    qed
  qed
qed simp

lemma merged_entries:
  fixes es :: "BlobBlockEntry list"
  defines "m \<equiv> add_entries es []"
  shows "sorted_wrt (<) (map entry_key (map snd m))" "set (map snd m) \<subseteq> set es"
    "entry_key ` set (map snd m) = entry_key ` set es"
proof -
  let ?kvs = "map (\<lambda>e. (entry_key e, e)) es"
  have m: "m = fold btree.or_insert ?kvs []"
    by (simp add: m_def add_entries_eq)
  have mem: "(k, e) \<in> set m \<longleftrightarrow> map_of ?kvs k = Some e" for k e
    unfolding m by (rule btree.entries_fold_or_insert)
  have srt: "sorted_wrt (<) (map fst m)"
    unfolding m by (rule btree.ok_fold_or_insert) simp
  have pair: "e \<in> set es \<and> k = entry_key e" if "(k, e) \<in> set m" for k e
    using that map_of_SomeD [of ?kvs k e] by (auto simp: mem)
  then have eq: "map entry_key (map snd m) = map fst m"
    by auto
  show "sorted_wrt (<) (map entry_key (map snd m))"
    unfolding eq by (rule srt)
  show "set (map snd m) \<subseteq> set es"
    using pair by auto
  have "entry_key e \<in> entry_key ` set (map snd m)" if "e \<in> set es" for e
  proof -
    have "map_of ?kvs (entry_key e) \<noteq> None"
      using that by (simp add: map_of_eq_None_iff image_image)
    then obtain x where "(entry_key e, x) \<in> set m"
      by (auto simp: mem)
    then have "x \<in> set (map snd m)" "entry_key e = entry_key x"
      using pair [of "entry_key e" x] by force+
    then show ?thesis
      by (metis imageI)
  qed
  then show "entry_key ` set (map snd m) = entry_key ` set es"
    using pair by auto
qed

lemma quorum_meets:
  assumes "H \<subseteq> {..<n}" "S \<subseteq> {..<n}" "n < card H + card S"
  shows "\<exists>i. i \<in> H \<and> i \<in> S"
proof (rule ccontr)
  assume "\<nexists>i. i \<in> H \<and> i \<in> S"
  then have "card (H \<union> S) = card H + card S"
    using assms by (intro card_Un_disjoint) (auto intro: finite_subset)
  moreover have "card (H \<union> S) \<le> n"
    using assms card_mono [of "{..<n}" "H \<union> S"] by simp
  ultimately show False
    using assms(3) by simp
qed

lemma list_volume_ok:
  assumes "fst (list_blob_blocks_volume env vol all_nodes) = Inr out" "bss_nodes vol \<noteq> []"
  defines "req \<equiv> (if all_nodes then length (bss_nodes vol)
    else length (bss_nodes vol) - mode_write_quorum (vol_mode vol) + 1)"
  shows "\<exists>H. distinct H \<and> set H \<subseteq> {..<length (bss_nodes vol)} \<and> req \<le> length H \<and>
    answered (le_rpc env) H \<and>
    out = map snd (add_entries (concat (map (\<lambda>i. projr (le_rpc env i)) H)) [])"
proof -
  let ?nodes1 = "snd (availability_pass (le_clock env) 0 (bss_nodes vol))"
  have "fst (list_loop (le_rpc env) (le_done env) req
      (launch_order (le_clock env) (le_order env) (bss_nodes vol)) [] [] 0 ?nodes1) = Inr out"
    using assms(1)
    by (auto simp: list_blob_blocks_volume_def req_def launch_order_def Let_def case_prod_unfold
        split: if_splits)
  moreover have "0 < req"
    using assms(2) by (simp add: req_def)
  ultimately obtain H where "distinct H" "set H \<subseteq> admitted (le_clock env) (bss_nodes vol)"
    "req \<le> 0 + length H" "answered (le_rpc env) H"
    "out = map snd (fold add_entries (map (\<lambda>i. projr (le_rpc env i)) H) [])"
    using list_loop_ok [of "le_rpc env" "le_done env" req] by fastforce
  then show ?thesis
    by (intro exI [of _ H]) (auto simp: fold_add_entries admitted_def)
qed


definition sample_entry :: "u32 \<Rightarrow> u64 \<Rightarrow> BlobBlockEntry" where
  "sample_entry b v = \<lparr>be_block_number = b, be_version = v, be_cohort_tag = 0\<rparr>"

definition sample_list :: list_env where
  "sample_list = \<lparr>le_clock = (\<lambda>_. 0), le_order = [2, 1, 0], le_done = (\<lambda>_. 0),
     le_rpc = (\<lambda>i. if i = 2 then Inr [] else Inr [sample_entry 4 1, sample_entry 2 1])\<rparr>"


section \<open>Deletes\<close>

lemma delete_loop_count:
  "fst (delete_loop res dn order sd errs nodes) =
    sd + length (filter (\<lambda>i. delete_result_succeeded (res i)) order)"
proof (induction order arbitrary: sd errs nodes)
  case (Cons i rest)
  then show ?case
    by (cases "res i") (auto simp: delete_result_succeeded_def)
qed simp

lemma filter_length_all: "length (filter P xs) = length xs \<longleftrightarrow> (\<forall>x \<in> set xs. P x)"
  by (metis filter_True filter_id_conv length_filter_less less_irrefl)

lemma admitted_all:
  "length (bss_nodes vol) \<le> card (admitted clk (bss_nodes vol)) \<longleftrightarrow>
    admitted clk (bss_nodes vol) = {..<length (bss_nodes vol)}"
proof
  assume "length (bss_nodes vol) \<le> card (admitted clk (bss_nodes vol))"
  then show "admitted clk (bss_nodes vol) = {..<length (bss_nodes vol)}"
    by (intro card_seteq) (auto simp: admitted_def)
qed simp

lemma delete_from_all_ok:
  assumes "length (bss_nodes vol) = n"
  shows "fst (delete_from_all env n vol) = Inr () \<longleftrightarrow>
    admitted (de_clock env) (bss_nodes vol) = {..<n} \<and>
    (\<forall>i < n. delete_result_succeeded (delete_blob_from_node (de_rpc env i)))"
proof -
  let ?A = "admitted (de_clock env) (bss_nodes vol)"
  let ?order = "launch_order (de_clock env) (de_order env) (bss_nodes vol)"
  let ?P = "\<lambda>i. delete_result_succeeded (delete_blob_from_node (de_rpc env i))"
  have "fst (delete_from_all env n vol) = Inr () \<longleftrightarrow>
      n \<le> card ?A \<and> length (filter ?P ?order) = n"
    by (simp add: delete_from_all_def Let_def case_prod_unfold admitted_card launch_order_def
        delete_loop_count)
  also have "\<dots> \<longleftrightarrow> ?A = {..<n} \<and> length (filter ?P ?order) = length ?order"
  proof -
    have "n \<le> card ?A \<longleftrightarrow> ?A = {..<n}"
      using admitted_all [of vol "de_clock env"] assms by simp
    then show ?thesis by (cases "?A = {..<n}") simp_all
  qed
  also have "\<dots> \<longleftrightarrow> ?A = {..<n} \<and> (\<forall>i \<in> ?A. ?P i)"
    by (simp only: filter_length_all launch_order_props(2))
  also have "\<dots> \<longleftrightarrow> ?A = {..<n} \<and> (\<forall>i < n. ?P i)"
    by (metis lessThan_iff)
  finally show ?thesis .
qed

end
