(* ===== verification/Vg_Erasure.thy ===== *)
theory Vg_Erasure
  imports Vg_Replicated
begin

text \<open>
  The erasure-coded branches of \<open>crates/common/volume_group_proxy/src/data_vg_proxy.rs\<close>:
  \<open>put_blob_ec\<close>, \<open>get_blob_ec\<close> with its hedged reads, cohort selection, reconstruction and
  inline repair, and \<open>delete_blob_ec\<close>.

  The Reed-Solomon code of the \<open>reed_solomon_simd\<close> crate and the two hash functions are the
  fields of \<open>ec_lib\<close>; \<open>rs_laws\<close> states what the crate documents of the code. A panic is the
  result \<open>None\<close>. As in the replicated theory the completion orders, the clocks, the answers of
  the nodes and the moment the hedge timer fires are the environment's.
\<close>

section \<open>Cohorts\<close>

record ec_lib =
  lib_crc32 :: "bytes \<Rightarrow> u32"
  lib_xxh3 :: "bytes \<Rightarrow> u64"
  rs_encode :: "nat \<Rightarrow> nat \<Rightarrow> bytes list \<Rightarrow> bytes list option"
  rs_decode :: "nat \<Rightarrow> nat \<Rightarrow> (nat \<times> bytes) list \<Rightarrow> (nat \<times> bytes) list \<Rightarrow> (nat \<Rightarrow> bytes option) option"

definition flatten :: "'a option list \<Rightarrow> 'a list" where
  "flatten xs = List.map_filter id xs"

definition decodable_cohort :: "NodeBlob option list \<Rightarrow> nat \<Rightarrow> u64 option" where
  "decodable_cohort shards k =
     map_option nb_cohort
       (find (\<lambda>shard. nb_cohort shard \<noteq> 0 \<and>
          k \<le> length (filter (\<lambda>c. nb_cohort c = nb_cohort shard) (flatten shards))) (flatten shards))"

definition cohort_matches_padded_body :: "(bytes \<Rightarrow> u64) \<Rightarrow> u64 \<Rightarrow> bytes \<Rightarrow> bool" where
  "cohort_matches_padded_body xxh3_64 cohort_tag padded_body \<longleftrightarrow>
     cohort_tag \<noteq> 0 \<and> ec_cohort_tag xxh3_64 padded_body = cohort_tag"

section \<open>Writes\<close>

definition split_shards :: "nat \<Rightarrow> nat \<Rightarrow> bytes \<Rightarrow> bytes list" where
  "split_shards k shard_size padded = map (\<lambda>i. take shard_size (drop (i * shard_size) padded)) [0..<k]"

definition pad_body :: "bytes \<Rightarrow> nat \<Rightarrow> bytes" where
  "pad_body body k = body @ replicate (ec_padded_len (length body) k - length body) 0"

definition vol_k :: "VolumeWithNodes \<Rightarrow> nat" where
  "vol_k vol = unat (data_shards (vol_mode vol))"

definition vol_m :: "VolumeWithNodes \<Rightarrow> nat" where
  "vol_m vol = unat (parity_shards (vol_mode vol))"

text \<open>The shards sent, each with the position of the node it goes to.\<close>

definition placed_shards :: "nat \<Rightarrow> nat \<Rightarrow> bool list \<Rightarrow> bytes list \<Rightarrow> (nat \<times> bytes) list" where
  "placed_shards rotation tot avail shards =
     filter (\<lambda>(ni, _). avail ! ni)
       (map (\<lambda>si. (node_index si rotation tot, shards ! si)) [0..<length shards])"

definition put_blob_ec ::
    "ec_lib \<Rightarrow> put_env \<Rightarrow> VolumeWithNodes \<Rightarrow> DataBlobGuid \<Rightarrow> u32 \<Rightarrow> bytes \<Rightarrow> u64 \<Rightarrow>
      (DataVgError + PutBlobOutcome) \<times> VolumeWithNodes" where
  "put_blob_ec lib env vol guid block body version =
     (if body = [] then (Inr Stored, vol)
      else
        (let k = vol_k vol; m = vol_m vol; tot = k + m; write_quorum = k + 1;
             vol1 = vol\<lparr>inflight := inflight vol + 1\<rparr>;
             padded_len = ec_padded_len (length body) k;
             shard_size = padded_len div k;
             padded = pad_body body k;
             cohort_tag = ec_cohort_tag (lib_xxh3 lib) padded;
             data = split_shards k shard_size padded
         in case rs_encode lib k m data of
              None \<Rightarrow> (Inl (Internal RsEncodeFailed), vol1\<lparr>inflight := inflight vol1 - 1\<rparr>)
            | Some parity \<Rightarrow>
                (let shards = data @ parity;
                     rotation = ec_rotation (lib_crc32 lib) (blob_id guid) (word_of_nat tot);
                     (avail, nodes1) = availability_pass (pe_clock env) 0 (bss_nodes vol);
                     available_count = length (filter id avail)
                 in if available_count < write_quorum
                    then (Inl (QuorumFailure (InsufficientNodes available_count tot write_quorum)),
                          vol1\<lparr>bss_nodes := nodes1, inflight := inflight vol1 - 1\<rparr>)
                    else
                      (let sent = placed_shards rotation tot avail shards;
                           res = (\<lambda>ni. let shard = the (map_of sent ni)
                                   in put_blob_to_node env ni guid block shard (lib_xxh3 lib shard)
                                        version cohort_tag);
                           (r, pending, nodes2) =
                             put_loop res (pe_done env) write_quorum
                               (arrange (pe_order env) (map fst sent)) 0 Stored [] nodes1
                       in (r, vol1\<lparr>bss_nodes := background_writes res (pe_done env) pending nodes2,
                              inflight := inflight vol1 - 1\<rparr>)))))"

section \<open>Reads\<close>

record ec_get_env =
  eg_clock1 :: "nat \<Rightarrow> u64"
  eg_order1 :: "nat list"
  eg_hedge :: "nat option"
  eg_clock2 :: "nat \<Rightarrow> u64"
  eg_order2 :: "nat list"
  eg_done :: "nat \<Rightarrow> u64"
  eg_rpc :: "nat \<Rightarrow> u32 \<Rightarrow> RpcError + NodeBlob"
  eg_clock3 :: "nat \<Rightarrow> u64"
  eg_repair :: put_env

record ec_read =
  shard_results :: "NodeBlob option list"
  shard_missing :: "bool list"
  shards_not_found :: nat
  read_nodes :: "BssNode list"

text \<open>Starting the reads of a range of shards: a node whose breaker refuses is skipped.\<close>

fun launch_reads ::
    "(nat \<Rightarrow> u64) \<Rightarrow> nat \<Rightarrow> nat \<Rightarrow> nat list \<Rightarrow> BssNode list \<Rightarrow> nat list \<times> BssNode list" where
  "launch_reads clk rotation tot [] nodes = ([], nodes)"
| "launch_reads clk rotation tot (si # rest) nodes =
     (let ni = node_index si rotation tot;
          (a, b) = is_available (clk ni) (circuit_breaker (nodes ! ni));
          (l, nodes') = launch_reads clk rotation tot rest
            (nodes[ni := (nodes ! ni)\<lparr>circuit_breaker := b\<rparr>])
      in (if a then si # l else l, nodes'))"

text \<open>One completed shard read.\<close>

definition handle_shard ::
    "nat \<Rightarrow> nat \<Rightarrow> (nat \<Rightarrow> u64) \<Rightarrow> nat \<Rightarrow> RpcError + NodeBlob \<Rightarrow> ec_read \<Rightarrow> ec_read" where
  "handle_shard rotation tot dn si res st =
     (let ni = node_index si rotation tot
      in case res of
           Inr data \<Rightarrow>
             st\<lparr>shard_results := (shard_results st)[si := Some data],
                read_nodes := node_success ni (read_nodes st)\<rparr>
         | Inl e \<Rightarrow>
             (if e = NotFound
              then st\<lparr>shard_missing := (shard_missing st)[si := True],
                      shards_not_found := shards_not_found st + 1,
                      read_nodes := node_success ni (read_nodes st)\<rparr>
              else st\<lparr>read_nodes := node_failure (dn si) ni (read_nodes st)\<rparr>))"

text \<open>
  The loop over data shards. \<open>hedge\<close> counts the results handled before the hedge timer fires.
  The result carries the reads still running when the loop is left.
\<close>

fun data_loop ::
    "(nat \<Rightarrow> RpcError + NodeBlob) \<Rightarrow> nat \<Rightarrow> nat \<Rightarrow> (nat \<Rightarrow> u64) \<Rightarrow> nat \<Rightarrow> nat \<Rightarrow> nat option \<Rightarrow> nat list \<Rightarrow> nat \<Rightarrow>
      ec_read \<Rightarrow> (DataVgError + nat list) \<times> ec_read" where
  "data_loop ans rotation tot dn k m hedge [] received st = (Inr [], st)"
| "data_loop ans rotation tot dn k m hedge (si # rest) received st =
     (if hedge = Some 0 then (Inr (si # rest), st)
      else
        (let st' = handle_shard rotation tot dn si (ans si) st;
             received' = (case ans si of Inr _ \<Rightarrow> received + 1 | Inl _ \<Rightarrow> received)
         in if ans si = Inl NotFound \<and> received = 0 \<and> m \<le> shards_not_found st'
            then (Inl BlockNotFound, st')
            else if received' = k then (Inr rest, st')
            else case ans si of
                Inl _ \<Rightarrow> (Inr rest, st')
              | Inr _ \<Rightarrow>
                  data_loop ans rotation tot dn k m (map_option (\<lambda>h. h - 1) hedge) rest received' st'))"

text \<open>The loop over the remaining data shards and the parity shards.\<close>

fun shard_loop ::
    "(nat \<Rightarrow> RpcError + NodeBlob) \<Rightarrow> nat \<Rightarrow> nat \<Rightarrow> (nat \<Rightarrow> u64) \<Rightarrow> nat \<Rightarrow> nat \<Rightarrow> nat list \<Rightarrow> ec_read \<Rightarrow>
      (DataVgError + unit) \<times> ec_read" where
  "shard_loop ans rotation tot dn k m [] st = (Inr (), st)"
| "shard_loop ans rotation tot dn k m (si # rest) st =
     (let st' = handle_shard rotation tot dn si (ans si) st
      in if decodable_cohort (shard_results st') k \<noteq> None then (Inr (), st')
         else if flatten (shard_results st') = [] \<and> m \<le> shards_not_found st'
         then (Inl BlockNotFound, st')
         else shard_loop ans rotation tot dn k m rest st')"

text \<open>The answer the read of shard \<open>si\<close> gives: one attempt for data, retries for parity.\<close>

definition shard_answer :: "ec_get_env \<Rightarrow> nat \<Rightarrow> nat \<Rightarrow> nat \<Rightarrow> nat \<Rightarrow> RpcError + NodeBlob" where
  "shard_answer env rotation tot k si =
     get_blob_from_node_instance (eg_rpc env (node_index si rotation tot)) (si < k)"

text \<open>The shards of the selected cohort that go into the decoder.\<close>

definition shards_for_rs :: "NodeBlob option list \<Rightarrow> u64 \<Rightarrow> nat \<Rightarrow> bytes option list" where
  "shards_for_rs results cohort shard_size =
     map (\<lambda>s. case s of
            None \<Rightarrow> None
          | Some shard \<Rightarrow> (if nb_cohort shard = cohort \<and> length (nb_body shard) = shard_size
                           then Some (nb_body shard) else None)) results"

definition enumerate_present :: "'a option list \<Rightarrow> (nat \<times> 'a) list" where
  "enumerate_present xs =
     List.map_filter (\<lambda>(i, x). map_option (Pair i) x) (List.enumerate 0 xs)"

text \<open>The data shards in order, received or restored; a gap is the index of the missing shard.\<close>

fun join_shards :: "(nat \<Rightarrow> bytes option) \<Rightarrow> nat \<Rightarrow> bytes option list \<Rightarrow> nat + bytes" where
  "join_shards restored i [] = Inr []"
| "join_shards restored i (s # rest) =
     (case (case s of Some shard \<Rightarrow> Some shard | None \<Rightarrow> restored i) of
        None \<Rightarrow> Inl i
      | Some shard \<Rightarrow> map_sum id (\<lambda>body. shard @ body) (join_shards restored (Suc i) rest))"

definition rs_reconstruct ::
    "ec_lib \<Rightarrow> nat \<Rightarrow> nat \<Rightarrow> NodeBlob option list \<Rightarrow> u64 \<Rightarrow> nat \<Rightarrow> DataVgError + bytes" where
  "rs_reconstruct lib k m results cohort shard_size =
     (let rs = shards_for_rs results cohort shard_size;
          original_shards = enumerate_present (take k rs);
          recovery_shards = enumerate_present (drop k rs)
      in case rs_decode lib k m original_shards recovery_shards of
           None \<Rightarrow> Inl (Internal RsReconstructFailed)
         | Some restored \<Rightarrow>
             (case join_shards restored 0 (take k rs) of
                Inl i \<Rightarrow> Inl (Internal (RsMissingShard i))
              | Inr padded_body \<Rightarrow>
                  (if cohort_matches_padded_body (lib_xxh3 lib) cohort padded_body then Inr padded_body
                   else Inl (QuorumFailure CohortMismatch))))"

text \<open>
  The inline repair: positions that answered \<open>NotFound\<close> are written again, at the same version
  and cohort, if their breaker admits the call. Slicing or indexing out of range is a panic.
\<close>

definition inline_repair ::
    "ec_lib \<Rightarrow> ec_get_env \<Rightarrow> nat \<Rightarrow> nat \<Rightarrow> nat \<Rightarrow> DataBlobGuid \<Rightarrow> u32 \<Rightarrow> u64 \<Rightarrow> u64 \<Rightarrow> nat \<Rightarrow> bytes \<Rightarrow>
      nat list \<Rightarrow> BssNode list \<Rightarrow> (DataVgError + BssNode list) option" where
  "inline_repair lib env k m rotation guid block version cohort shard_size padded_body missing nodes =
     (if missing = [] then Some (Inr nodes)
      else if length padded_body < k * shard_size then None
      else
        (let data = split_shards k shard_size padded_body
         in case rs_encode lib k m data of
              None \<Rightarrow> Some (Inl (Internal RsEncodeFailed))
            | Some parity \<Rightarrow>
                (let all_shards = data @ parity;
                     (launched, nodes1) = launch_reads (eg_clock3 env) rotation (k + m) missing nodes;
                     res = (\<lambda>ni. let shard = all_shards ! shard_index ni rotation (k + m)
                             in put_blob_to_node (eg_repair env) ni guid block shard
                                  (lib_xxh3 lib shard) version cohort)
                 in if list_all (\<lambda>si. si < length all_shards) launched
                    then Some (Inr (background_writes res (pe_done (eg_repair env))
                           (arrange (pe_order (eg_repair env))
                             (map (\<lambda>si. node_index si rotation (k + m)) launched)) nodes1))
                    else None)))"

definition initial_read :: "nat \<Rightarrow> BssNode list \<Rightarrow> ec_read" where
  "initial_read tot nodes = \<lparr>shard_results = replicate tot None, shard_missing = replicate tot False,
     shards_not_found = 0, read_nodes = nodes\<rparr>"

text \<open>All data shards of one cohort arrived in the first loop: no decoding needed.\<close>

definition fast_body :: "ec_lib \<Rightarrow> nat \<Rightarrow> nat \<Rightarrow> u64 \<Rightarrow> NodeBlob option list \<Rightarrow> (DataVgError + bytes) option" where
  "fast_body lib k content_len cohort results =
     (if list_all (\<lambda>s. s \<noteq> None) (take k results)
      then (let result_data = concat (map (\<lambda>s. nb_body (the s)) (take k results))
            in Some (if cohort_matches_padded_body (lib_xxh3 lib) cohort result_data
                     then Inr (take content_len result_data)
                     else Inl (QuorumFailure CohortMismatch)))
      else None)"

text \<open>Reconstruction from any \<open>k\<close> shards of the cohort, and the repair that follows it.\<close>

definition degraded_body ::
    "ec_lib \<Rightarrow> ec_get_env \<Rightarrow> nat \<Rightarrow> nat \<Rightarrow> nat \<Rightarrow> DataBlobGuid \<Rightarrow> u32 \<Rightarrow> u64 \<Rightarrow> nat \<Rightarrow> u64 \<Rightarrow> ec_read \<Rightarrow>
      (DataVgError + bytes) option \<times> BssNode list" where
  "degraded_body lib env k m rotation guid block version content_len cohort st =
     (case find (\<lambda>s. nb_cohort s = cohort) (flatten (shard_results st)) of
        None \<Rightarrow> (Some (Inl (Internal NoShards)), read_nodes st)
      | Some first \<Rightarrow>
          (let shard_size = length (nb_body first)
           in case rs_reconstruct lib k m (shard_results st) cohort shard_size of
                Inl e \<Rightarrow> (Some (Inl e), read_nodes st)
              | Inr padded_body \<Rightarrow>
                  (let missing = filter (\<lambda>i. shard_missing st ! i) [0..<length (shard_missing st)]
                   in case inline_repair lib env k m rotation guid block version cohort shard_size
                          padded_body missing (read_nodes st) of
                        None \<Rightarrow> (None, read_nodes st)
                      | Some (Inl e) \<Rightarrow> (Some (Inl e), read_nodes st)
                      | Some (Inr nodes) \<Rightarrow> (Some (Inr (take content_len padded_body)), nodes))))"

definition parity_phase ::
    "ec_lib \<Rightarrow> ec_get_env \<Rightarrow> nat \<Rightarrow> nat \<Rightarrow> nat \<Rightarrow> DataBlobGuid \<Rightarrow> u32 \<Rightarrow> u64 \<Rightarrow> nat \<Rightarrow> nat list \<Rightarrow> ec_read \<Rightarrow>
      (DataVgError + bytes) option \<times> BssNode list" where
  "parity_phase lib env k m rotation guid block version content_len pending st =
     (let tot = k + m;
          (launched, nodes1) = launch_reads (eg_clock2 env) rotation tot [k..<tot] (read_nodes st);
          (r, st2) = shard_loop (shard_answer env rotation tot k) rotation tot (eg_done env) k m
            (arrange (eg_order2 env) (pending @ launched)) (st\<lparr>read_nodes := nodes1\<rparr>)
      in case r of
           Inl e \<Rightarrow> (Some (Inl e), read_nodes st2)
         | Inr _ \<Rightarrow>
             (case decodable_cohort (shard_results st2) k of
                None \<Rightarrow>
                  (let total_shards_received = length (flatten (shard_results st2))
                   in (Some (Inl (if total_shards_received = 0 \<and> m \<le> shards_not_found st2
                                  then BlockNotFound
                                  else QuorumFailure (NoDecodableCohort k total_shards_received))),
                       read_nodes st2))
              | Some cohort \<Rightarrow>
                  degraded_body lib env k m rotation guid block version content_len cohort st2))"

definition get_blob_ec ::
    "ec_lib \<Rightarrow> ec_get_env \<Rightarrow> VolumeWithNodes \<Rightarrow> DataBlobGuid \<Rightarrow> u32 \<Rightarrow> u64 \<Rightarrow> nat \<Rightarrow>
      (DataVgError + bytes) option \<times> VolumeWithNodes" where
  "get_blob_ec lib env vol guid block version content_len =
     (if content_len = 0 then (Some (Inr []), vol)
      else
        (let k = vol_k vol; m = vol_m vol; tot = k + m;
             rotation = ec_rotation (lib_crc32 lib) (blob_id guid) (word_of_nat tot);
             (launched, nodes1) = launch_reads (eg_clock1 env) rotation tot [0..<k] (bss_nodes vol);
             (r, st) = data_loop (shard_answer env rotation tot k) rotation tot (eg_done env) k m
               (eg_hedge env) (arrange (eg_order1 env) launched) 0 (initial_read tot nodes1)
         in case r of
              Inl e \<Rightarrow> (Some (Inl e), vol\<lparr>bss_nodes := read_nodes st\<rparr>)
            | Inr pending \<Rightarrow>
                (case decodable_cohort (shard_results st) k of
                   Some cohort \<Rightarrow>
                     (fast_body lib k content_len cohort (shard_results st),
                      vol\<lparr>bss_nodes := read_nodes st\<rparr>)
                 | None \<Rightarrow>
                     (let (res, nodes) = parity_phase lib env k m rotation guid block version
                            content_len pending st
                      in (res, vol\<lparr>bss_nodes := nodes\<rparr>)))))"

section \<open>Deletes\<close>

definition delete_blob_ec :: "delete_env \<Rightarrow> VolumeWithNodes \<Rightarrow> (DataVgError + unit) \<times> VolumeWithNodes" where
  "delete_blob_ec env vol = delete_from_all env (vol_k vol + vol_m vol) vol"

section \<open>What the code relies on of the Reed-Solomon code\<close>

text \<open>
  The documented contract of the crate: \<open>k\<close> original shards of one even, positive size encode
  to \<open>m\<close> recovery shards of that size, and from any \<open>k\<close> of the \<open>k + m\<close> shards the decoder
  returns every original shard it was not given.
\<close>

definition rs_laws :: "ec_lib \<Rightarrow> nat \<Rightarrow> nat \<Rightarrow> bool" where
  "rs_laws lib k m \<longleftrightarrow>
     (\<forall>data L. length data = k \<and> (\<forall>s \<in> set data. length s = L) \<and> 0 < L \<and> even L \<longrightarrow>
        (\<exists>parity. rs_encode lib k m data = Some parity \<and> length parity = m \<and>
           (\<forall>s \<in> set parity. length s = L) \<and>
           (\<forall>Os Rs. distinct Os \<and> distinct Rs \<and> set Os \<subseteq> {..<k} \<and> set Rs \<subseteq> {..<m} \<and>
              k \<le> length Os + length Rs \<longrightarrow>
              (\<exists>f. rs_decode lib k m (map (\<lambda>i. (i, data ! i)) Os) (map (\<lambda>j. (j, parity ! j)) Rs) = Some f \<and>
                 (\<forall>i < k. i \<notin> set Os \<longrightarrow> f i = Some (data ! i))))))"

definition ec_volume_ok :: "VolumeWithNodes \<Rightarrow> bool" where
  "ec_volume_ok vol \<longleftrightarrow> is_ec_mode (vol_mode vol) \<and> 0 < vol_m vol \<and> vol_m vol < vol_k vol \<and>
     length (bss_nodes vol) = vol_k vol + vol_m vol \<and> vol_k vol + vol_m vol < 2 ^ 32"

lemma volume_ok_ec:
  assumes "volume_ok vol" "vol_mode vol = ErasureCoded k m" "unat k + unat m < 2 ^ 32"
  shows "ec_volume_ok vol"
  using assms
  by (simp add: volume_ok_def ec_volume_ok_def vol_k_def vol_m_def word_less_nat_alt
      unat_word_ariths)

definition vol_rotation :: "ec_lib \<Rightarrow> VolumeWithNodes \<Rightarrow> DataBlobGuid \<Rightarrow> nat" where
  "vol_rotation lib vol guid =
     ec_rotation (lib_crc32 lib) (blob_id guid) (word_of_nat (vol_k vol + vol_m vol))"

lemma vol_rotation_le:
  assumes "ec_volume_ok vol" shows "vol_rotation lib vol guid \<le> vol_k vol + vol_m vol"
proof -
  let ?t = "vol_k vol + vol_m vol"
  have "unat (word_of_nat n :: u32) = n" if "n < 2 ^ 32" for n
    using that by (simp add: unsigned_of_nat take_bit_nat_eq_self)
  then have t: "unat (word_of_nat ?t :: u32) = ?t" "0 < ?t"
    using assms by (simp_all add: ec_volume_ok_def del: of_nat_add)
  then have "(0 :: u32) < word_of_nat ?t"
    by (simp add: word_less_nat_alt del: of_nat_add)
  then show ?thesis
    using ec_rotation_less [of "word_of_nat ?t" "lib_crc32 lib" "blob_id guid"] t
    by (simp add: vol_rotation_def del: of_nat_add)
qed

section \<open>Padding and splitting\<close>

lemma split_shards_props:
  assumes "length padded = k * ss"
  shows "length (split_shards k ss padded) = k" "\<forall>s \<in> set (split_shards k ss padded). length s = ss"
    "concat (split_shards k ss padded) = padded"
proof -
  show "length (split_shards k ss padded) = k" by (simp add: split_shards_def)
  show "\<forall>s \<in> set (split_shards k ss padded). length s = ss"
  proof
    fix s assume "s \<in> set (split_shards k ss padded)"
    then obtain i where i: "i < k" "s = take ss (drop (i * ss) padded)"
      by (auto simp: split_shards_def)
    have "i * ss + ss \<le> k * ss"
      using mult_le_mono1 [of "Suc i" k ss] i(1) by simp
    then show "length s = ss"
      using i(2) assms by simp
  qed
  have "concat (map (\<lambda>i. take ss (drop (i * ss) padded)) [0..<j]) = take (j * ss) padded" for j
  proof (induction j)
    case (Suc j)
    then show ?case
      using take_add [of "j * ss" ss padded] by (simp add: add.commute)
  qed simp
  then show "concat (split_shards k ss padded) = padded"
    using assms by (simp add: split_shards_def)
qed

lemma pad_body_props:
  assumes "0 < k"
  shows "length (pad_body body k) = k * (ec_padded_len (length body) k div k)"
    "take (length body) (pad_body body k) = body"
    "even (ec_padded_len (length body) k div k)"
    "body \<noteq> [] \<Longrightarrow> 0 < ec_padded_len (length body) k div k"
proof -
  note p = ec_padded_len_props [OF assms, of "length body"]
  show "length (pad_body body k) = k * (ec_padded_len (length body) k div k)"
    using p(2,4) by (simp add: pad_body_def)
  show "take (length body) (pad_body body k) = body"
    by (simp add: pad_body_def)
  have "k * 2 dvd ec_padded_len (length body) k"
    using p(1) by (simp add: dvd_eq_mod_eq_0)
  then obtain c where "ec_padded_len (length body) k = k * 2 * c" ..
  then show "even (ec_padded_len (length body) k div k)"
    using assms by simp
  show "0 < ec_padded_len (length body) k div k" if "body \<noteq> []"
  proof (rule ccontr)
    assume "\<not> 0 < ec_padded_len (length body) k div k"
    then have "ec_padded_len (length body) k = 0" using p(4) by simp
    with p(2) that show False by simp
  qed
qed

text \<open>The stripe a body is stored as: its data shards and its parity shards.\<close>

definition stripe_data :: "nat \<Rightarrow> bytes \<Rightarrow> bytes list" where
  "stripe_data k body = split_shards k (ec_padded_len (length body) k div k) (pad_body body k)"

definition stripe :: "ec_lib \<Rightarrow> nat \<Rightarrow> nat \<Rightarrow> bytes \<Rightarrow> bytes list" where
  "stripe lib k m body = stripe_data k body @ the (rs_encode lib k m (stripe_data k body))"

definition stripe_tag :: "ec_lib \<Rightarrow> nat \<Rightarrow> bytes \<Rightarrow> u64" where
  "stripe_tag lib k body = ec_cohort_tag (lib_xxh3 lib) (pad_body body k)"

lemma stripe_tag_nonzero [simp]: "stripe_tag lib k body \<noteq> 0"
proof
  assume "stripe_tag lib k body = 0"
  moreover have "1 \<le> stripe_tag lib k body"
    unfolding stripe_tag_def ec_cohort_tag_def by (rule max.cobounded2)
  ultimately show False by simp
qed

lemma stripe_props:
  assumes "rs_laws lib k m" "0 < k" "body \<noteq> []"
  defines "ss \<equiv> ec_padded_len (length body) k div k"
  shows "length (stripe_data k body) = k" "concat (stripe_data k body) = pad_body body k"
    "rs_encode lib k m (stripe_data k body) = Some (drop k (stripe lib k m body))"
    "length (stripe lib k m body) = k + m"
    "\<forall>s \<in> set (stripe lib k m body). length s = ss" "take k (stripe lib k m body) = stripe_data k body"
    "\<And>Os Rs. distinct Os \<Longrightarrow> distinct Rs \<Longrightarrow> set Os \<subseteq> {..<k} \<Longrightarrow> set Rs \<subseteq> {..<m} \<Longrightarrow>
       k \<le> length Os + length Rs \<Longrightarrow>
       \<exists>f. rs_decode lib k m (map (\<lambda>i. (i, stripe lib k m body ! i)) Os)
            (map (\<lambda>j. (j, stripe lib k m body ! (k + j))) Rs) = Some f \<and>
         (\<forall>i < k. i \<notin> set Os \<longrightarrow> f i = Some (stripe lib k m body ! i))"
proof -
  note pad = pad_body_props [OF assms(2), of body]
  note sp = split_shards_props [OF pad(1)]
  show len: "length (stripe_data k body) = k" unfolding stripe_data_def by (rule sp(1))
  show "concat (stripe_data k body) = pad_body body k" unfolding stripe_data_def by (rule sp(3))
  have lens: "\<forall>s \<in> set (stripe_data k body). length s = ss"
    unfolding stripe_data_def ss_def by (rule sp(2))
  obtain parity where par: "rs_encode lib k m (stripe_data k body) = Some parity" "length parity = m"
    "\<forall>s \<in> set parity. length s = ss"
    "\<forall>Os Rs. distinct Os \<and> distinct Rs \<and> set Os \<subseteq> {..<k} \<and> set Rs \<subseteq> {..<m} \<and>
       k \<le> length Os + length Rs \<longrightarrow>
       (\<exists>f. rs_decode lib k m (map (\<lambda>i. (i, stripe_data k body ! i)) Os)
          (map (\<lambda>j. (j, parity ! j)) Rs) = Some f \<and>
          (\<forall>i < k. i \<notin> set Os \<longrightarrow> f i = Some (stripe_data k body ! i)))"
    using assms(1) len lens pad(3) pad(4) [OF assms(3)] unfolding rs_laws_def ss_def by blast
  have st: "stripe lib k m body = stripe_data k body @ parity"
    by (simp add: stripe_def par(1))
  show "rs_encode lib k m (stripe_data k body) = Some (drop k (stripe lib k m body))"
    "length (stripe lib k m body) = k + m" "\<forall>s \<in> set (stripe lib k m body). length s = ss"
    "take k (stripe lib k m body) = stripe_data k body"
    using st par len lens by auto
  fix Os Rs :: "nat list"
  assume O: "distinct Os" "distinct Rs" "set Os \<subseteq> {..<k}" "set Rs \<subseteq> {..<m}" "k \<le> length Os + length Rs"
  have "map (\<lambda>i. (i, stripe lib k m body ! i)) Os = map (\<lambda>i. (i, stripe_data k body ! i)) Os"
    using O(3) st len by (auto simp: nth_append)
  moreover have "map (\<lambda>j. (j, stripe lib k m body ! (k + j))) Rs = map (\<lambda>j. (j, parity ! j)) Rs"
    using st len by (auto simp: nth_append)
  moreover have "\<forall>i < k. stripe lib k m body ! i = stripe_data k body ! i"
    using st len by (auto simp: nth_append)
  ultimately show "\<exists>f. rs_decode lib k m (map (\<lambda>i. (i, stripe lib k m body ! i)) Os)
            (map (\<lambda>j. (j, stripe lib k m body ! (k + j))) Rs) = Some f \<and>
         (\<forall>i < k. i \<notin> set Os \<longrightarrow> f i = Some (stripe lib k m body ! i))"
    using par(4) O by (simp del: map_eq_conv)
qed

end
