(* ===== verification/Ec_Reads.thy ===== *)
theory Ec_Reads
  imports Vg_Erasure
begin

text \<open>
  Correctness of the erasure-coded read path against the write path: the state the read loops
  build up, uniqueness of the decodable cohort, reconstruction, and the round trip from
  \<open>put_blob_ec\<close> to \<open>get_blob_ec\<close>.
\<close>

section \<open>The state of a read\<close>

text \<open>
  \<open>reads_ok ans tot H st\<close>: exactly the answers of the shards in \<open>H\<close> have been recorded.
\<close>

definition received :: "(nat \<Rightarrow> RpcError + NodeBlob) \<Rightarrow> nat set \<Rightarrow> nat \<Rightarrow> NodeBlob option" where
  "received ans H i = (if i \<in> H then (case ans i of Inr d \<Rightarrow> Some d | Inl _ \<Rightarrow> None) else None)"

definition reads_ok :: "(nat \<Rightarrow> RpcError + NodeBlob) \<Rightarrow> nat \<Rightarrow> nat set \<Rightarrow> ec_read \<Rightarrow> bool" where
  "reads_ok ans tot H st \<longleftrightarrow> H \<subseteq> {..<tot} \<and>
     shard_results st = map (received ans H) [0..<tot] \<and>
     shard_missing st = map (\<lambda>i. i \<in> H \<and> ans i = Inl NotFound) [0..<tot] \<and>
     shards_not_found st = card {i \<in> H. ans i = Inl NotFound}"

lemma reads_ok_initial: "reads_ok ans tot {} (initial_read tot nodes)"
  by (simp add: reads_ok_def initial_read_def received_def [abs_def] map_replicate_const)

lemma reads_ok_nodes [simp]: "reads_ok ans tot H (st\<lparr>read_nodes := ns\<rparr>) = reads_ok ans tot H st"
  by (simp add: reads_ok_def)

lemma upd_map_upt:
  "i < n \<Longrightarrow> (map f [0..<n])[i := v] = map (f(i := v)) [0..<n]"
  by (rule nth_equalityI) (auto simp: nth_list_update)

lemma reads_ok_handle:
  assumes "reads_ok ans tot H st" "si < tot" "si \<notin> H"
  shows "reads_ok ans tot (insert si H) (handle_shard rotation tot dn si (ans si) st)"
proof -
  have fin: "finite {i \<in> H. ans i = Inl NotFound}"
    using assms(1) finite_subset [of H "{..<tot}"] by (auto simp: reads_ok_def)
  have ins: "{i \<in> insert si H. ans i = Inl NotFound} =
      (if ans si = Inl NotFound then insert si {i \<in> H. ans i = Inl NotFound}
       else {i \<in> H. ans i = Inl NotFound})"
    by auto
  have rec: "map (received ans (insert si H)) [0..<tot] =
      (map (received ans H) [0..<tot])[si := (case ans si of Inr d \<Rightarrow> Some d | Inl _ \<Rightarrow> None)]"
    using assms(2) by (simp add: upd_map_upt) (auto simp: received_def)
  have mis: "map (\<lambda>i. i \<in> insert si H \<and> ans i = Inl NotFound) [0..<tot] =
      (map (\<lambda>i. i \<in> H \<and> ans i = Inl NotFound) [0..<tot])[si := (ans si = Inl NotFound)]"
    using assms(2) by (simp add: upd_map_upt)
  have same: "(map (received ans H) [0..<tot])[si := None] = map (received ans H) [0..<tot]"
    "(map (\<lambda>i. i \<in> H \<and> ans i = Inl NotFound) [0..<tot])[si := False] =
      map (\<lambda>i. i \<in> H \<and> ans i = Inl NotFound) [0..<tot]"
    using assms(2,3) by (simp_all add: upd_map_upt) (auto simp: received_def)
  show ?thesis
    using assms fin unfolding reads_ok_def ins rec mis
    by (cases "ans si") (simp_all add: handle_shard_def Let_def same)
qed

section \<open>The loops\<close>

lemma data_loop_spec:
  assumes "reads_ok ans tot H st" "distinct l" "set l \<subseteq> {..<tot} - H"
  shows "\<exists>H' st'. snd (data_loop ans rotation tot dn k m hedge l n st) = st' \<and> reads_ok ans tot H' st' \<and>
    H \<subseteq> H' \<and> H' \<subseteq> H \<union> set l \<and>
    (case fst (data_loop ans rotation tot dn k m hedge l n st) of
       Inl e \<Rightarrow> e = BlockNotFound \<and> m \<le> card {i \<in> H'. ans i = Inl NotFound}
     | Inr pending \<Rightarrow> distinct pending \<and> set pending = (H \<union> set l) - H')"
  using assms
proof (induction l arbitrary: H st n hedge)
  case Nil
  then show ?case by (intro exI [of _ H]) simp
next
  case (Cons si rest)
  let ?st' = "handle_shard rotation tot dn si (ans si) st"
  let ?n' = "case ans si of Inr _ \<Rightarrow> n + 1 | Inl _ \<Rightarrow> n"
  let ?stop = "ans si = Inl NotFound \<and> n = 0 \<and> m \<le> shards_not_found ?st'"
  have ok: "reads_ok ans tot (insert si H) ?st'"
    using Cons.prems by (intro reads_ok_handle) auto
  have rest: "distinct rest" "set rest \<subseteq> {..<tot} - insert si H" "si \<notin> H"
    using Cons.prems by auto
  consider (hedged) "hedge = Some 0" | (stop) "hedge \<noteq> Some 0" ?stop
    | (leave) "hedge \<noteq> Some 0" "\<not> ?stop" "?n' = k \<or> (\<exists>e. ans si = Inl e)"
    | (go) d where "hedge \<noteq> Some 0" "\<not> ?stop" "?n' \<noteq> k" "ans si = Inr d"
    by (metis sum.exhaust)
  then show ?case
  proof cases
    case hedged
    then show ?thesis
      using Cons.prems by (intro exI [of _ H]) auto
  next
    case stop
    then show ?thesis
      using ok by (intro exI [of _ "insert si H"]) (auto simp: Let_def reads_ok_def)
  next
    case leave
    then have "data_loop ans rotation tot dn k m hedge (si # rest) n st = (Inr rest, ?st')"
      by (auto simp: Let_def split: sum.split)
    then show ?thesis
      using ok rest Cons.prems(2) by (intro exI [of _ "insert si H"]) auto
  next
    case (go d)
    then have step: "data_loop ans rotation tot dn k m hedge (si # rest) n st =
      data_loop ans rotation tot dn k m (map_option (\<lambda>h. h - 1) hedge) rest ?n' ?st'"
      by (simp add: Let_def)
    have un: "insert si H \<union> set rest = H \<union> set (si # rest)" by auto
    show ?thesis
      using Cons.IH [OF ok rest(1,2), of "map_option (\<lambda>h. h - 1) hedge" ?n'] unfolding step un by blast
  qed
qed

lemma shard_loop_spec:
  assumes "reads_ok ans tot H st" "distinct l" "set l \<subseteq> {..<tot} - H"
  shows "\<exists>H' st'. snd (shard_loop ans rotation tot dn k m l st) = st' \<and> reads_ok ans tot H' st' \<and>
    H \<subseteq> H' \<and> H' \<subseteq> H \<union> set l \<and>
    (case fst (shard_loop ans rotation tot dn k m l st) of
       Inl e \<Rightarrow> e = BlockNotFound \<and> m \<le> card {i \<in> H'. ans i = Inl NotFound}
     | Inr _ \<Rightarrow> decodable_cohort (shard_results st') k \<noteq> None \<or> H' = H \<union> set l)"
  using assms
proof (induction l arbitrary: H st)
  case Nil
  then show ?case by (intro exI [of _ H]) simp
next
  case (Cons si rest)
  let ?st' = "handle_shard rotation tot dn si (ans si) st"
  let ?dec = "decodable_cohort (shard_results ?st') k \<noteq> None"
  let ?absent = "flatten (shard_results ?st') = [] \<and> m \<le> shards_not_found ?st'"
  have ok: "reads_ok ans tot (insert si H) ?st'"
    using Cons.prems by (intro reads_ok_handle) auto
  have rest: "distinct rest" "set rest \<subseteq> {..<tot} - insert si H" "si \<notin> H"
    using Cons.prems by auto
  consider (found) ?dec | (absent) "\<not> ?dec" ?absent | (go) "\<not> ?dec" "\<not> ?absent" by blast
  then show ?case
  proof cases
    case found
    then have "shard_loop ans rotation tot dn k m (si # rest) st = (Inr (), ?st')"
      by (simp add: Let_def)
    then show ?thesis
      using ok found by (intro exI [of _ "insert si H"]) auto
  next
    case absent
    then have "shard_loop ans rotation tot dn k m (si # rest) st = (Inl BlockNotFound, ?st')"
      by (simp add: Let_def)
    moreover have "m \<le> card {i \<in> insert si H. ans i = Inl NotFound}"
      using ok absent(2) unfolding reads_ok_def by (metis (no_types, lifting))
    ultimately show ?thesis
      using ok by (intro exI [of _ "insert si H"]) auto
  next
    case go
    then have step: "shard_loop ans rotation tot dn k m (si # rest) st =
      shard_loop ans rotation tot dn k m rest ?st'"
      by (auto simp: Let_def)
    have un: "insert si H \<union> set rest = H \<union> set (si # rest)" by auto
    show ?thesis
      using Cons.IH [OF ok rest(1,2)] unfolding step un by blast
  qed
qed

section \<open>Cohorts\<close>

lemma flatten_simps [simp]:
  "flatten [] = []" "flatten (None # xs) = flatten xs" "flatten (Some x # xs) = x # flatten xs"
  "flatten (xs @ ys) = flatten xs @ flatten ys"
  by (simp_all add: flatten_def map_filter_def)

lemma length_flatten: "length (flatten xs) \<le> length xs"
  by (simp add: flatten_def map_filter_def)

lemma decodable_cohort_some:
  assumes "decodable_cohort shards k = Some c"
  shows "c \<noteq> 0" "k \<le> length (filter (\<lambda>s. nb_cohort s = c) (flatten shards))"
    "\<exists>s \<in> set (flatten shards). nb_cohort s = c"
  using assms by (auto simp: decodable_cohort_def find_Some_iff)

lemma decodable_cohort_none:
  assumes "decodable_cohort shards k = None" "0 < k" "c \<noteq> 0"
  shows "length (filter (\<lambda>s. nb_cohort s = c) (flatten shards)) < k"
proof (rule ccontr)
  assume n: "\<not> ?thesis"
  then have "filter (\<lambda>s. nb_cohort s = c) (flatten shards) \<noteq> []"
    using assms(2) by auto
  then obtain s where s: "s \<in> set (flatten shards)" "nb_cohort s = c"
    by (auto simp: filter_empty_conv)
  then show False
    using assms(1,3) n by (auto simp: decodable_cohort_def find_None_iff)
qed

lemma two_cohorts:
  assumes "a \<noteq> b"
  shows "length (filter (\<lambda>s. nb_cohort s = a) xs) + length (filter (\<lambda>s. nb_cohort s = b) xs) \<le> length xs"
  using assms by (induction xs) auto

text \<open>
  Cohort selection is unambiguous. Among at most \<open>k + m\<close> shard answers with \<open>m < k\<close>, the
  selected cohort is exactly the non-zero tag that at least \<open>k\<close> of the answers carry, whatever
  the order of the answers: no two write attempts can both be decodable, and none is selected
  only when no tag reaches \<open>k\<close>.
\<close>

theorem decodable_cohort_unique:
  assumes "length shards \<le> k + m" "m < k"
  shows "decodable_cohort shards k = Some c \<longleftrightarrow>
    c \<noteq> 0 \<and> k \<le> length (filter (\<lambda>s. nb_cohort s = c) (flatten shards))"
proof
  assume "decodable_cohort shards k = Some c"
  then show "c \<noteq> 0 \<and> k \<le> length (filter (\<lambda>s. nb_cohort s = c) (flatten shards))"
    using decodable_cohort_some by blast
next
  assume c: "c \<noteq> 0 \<and> k \<le> length (filter (\<lambda>s. nb_cohort s = c) (flatten shards))"
  then have "decodable_cohort shards k \<noteq> None"
    using decodable_cohort_none [of shards k c] assms(2) by auto
  then obtain c' where c': "decodable_cohort shards k = Some c'" by auto
  have "c' = c"
  proof (rule ccontr)
    assume "c' \<noteq> c"
    from two_cohorts [OF this, of "flatten shards"] show False
      using c decodable_cohort_some(2) [OF c'] length_flatten [of shards] assms by linarith
  qed
  then show "decodable_cohort shards k = Some c" using c' by simp
qed

theorem decodable_cohort_unique_witness:
  "let s = (\<lambda>b c. Some \<lparr>nb_body = [b], nb_cohort = c\<rparr>); shards = [s 1 5, s 2 6, None, s 3 6, s 4 6]
   in decodable_cohort shards 3 = Some 6 \<and> decodable_cohort shards 3 \<noteq> Some 5"
  using decodable_cohort_unique [of "[Some \<lparr>nb_body = [1], nb_cohort = 5\<rparr>, Some \<lparr>nb_body = [2], nb_cohort = 6\<rparr>,
      None, Some \<lparr>nb_body = [3], nb_cohort = 6\<rparr>, Some \<lparr>nb_body = [4], nb_cohort = 6\<rparr>]" 3 2 6]
  by simp

text \<open>The positions that answered with a shard of cohort \<open>c\<close>.\<close>

definition holders :: "(nat \<Rightarrow> RpcError + NodeBlob) \<Rightarrow> nat set \<Rightarrow> u64 \<Rightarrow> nat set" where
  "holders ans H c = {i \<in> H. \<exists>d. ans i = Inr d \<and> nb_cohort d = c}"

lemma flatten_count:
  "length (filter P (flatten (map f [0..<n]))) = card {i. i < n \<and> (\<exists>d. f i = Some d \<and> P d)}"
proof (induction n)
  case (Suc n)
  have "{i. i < Suc n \<and> (\<exists>d. f i = Some d \<and> P d)} =
      (if \<exists>d. f n = Some d \<and> P d then insert n {i. i < n \<and> (\<exists>d. f i = Some d \<and> P d)}
       else {i. i < n \<and> (\<exists>d. f i = Some d \<and> P d)})"
    by (auto simp: less_Suc_eq)
  then show ?case
    using Suc by (cases "f n") auto
qed simp

lemma received_some: "received ans H i = Some d \<longleftrightarrow> i \<in> H \<and> ans i = Inr d"
  by (auto simp: received_def split: sum.splits)

lemma cohort_count:
  assumes "reads_ok ans tot H st"
  shows "length (filter (\<lambda>s. nb_cohort s = c) (flatten (shard_results st))) = card (holders ans H c)"
proof -
  have "{i. i < tot \<and> (\<exists>d. received ans H i = Some d \<and> nb_cohort d = c)} = holders ans H c"
    using assms by (auto simp: holders_def received_some reads_ok_def)
  then show ?thesis
    using assms by (simp add: reads_ok_def flatten_count)
qed

lemma reads_ok_finite: "reads_ok ans tot H st \<Longrightarrow> finite H"
  by (auto simp: reads_ok_def intro: finite_subset)

section \<open>Reconstruction\<close>

lemma enumerate_present_upt:
  "enumerate_present (map (\<lambda>i. if i \<in> P then Some (v i) else None) [0..<n]) =
    map (\<lambda>i. (i, v i)) (filter (\<lambda>i. i \<in> P) [0..<n])"
proof -
  have "List.enumerate 0 (map g [0..<n]) = map (\<lambda>i. (i, g i)) [0..<n]" for g :: "nat \<Rightarrow> 'a option"
    by (simp add: enumerate_eq_zip zip_map2 zip_same_conv_map)
  then show ?thesis
    by (simp add: enumerate_present_def map_filter_def filter_map comp_def)
qed

lemma join_shards_upt:
  assumes "\<forall>j < n. i \<le> j \<and> j \<notin> P \<longrightarrow> restored j = Some (v j)"
  shows "join_shards restored i (map (\<lambda>j. if j \<in> P then Some (v j) else None) [i..<n]) =
    Inr (concat (map v [i..<n]))"
  using assms
proof (induction "n - i" arbitrary: i)
  case (Suc d)
  then have "i < n" "d = n - Suc i" by auto
  then show ?case
    using Suc.hyps(1) [of "Suc i"] Suc.prems by (simp add: upt_conv_Cons)
qed simp

text \<open>
  What a reader meets after a stripe was stored: the positions \<open>S\<close> hold it, they are more than
  \<open>k\<close>, and a shard that carries the tag of the stripe is the shard of its position.
\<close>

definition stripe_stored :: "ec_lib \<Rightarrow> nat \<Rightarrow> nat \<Rightarrow> bytes \<Rightarrow> (nat \<Rightarrow> RpcError + NodeBlob) \<Rightarrow> nat set \<Rightarrow> bool" where
  "stripe_stored lib k m body ans S \<longleftrightarrow>
     S \<subseteq> {..<k + m} \<and> k < card S \<and>
     (\<forall>i \<in> S. ans i \<noteq> Inl NotFound \<and> (\<forall>d. ans i = Inr d \<longrightarrow> nb_cohort d = stripe_tag lib k body)) \<and>
     (\<forall>i < k + m. \<forall>d. ans i = Inr d \<and> nb_cohort d = stripe_tag lib k body \<longrightarrow>
        nb_body d = stripe lib k m body ! i)"

lemma stripe_not_absent:
  assumes "stripe_stored lib k m body ans S" "reads_ok ans (k + m) H st"
  shows "card {i \<in> H. ans i = Inl NotFound} < m"
proof -
  let ?N = "{i \<in> H. ans i = Inl NotFound}"
  have "?N \<inter> S = {}" "?N \<union> S \<subseteq> {..<k + m}" "finite ?N" "finite S"
    using assms reads_ok_finite [OF assms(2)]
    by (auto simp: stripe_stored_def reads_ok_def intro: finite_subset)
  then have "card ?N + card S \<le> card {..<k + m}"
    by (metis card_Un_disjoint card_mono finite_lessThan)
  then show ?thesis
    using assms(1) by (auto simp: stripe_stored_def)
qed

lemma stripe_cohort:
  assumes "stripe_stored lib k m body ans S" "reads_ok ans (k + m) H st" "m < k"
    and "decodable_cohort (shard_results st) k = Some c"
  shows "c = stripe_tag lib k body" "k \<le> card (holders ans H c)"
proof -
  show k: "k \<le> card (holders ans H c)"
    using decodable_cohort_some(2) [OF assms(4)] cohort_count [OF assms(2)] by simp
  show "c = stripe_tag lib k body"
  proof (rule ccontr)
    assume "c \<noteq> stripe_tag lib k body"
    then have "holders ans H c \<inter> S = {}"
      using assms(1) by (auto simp: holders_def stripe_stored_def)
    moreover have "holders ans H c \<union> S \<subseteq> {..<k + m}" "finite (holders ans H c)" "finite S"
      using assms(1,2) reads_ok_finite [OF assms(2)]
      by (auto simp: stripe_stored_def reads_ok_def holders_def intro: finite_subset)
    ultimately have "card (holders ans H c) + card S \<le> card {..<k + m}"
      by (metis card_Un_disjoint card_mono finite_lessThan)
    then show False
      using k assms(1,3) by (auto simp: stripe_stored_def)
  qed
qed

lemma stripe_received:
  assumes "stripe_stored lib k m body ans S" "reads_ok ans (k + m) H st"
    and "i \<in> holders ans H (stripe_tag lib k body)"
  shows "i < k + m" "received ans H i =
    Some \<lparr>nb_body = stripe lib k m body ! i, nb_cohort = stripe_tag lib k body\<rparr>"
proof -
  obtain d where d: "i \<in> H" "ans i = Inr d" "nb_cohort d = stripe_tag lib k body"
    using assms(3) by (auto simp: holders_def)
  show i: "i < k + m"
    using d(1) assms(2) by (auto simp: reads_ok_def)
  have "nb_body d = stripe lib k m body ! i"
    using assms(1) i d(2,3) by (auto simp: stripe_stored_def)
  then show "received ans H i =
      Some \<lparr>nb_body = stripe lib k m body ! i, nb_cohort = stripe_tag lib k body\<rparr>"
    using d by (cases d) (simp add: received_def)
qed

lemma stripe_shards_for_rs:
  assumes "stripe_stored lib k m body ans S" "reads_ok ans (k + m) H st"
    and "\<forall>s \<in> set (stripe lib k m body). length s = ss" "length (stripe lib k m body) = k + m"
  shows "shards_for_rs (shard_results st) (stripe_tag lib k body) ss =
    map (\<lambda>i. if i \<in> holders ans H (stripe_tag lib k body) then Some (stripe lib k m body ! i) else None)
      [0..<k + m]"
proof -
  let ?P = "holders ans H (stripe_tag lib k body)"
  have "(case received ans H i of None \<Rightarrow> None
       | Some shard \<Rightarrow> if nb_cohort shard = stripe_tag lib k body \<and> length (nb_body shard) = ss
           then Some (nb_body shard) else None) =
      (if i \<in> ?P then Some (stripe lib k m body ! i) else None)" if i: "i < k + m" for i
  proof (cases "i \<in> ?P")
    case True
    have "length (stripe lib k m body ! i) = ss"
      using assms(3,4) i by simp
    then show ?thesis
      using True stripe_received(2) [OF assms(1,2) True] by simp
  next
    case False
    then show ?thesis
      by (auto simp: received_def holders_def split: sum.split)
  qed
  then show ?thesis
    using assms(2) by (simp add: shards_for_rs_def reads_ok_def)
qed

lemma card_split:
  assumes "P \<subseteq> {..<k + m}"
  shows "card P = length (filter (\<lambda>i. i \<in> P) [0..<k]) + length (filter (\<lambda>j. k + j \<in> P) [0..<m])"
proof -
  have "card P = card {i \<in> P. i < k} + card {i \<in> P. k \<le> i}"
    using assms finite_subset [OF assms]
    by (subst card_Un_disjoint [symmetric]) (auto intro: arg_cong [where f = card])
  moreover have "{i \<in> P. i < k} = set (filter (\<lambda>i. i \<in> P) [0..<k])" by auto
  moreover have "{i \<in> P. k \<le> i} = (\<lambda>j. k + j) ` set (filter (\<lambda>j. k + j \<in> P) [0..<m])"
    using assms by (auto simp: image_iff le_iff_add)
  moreover have "card ((\<lambda>j. k + j) ` set (filter (\<lambda>j. k + j \<in> P) [0..<m])) =
      length (filter (\<lambda>j. k + j \<in> P) [0..<m])"
    by (subst card_image) (auto simp: distinct_card [symmetric])
  ultimately show ?thesis
    by (metis distinct_card distinct_filter distinct_upt)
qed

lemma upt_shift: "[k..<k + m] = map (\<lambda>j. k + j) [0..<m]"
  by (rule nth_equalityI) auto

lemma nth_upt_take: "k \<le> length xs \<Longrightarrow> map ((!) xs) [0..<k] = take k xs"
  by (rule nth_equalityI) auto

lemma rs_reconstruct_stripe:
  assumes "rs_laws lib k m" "0 < k" "body \<noteq> []"
    and "stripe_stored lib k m body ans S" "reads_ok ans (k + m) H st"
    and "k \<le> card (holders ans H (stripe_tag lib k body))"
  shows "rs_reconstruct lib k m (shard_results st) (stripe_tag lib k body)
    (ec_padded_len (length body) k div k) = Inr (pad_body body k)"
proof -
  let ?P = "holders ans H (stripe_tag lib k body)"
  let ?st = "stripe lib k m body"
  let ?rs = "shards_for_rs (shard_results st) (stripe_tag lib k body) (ec_padded_len (length body) k div k)"
  let ?g = "\<lambda>i. if i \<in> ?P then Some (?st ! i) else None"
  let ?Os = "filter (\<lambda>i. i \<in> ?P) [0..<k]" and ?Rs = "filter (\<lambda>j. k + j \<in> ?P) [0..<m]"
  note props = stripe_props [OF assms(1-3)]
  have P: "?P \<subseteq> {..<k + m}"
    using assms(5) by (auto simp: holders_def reads_ok_def)
  have rs: "?rs = map ?g [0..<k + m]"
    by (rule stripe_shards_for_rs [OF assms(4,5) props(5,4)])
  have take: "take k ?rs = map ?g [0..<k]"
    unfolding rs by (simp add: take_map)
  have "drop k ?rs = map ?g (map (\<lambda>j. k + j) [0..<m])"
    unfolding rs by (simp only: drop_map drop_upt upt_shift add_0)
  then have drop: "drop k ?rs = map (\<lambda>j. if j \<in> {j. k + j \<in> ?P} then Some (?st ! (k + j)) else None) [0..<m]"
    by (simp add: comp_def)
  have "enumerate_present (take k ?rs) = map (\<lambda>i. (i, ?st ! i)) ?Os"
    "enumerate_present (drop k ?rs) = map (\<lambda>j. (j, ?st ! (k + j))) ?Rs"
    unfolding take drop enumerate_present_upt by simp_all
  moreover obtain f where f: "rs_decode lib k m (map (\<lambda>i. (i, ?st ! i)) ?Os)
      (map (\<lambda>j. (j, ?st ! (k + j))) ?Rs) = Some f" "\<forall>i < k. i \<notin> set ?Os \<longrightarrow> f i = Some (?st ! i)"
    using props(7) [of ?Os ?Rs] card_split [OF P] assms(6) by auto
  moreover have "join_shards f 0 (map ?g [0..<k]) = Inr (concat (map ((!) ?st) [0..<k]))"
    using f(2) by (intro join_shards_upt) auto
  moreover have "concat (map ((!) ?st) [0..<k]) = pad_body body k"
    using props(2,4,6) nth_upt_take [of k ?st] by simp
  ultimately show ?thesis
    unfolding rs_reconstruct_def Let_def take
    by (simp add: cohort_matches_padded_body_def stripe_tag_def [symmetric])
qed

lemma fast_body_stripe:
  assumes "rs_laws lib k m" "0 < k" "body \<noteq> []"
    and "stripe_stored lib k m body ans S" "reads_ok ans (k + m) H st" "H \<subseteq> {..<k}"
    and "k \<le> card (holders ans H (stripe_tag lib k body))"
  shows "fast_body lib k (length body) (stripe_tag lib k body) (shard_results st) = Some (Inr body)"
proof -
  let ?P = "holders ans H (stripe_tag lib k body)"
  note props = stripe_props [OF assms(1-3)]
  have "?P \<subseteq> {..<k}" using assms(6) by (auto simp: holders_def)
  then have P: "?P = {..<k}"
    using assms(7) by (metis card_lessThan card_subset_eq card_mono finite_lessThan le_antisym)
  have "take k (shard_results st) = map (received ans H) [0..<k]"
    using assms(5) by (simp add: reads_ok_def take_map)
  also have "\<dots> = map (\<lambda>i. Some \<lparr>nb_body = stripe lib k m body ! i, nb_cohort = stripe_tag lib k body\<rparr>) [0..<k]"
    using stripe_received(2) [OF assms(4,5)] P by simp
  finally have take: "take k (shard_results st) =
    map (\<lambda>i. Some \<lparr>nb_body = stripe lib k m body ! i, nb_cohort = stripe_tag lib k body\<rparr>) [0..<k]" .
  have "concat (map (\<lambda>s. nb_body (the s)) (take k (shard_results st))) = concat (map ((!) (stripe lib k m body)) [0..<k])"
    unfolding take by (simp add: comp_def)
  also have "\<dots> = pad_body body k"
    using props(2,4,6) nth_upt_take [of k "stripe lib k m body"] by simp
  finally have "concat (map (\<lambda>s. nb_body (the s)) (take k (shard_results st))) = pad_body body k" .
  moreover have "list_all (\<lambda>s. s \<noteq> None) (take k (shard_results st))"
    unfolding take by (simp add: list_all_iff)
  ultimately show ?thesis
    using pad_body_props(2) [OF assms(2), of body]
    by (simp add: fast_body_def Let_def cohort_matches_padded_body_def stripe_tag_def [symmetric])
qed

definition probe_node :: "(nat \<Rightarrow> u64) \<Rightarrow> nat \<Rightarrow> BssNode list \<Rightarrow> BssNode list" where
  "probe_node clk ni nodes = nodes[ni := (nodes ! ni)\<lparr>circuit_breaker :=
     snd (is_available (clk ni) (circuit_breaker (nodes ! ni)))\<rparr>]"

lemma launch_reads_Cons:
  "launch_reads clk rotation tot (si # rest) nodes =
    (let ni = node_index si rotation tot; l = launch_reads clk rotation tot rest (probe_node clk ni nodes)
     in (if fst (is_available (clk ni) (circuit_breaker (nodes ! ni))) then si # fst l else fst l, snd l))"
  by (simp add: Let_def case_prod_unfold probe_node_def)

lemma probe_node_props [simp]:
  "length (probe_node clk ni nodes) = length nodes"
  "i < length nodes \<Longrightarrow> breaker_closed (nodes ! i) \<Longrightarrow> breaker_closed (probe_node clk ni nodes ! i)"
  by (cases "ni = i"; simp add: probe_node_def breaker_closed_def is_available_def)+

declare launch_reads.simps(2) [simp del]

lemma launch_reads_sub:
  "set (fst (launch_reads clk rotation tot l nodes)) \<subseteq> set l \<and>
   (distinct l \<longrightarrow> distinct (fst (launch_reads clk rotation tot l nodes))) \<and>
   length (snd (launch_reads clk rotation tot l nodes)) = length nodes"
proof (induction l arbitrary: nodes)
  case (Cons si rest)
  show ?case
    using Cons.IH [of "probe_node clk (node_index si rotation tot) nodes"]
    by (auto simp: launch_reads_Cons Let_def)
qed simp

lemma launch_reads_closed:
  assumes "i < length nodes" "breaker_closed (nodes ! i)"
  shows "breaker_closed (snd (launch_reads clk rotation tot l nodes) ! i) \<and>
    (si \<in> set l \<and> node_index si rotation tot = i \<longrightarrow> si \<in> set (fst (launch_reads clk rotation tot l nodes)))"
  using assms
proof (induction l arbitrary: nodes)
  case (Cons sj rest)
  have "fst (is_available now (circuit_breaker (nodes ! i)))" for now
    using Cons.prems by (simp add: breaker_closed_def is_available_def)
  then show ?case
    using Cons.IH [of "probe_node clk (node_index sj rotation tot) nodes"] Cons.prems
    by (auto simp: launch_reads_Cons Let_def)
qed simp

lemma inline_repair_stripe:
  assumes "rs_laws lib k m" "0 < k" "body \<noteq> []" "set missing \<subseteq> {..<k + m}"
  shows "\<exists>nodes'. inline_repair lib env k m rotation guid block version cohort
    (ec_padded_len (length body) k div k) (pad_body body k) missing nodes = Some (Inr nodes')"
proof -
  let ?l = "launch_reads (eg_clock3 env) rotation (k + m) missing nodes"
  note props = stripe_props [OF assms(1-3)]
  have len: "\<not> length (pad_body body k) < k * (ec_padded_len (length body) k div k)"
    using pad_body_props(1) [OF assms(2), of body] by simp
  have data: "split_shards k (ec_padded_len (length body) k div k) (pad_body body k) = stripe_data k body"
    by (simp add: stripe_data_def)
  have "length (stripe_data k body @ drop k (stripe lib k m body)) = k + m"
    using props(1,4) by simp
  then have "list_all (\<lambda>si. si < length (stripe_data k body @ drop k (stripe lib k m body))) (fst ?l)"
    using launch_reads_sub [of "eg_clock3 env" rotation "k + m" missing nodes] assms(4)
    by (auto simp: list_all_iff)
  then show ?thesis
    using len by (simp add: inline_repair_def data props(3) Let_def case_prod_unfold)
qed

lemma degraded_body_stripe:
  assumes "rs_laws lib k m" "0 < k" "body \<noteq> []"
    and "stripe_stored lib k m body ans S" "reads_ok ans (k + m) H st"
    and "k \<le> card (holders ans H (stripe_tag lib k body))"
  shows "fst (degraded_body lib env k m rotation guid block version (length body)
    (stripe_tag lib k body) st) = Some (Inr body)"
proof -
  let ?tag = "stripe_tag lib k body" and ?ss = "ec_padded_len (length body) k div k"
  note props = stripe_props [OF assms(1-3)]
  have "0 < card (holders ans H ?tag)" using assms(2,6) by simp
  then have "0 < length (filter (\<lambda>s. nb_cohort s = ?tag) (flatten (shard_results st)))"
    using cohort_count [OF assms(5), of ?tag] by simp
  then have "find (\<lambda>s. nb_cohort s = ?tag) (flatten (shard_results st)) \<noteq> None"
    by (auto simp: find_None_iff filter_empty_conv)
  then obtain first where first: "find (\<lambda>s. nb_cohort s = ?tag) (flatten (shard_results st)) = Some first"
    by auto
  then have f: "first \<in> set (flatten (shard_results st))" "nb_cohort first = ?tag"
    by (auto simp: find_Some_iff)
  from f(1) obtain i where "i < k + m" "received ans H i = Some first"
    using assms(5) by (auto simp: flatten_def map_filter_def reads_ok_def)
  then have "i \<in> holders ans H ?tag" "i < k + m" "received ans H i = Some first"
    using f(2) by (auto simp: received_some holders_def)
  then have "nb_body first = stripe lib k m body ! i"
    using stripe_received(2) [OF assms(4,5)] by fastforce
  then have ss: "length (nb_body first) = ?ss"
    using props(4,5) \<open>i < k + m\<close> by simp
  let ?missing = "filter (\<lambda>i. shard_missing st ! i) [0..<length (shard_missing st)]"
  have "set ?missing \<subseteq> {..<k + m}"
    using assms(5) by (auto simp: reads_ok_def)
  from inline_repair_stripe [OF assms(1-3) this] obtain nodes' where
    "inline_repair lib env k m rotation guid block version ?tag ?ss (pad_body body k) ?missing
      (read_nodes st) = Some (Inr nodes')" by blast
  then show ?thesis
    using first ss rs_reconstruct_stripe [OF assms] pad_body_props(2) [OF assms(2), of body]
    by (simp add: degraded_body_def Let_def)
qed

section \<open>The whole read\<close>

lemma handle_shard_nodes:
  "node_index si rotation tot \<noteq> i \<Longrightarrow> read_nodes (handle_shard rotation tot dn si r st) ! i = read_nodes st ! i"
  "length (read_nodes (handle_shard rotation tot dn si r st)) = length (read_nodes st)"
  by (auto simp: handle_shard_def Let_def node_success_def node_failure_def split: sum.split)

lemma data_loop_nodes:
  assumes "\<forall>si \<in> set l. node_index si rotation tot \<noteq> i"
  shows "read_nodes (snd (data_loop ans rotation tot dn k m hedge l n st)) ! i = read_nodes st ! i \<and>
    length (read_nodes (snd (data_loop ans rotation tot dn k m hedge l n st))) = length (read_nodes st)"
  using assms
proof (induction l arbitrary: st n hedge)
  case (Cons si rest)
  show ?case
    using Cons.IH [of "map_option (\<lambda>h. h - 1) hedge" _ "handle_shard rotation tot dn si (ans si) st"]
      Cons.prems handle_shard_nodes(1) [of si rotation tot i dn "ans si" st] handle_shard_nodes(2)
    by (auto simp: Let_def split: sum.split)
qed simp

lemma parity_phase_stripe:
  fixes lib env rotation k m guid block version body pending st
  defines "ans \<equiv> shard_answer env rotation (k + m) k"
  assumes "rs_laws lib k m" "m < k" "body \<noteq> []" "stripe_stored lib k m body ans S"
    and "reads_ok ans (k + m) H st" "H \<subseteq> {..<k}" "distinct pending" "set pending \<subseteq> {..<k} - H"
  defines "launched \<equiv> fst (launch_reads (eg_clock2 env) rotation (k + m) [k..<k + m] (read_nodes st))"
  defines "res \<equiv> fst (parity_phase lib env k m rotation guid block version (length body) pending st)"
  shows "res = Some (Inr body) \<or>
    (\<exists>n. res = Some (Inl (QuorumFailure (NoDecodableCohort k n)))) \<and>
      card (holders ans (H \<union> set pending \<union> set launched) (stripe_tag lib k body)) < k"
proof -
  let ?nodes1 = "snd (launch_reads (eg_clock2 env) rotation (k + m) [k..<k + m] (read_nodes st))"
  let ?l = "arrange (eg_order2 env) (pending @ launched)"
  let ?loop = "shard_loop ans rotation (k + m) (eg_done env) k m ?l (st\<lparr>read_nodes := ?nodes1\<rparr>)"
  have "set launched \<subseteq> {k..<k + m}" "distinct launched"
    using launch_reads_sub [of "eg_clock2 env" rotation "k + m" "[k..<k + m]" "read_nodes st"]
    by (auto simp: launched_def)
  then have dl: "distinct (pending @ launched)" and sl: "set (pending @ launched) \<subseteq> {..<k + m} - H"
    using assms(7-9) by fastforce+
  have "reads_ok ans (k + m) H (st\<lparr>read_nodes := ?nodes1\<rparr>)" using assms(6) by simp
  from shard_loop_spec [OF this, of ?l rotation "eg_done env" k m] obtain H' where
    H': "reads_ok ans (k + m) H' (snd ?loop)" "H' \<subseteq> H \<union> set ?l"
    "case fst ?loop of Inl e \<Rightarrow> e = BlockNotFound \<and> m \<le> card {i \<in> H'. ans i = Inl NotFound}
     | Inr _ \<Rightarrow> decodable_cohort (shard_results (snd ?loop)) k \<noteq> None \<or> H' = H \<union> set ?l"
    using dl sl by auto
  note absent = stripe_not_absent [OF assms(5) H'(1)]
  then have ok: "fst ?loop = Inr ()"
    using H'(3) by (cases "fst ?loop") auto
  have res: "res = fst (case decodable_cohort (shard_results (snd ?loop)) k of
      None \<Rightarrow> (Some (Inl (if length (flatten (shard_results (snd ?loop))) = 0 \<and> m \<le> shards_not_found (snd ?loop)
        then BlockNotFound
        else QuorumFailure (NoDecodableCohort k (length (flatten (shard_results (snd ?loop))))))),
        read_nodes (snd ?loop))
    | Some cohort \<Rightarrow> degraded_body lib env k m rotation guid block version (length body) cohort (snd ?loop))"
    using ok unfolding res_def parity_phase_def Let_def case_prod_unfold ans_def launched_def by simp
  show ?thesis
  proof (cases "decodable_cohort (shard_results (snd ?loop)) k")
    case None
    then have "H' = H \<union> set pending \<union> set launched"
      using H'(3) ok by auto
    moreover have "card (holders ans H' (stripe_tag lib k body)) < k"
      using decodable_cohort_none [OF None, of "stripe_tag lib k body"] assms(3) cohort_count [OF H'(1)]
      by simp
    moreover have "\<not> m \<le> shards_not_found (snd ?loop)"
      using absent H'(1) by (simp add: reads_ok_def)
    ultimately show ?thesis
      using None by (simp add: res)
  next
    case (Some c)
    note c = stripe_cohort [OF assms(5) H'(1) assms(3) Some]
    then show ?thesis
      using degraded_body_stripe [OF assms(2) _ assms(4,5) H'(1)] assms(3) Some by (simp add: res)
  qed
qed

text \<open>A shard whose node has a closed breaker is read, in the first phase or with the parity.\<close>

lemma closed_shard_is_read:
  fixes clk rotation k m nodes
  defines "launch \<equiv> launch_reads clk rotation (k + m) [0..<k] nodes"
  assumes "rotation \<le> k + m" "length nodes = k + m" "si < k + m"
    and "breaker_closed (nodes ! node_index si rotation (k + m))"
  shows "si \<in> set (fst launch) \<or>
    si \<in> set (fst (launch_reads clk' rotation (k + m) [k..<k + m]
      (read_nodes (snd (data_loop ans rotation (k + m) dn k m hedge (arrange order (fst launch)) 0
        (initial_read (k + m) (snd launch)))))))"
proof -
  let ?i = "node_index si rotation (k + m)"
  let ?l = "arrange order (fst launch)"
  have i: "?i < length nodes" using assms(3,4) node_index_less [of "k + m" si rotation] by linarith
  note closed = launch_reads_closed [OF i assms(5), of clk rotation "k + m" "[0..<k]"]
  show ?thesis
  proof (cases "si < k")
    case True
    then show ?thesis using closed [of si] by (simp add: launch_def)
  next
    case False
    have "set ?l \<subseteq> {..<k}" "length (snd launch) = k + m"
      using launch_reads_sub [of clk rotation "k + m" "[0..<k]" nodes] assms(3) by (auto simp: launch_def)
    then have "\<forall>sj \<in> set ?l. node_index sj rotation (k + m) \<noteq> ?i"
      using node_index_inj [OF assms(2) _ assms(4)] False by fastforce
    from data_loop_nodes [OF this, of ans dn k m hedge 0 "initial_read (k + m) (snd launch)"]
    show ?thesis
      using launch_reads_closed [of ?i _ clk' rotation "k + m" "[k..<k + m]" si] False assms(3,4) closed i
        \<open>length (snd launch) = k + m\<close>
      by (simp add: initial_read_def launch_def)
  qed
qed

lemma get_blob_ec_stripe:
  fixes lib env vol guid
  defines "k \<equiv> vol_k vol" and "m \<equiv> vol_m vol" and "rotation \<equiv> vol_rotation lib vol guid"
  defines "ans \<equiv> shard_answer env rotation (k + m) k"
  assumes "ec_volume_ok vol" "rs_laws lib k m" "body \<noteq> []" "stripe_stored lib k m body ans S"
  shows "fst (get_blob_ec lib env vol guid block version (length body)) = Some (Inr body) \<or>
    (\<exists>n. fst (get_blob_ec lib env vol guid block version (length body)) =
        Some (Inl (QuorumFailure (NoDecodableCohort k n)))) \<and>
      card {si. si < k + m \<and> breaker_closed (bss_nodes vol ! node_index si rotation (k + m)) \<and>
        (\<exists>d. ans si = Inr d \<and> nb_cohort d = stripe_tag lib k body)} < k"
proof -
  have vol: "m < k" "rotation \<le> k + m" "length (bss_nodes vol) = k + m"
    using assms(5) vol_rotation_le [OF assms(5)] by (auto simp: ec_volume_ok_def k_def m_def rotation_def)
  let ?launch = "launch_reads (eg_clock1 env) rotation (k + m) [0..<k] (bss_nodes vol)"
  let ?l = "arrange (eg_order1 env) (fst ?launch)"
  let ?loop = "data_loop ans rotation (k + m) (eg_done env) k m (eg_hedge env) ?l 0
    (initial_read (k + m) (snd ?launch))"
  have l: "distinct ?l" "set ?l \<subseteq> {..<k}" "length (snd ?launch) = k + m"
    using launch_reads_sub [of "eg_clock1 env" rotation "k + m" "[0..<k]" "bss_nodes vol"] vol(3) by auto
  have sub: "set ?l \<subseteq> {..<k + m} - {}" using l(2) by fastforce
  obtain H where H: "reads_ok ans (k + m) H (snd ?loop)" "H \<subseteq> set ?l"
    "case fst ?loop of Inl e \<Rightarrow> e = BlockNotFound \<and> m \<le> card {i \<in> H. ans i = Inl NotFound}
      | Inr pending \<Rightarrow> distinct pending \<and> set pending = set ?l - H"
    using data_loop_spec [OF reads_ok_initial [of ans "k + m" "snd ?launch"] l(1) sub,
        of rotation "eg_done env" k m "eg_hedge env" 0]
    unfolding Un_empty_left by blast
  obtain pending where pend: "fst ?loop = Inr pending" "distinct pending" "set pending = set ?l - H"
    using H(3) stripe_not_absent [OF assms(8) H(1)] by (auto split: sum.splits)
  have get: "fst (get_blob_ec lib env vol guid block version (length body)) =
      (case decodable_cohort (shard_results (snd ?loop)) k of
         Some cohort \<Rightarrow> fast_body lib k (length body) cohort (shard_results (snd ?loop))
       | None \<Rightarrow> fst (parity_phase lib env k m rotation guid block version (length body) pending (snd ?loop)))"
    using pend(1) assms(7) unfolding get_blob_ec_def Let_def case_prod_unfold k_def m_def rotation_def
      ans_def vol_rotation_def by (simp split: option.split)
  show ?thesis
  proof (cases "decodable_cohort (shard_results (snd ?loop)) k")
    case (Some c)
    note c = stripe_cohort [OF assms(8) H(1) vol(1) Some]
    have "H \<subseteq> {..<k}" using H(2) l(2) by blast
    then show ?thesis
      using fast_body_stripe [OF assms(6) _ assms(7,8) H(1)] c vol(1) Some by (simp add: get)
  next
    case None
    let ?par = "fst (launch_reads (eg_clock2 env) rotation (k + m) [k..<k + m] (read_nodes (snd ?loop)))"
    have "H \<subseteq> {..<k}" "set pending \<subseteq> {..<k} - H" using H(2) l(2) pend(3) by auto
    note par = parity_phase_stripe [OF assms(6) vol(1) assms(7) assms(8)[unfolded ans_def]
        H(1)[unfolded ans_def] this(1) pend(2) this(2), of guid block version, folded ans_def]
    let ?A = "{si. si < k + m \<and> breaker_closed (bss_nodes vol ! node_index si rotation (k + m)) \<and>
        (\<exists>d. ans si = Inr d \<and> nb_cohort d = stripe_tag lib k body)}"
    have read: "si \<in> set ?l \<or> si \<in> set ?par"
      if "si < k + m" "breaker_closed (bss_nodes vol ! node_index si rotation (k + m))" for si
      using closed_shard_is_read [OF vol(2,3) that, where clk = "eg_clock1 env" and clk' = "eg_clock2 env"
          and ans = ans and dn = "eg_done env" and hedge = "eg_hedge env" and order = "eg_order1 env"]
      unfolding arrange_props(2) .
    have "?A \<subseteq> holders ans (H \<union> set pending \<union> set ?par) (stripe_tag lib k body)"
      using read pend(3) by (auto simp: holders_def simp del: arrange_props(2))
    moreover have "finite (holders ans (H \<union> set pending \<union> set ?par) (stripe_tag lib k body))"
      using reads_ok_finite [OF H(1)] by (auto simp: holders_def)
    ultimately have "card ?A \<le> card (holders ans (H \<union> set pending \<union> set ?par) (stripe_tag lib k body))"
      by (rule card_mono [rotated])
    then show ?thesis
      using par None by (auto simp: get)
  qed
qed

section \<open>Writes\<close>

text \<open>The answer the node of position \<open>si\<close> gives to the write of its shard.\<close>

definition shard_put_answer ::
    "ec_lib \<Rightarrow> put_env \<Rightarrow> VolumeWithNodes \<Rightarrow> DataBlobGuid \<Rightarrow> u32 \<Rightarrow> bytes \<Rightarrow> u64 \<Rightarrow> nat \<Rightarrow> RpcError + unit" where
  "shard_put_answer lib env vol guid block body version si =
     (let k = vol_k vol; m = vol_m vol; shard = stripe lib k m body ! si
      in put_blob_to_node env (node_index si (vol_rotation lib vol guid) (k + m)) guid block shard
           (lib_xxh3 lib shard) version (stripe_tag lib k body))"

lemma placed_shards_eq:
  "placed_shards rotation tot avail shards =
    map (\<lambda>si. (node_index si rotation tot, shards ! si))
      (filter (\<lambda>si. avail ! node_index si rotation tot) [0..<length shards])"
  by (simp add: placed_shards_def filter_map comp_def)

lemma placed_shards_props:
  assumes "rotation \<le> tot" "length shards = tot"
  shows "distinct (map fst (placed_shards rotation tot avail shards))"
    "si < tot \<Longrightarrow> avail ! node_index si rotation tot \<Longrightarrow>
      map_of (placed_shards rotation tot avail shards) (node_index si rotation tot) = Some (shards ! si)"
proof -
  show d: "distinct (map fst (placed_shards rotation tot avail shards))"
    using node_index_inj [OF assms(1)] assms(2)
    by (auto simp: placed_shards_eq distinct_map inj_on_def comp_def)
  show "map_of (placed_shards rotation tot avail shards) (node_index si rotation tot) = Some (shards ! si)"
    if "si < tot" "avail ! node_index si rotation tot"
    using that assms(2) by (intro map_of_is_SomeI [OF d]) (auto simp: placed_shards_eq)
qed

lemma put_loop_ok_fst:
  assumes "fst (put_loop res dn w order sw outc errs nodes) = Inr out"
  shows "\<exists>handled pending. order = handled @ pending \<and>
    w \<le> sw + length (filter (\<lambda>i. acked (res i)) handled) \<and>
    out = (if \<exists>i \<in> set handled. res i = Inl VersionSkipped then AlreadyPresent else outc)"
proof -
  obtain pending nodes' where "put_loop res dn w order sw outc errs nodes = (Inr out, pending, nodes')"
    using assms by (metis prod.collapse)
  from put_loop_ok [OF this] show ?thesis by blast
qed

lemma put_blob_ec_ok:
  fixes lib vol guid
  defines "k \<equiv> vol_k vol" and "m \<equiv> vol_m vol"
  assumes "ec_volume_ok vol" "rs_laws lib k m" "body \<noteq> []"
    and "fst (put_blob_ec lib env vol guid block body version) = Inr out"
  shows "\<exists>S \<subseteq> {..<k + m}. k < card S \<and>
    (\<forall>si \<in> S. acked (shard_put_answer lib env vol guid block body version si)) \<and>
    (out = Stored \<longrightarrow> (\<forall>si \<in> S. shard_put_answer lib env vol guid block body version si = Inr ()))"
proof -
  let ?rot = "vol_rotation lib vol guid" and ?st = "stripe lib k m body"
  let ?ans = "shard_put_answer lib env vol guid block body version"
  let ?pass = "availability_pass (pe_clock env) 0 (bss_nodes vol)"
  let ?sent = "placed_shards ?rot (k + m) (fst ?pass) ?st"
  let ?order = "arrange (pe_order env) (map fst ?sent)"
  let ?res = "\<lambda>ni. put_blob_to_node env ni guid block (the (map_of ?sent ni))
    (lib_xxh3 lib (the (map_of ?sent ni))) version (stripe_tag lib k body)"
  have k: "0 < k" and rot: "?rot \<le> k + m"
    using assms(3) vol_rotation_le [OF assms(3)] by (auto simp: ec_volume_ok_def k_def m_def)
  note props = stripe_props [OF assms(4) k assms(5)]
  have st: "stripe_data k body @ drop k ?st = ?st"
    using props(6) append_take_drop_id [of k ?st] by simp
  have rdef: "ec_rotation (lib_crc32 lib) (blob_id guid) (word_of_nat (k + m)) = ?rot"
    by (simp add: vol_rotation_def k_def m_def)
  let ?loop = "put_loop ?res (pe_done env) (k + 1) ?order 0 Stored [] (snd ?pass)"
  have "fst (put_blob_ec lib env vol guid block body version) =
      (if length (filter id (fst ?pass)) < k + 1
       then Inl (QuorumFailure (InsufficientNodes (length (filter id (fst ?pass))) (k + m) (k + 1)))
       else fst ?loop)"
    unfolding put_blob_ec_def Let_def case_prod_unfold k_def [symmetric] m_def [symmetric]
      stripe_data_def [symmetric] stripe_tag_def [symmetric] props(3) rdef option.case st
    using assms(5) by simp
  then have "fst ?loop = Inr out"
    using assms(6) by (simp split: if_splits)
  from put_loop_ok_fst [OF this] obtain h pending where h: "?order = h @ pending"
    "k + 1 \<le> 0 + length (filter (\<lambda>i. acked (?res i)) h)"
    "out = (if \<exists>i \<in> set h. ?res i = Inl VersionSkipped then AlreadyPresent else Stored)"
    by blast
  have h_sub: "distinct h" "set h \<subseteq> fst ` set ?sent"
    using arrange_props(1) [OF placed_shards_props(1) [OF rot props(4)], of "pe_order env" "fst ?pass"]
      arrange_props(2) [of "pe_order env" "map fst ?sent"] unfolding h(1) by auto
  have pos: "\<exists>si < k + m. ni = node_index si ?rot (k + m) \<and> ?res ni = ?ans si" if "ni \<in> set h" for ni
  proof -
    have "ni \<in> fst ` set ?sent" using that h_sub(2) by blast
    then obtain si where si: "si < k + m" "ni = node_index si ?rot (k + m)" "fst ?pass ! ni"
      using props(4) by (auto simp: placed_shards_eq)
    then have "?res ni = ?ans si"
      using placed_shards_props(2) [OF rot props(4) si(1)]
      by (simp add: shard_put_answer_def Let_def k_def m_def)
    then show ?thesis using si by blast
  qed
  let ?S = "{si. si < k + m \<and> acked (?ans si) \<and> (out = Stored \<longrightarrow> ?ans si = Inr ())}"
  have "{i \<in> set h. acked (?res i)} \<subseteq> (\<lambda>si. node_index si ?rot (k + m)) ` ?S"
  proof
    fix i assume "i \<in> {i \<in> set h. acked (?res i)}"
    then have i: "i \<in> set h" "acked (?res i)" by auto
    obtain si where si: "si < k + m" "i = node_index si ?rot (k + m)" "?res i = ?ans si"
      using pos [OF i(1)] by blast
    have "out = Stored \<longrightarrow> ?res i \<noteq> Inl VersionSkipped"
      using h(3) i(1) by auto
    then have "si \<in> ?S"
      using si i(2) unfolding acked_def by auto
    then show "i \<in> (\<lambda>si. node_index si ?rot (k + m)) ` ?S" using si(2) by blast
  qed
  then have "card {i \<in> set h. acked (?res i)} \<le> card ?S"
    by (intro surj_card_le) auto
  then show ?thesis
    using h(2) count_distinct [OF h_sub(1), of "\<lambda>i. acked (?res i)"] by (intro exI [of _ ?S]) auto
qed


section \<open>The round trip\<close>

text \<open>
  What the code relies on of the nodes between a put and a later read of the same key. A node
  that acknowledged its shard has the key, and a node that has the key does not answer
  \<open>NotFound\<close>; a node that stored the shard returns it with its cohort tag; and a shard that
  carries the tag, which hashes the padded body, is the shard of that body for its position.
\<close>

definition ec_nodes_keep ::
    "ec_lib \<Rightarrow> put_env \<Rightarrow> VolumeWithNodes \<Rightarrow> DataBlobGuid \<Rightarrow> u32 \<Rightarrow> bytes \<Rightarrow> u64 \<Rightarrow> ec_get_env \<Rightarrow> (nat \<Rightarrow> bool) \<Rightarrow> bool" where
  "ec_nodes_keep lib penv vol guid block body version genv holds \<longleftrightarrow>
     (let k = vol_k vol; m = vol_m vol;
          put = shard_put_answer lib penv vol guid block body version;
          get = (\<lambda>si. eg_rpc genv (node_index si (vol_rotation lib vol guid) (k + m)))
      in \<forall>si < k + m.
           (acked (put si) \<longrightarrow> holds si) \<and>
           (\<forall>a. holds si \<longrightarrow> get si a \<noteq> Inl NotFound) \<and>
           (\<forall>a blob. put si = Inr () \<and> get si a = Inr blob \<longrightarrow> nb_cohort blob = stripe_tag lib k body) \<and>
           (\<forall>a blob. get si a = Inr blob \<and> nb_cohort blob = stripe_tag lib k body \<longrightarrow>
              nb_body blob = stripe lib k m body ! si))"

lemma shard_answer_attempt: "\<exists>a. shard_answer env rotation tot k si = eg_rpc env (node_index si rotation tot) a"
  using node_instance_attempt by (auto simp: shard_answer_def)

lemma ec_stored_stripe:
  fixes lib vol guid
  defines "k \<equiv> vol_k vol" and "m \<equiv> vol_m vol"
  assumes "ec_volume_ok vol" "rs_laws lib k m" "body \<noteq> []"
    and "fst (put_blob_ec lib penv vol guid block body version) = Inr Stored"
    and "ec_nodes_keep lib penv vol guid block body version genv holds"
  shows "\<exists>S. stripe_stored lib k m body (shard_answer genv (vol_rotation lib vol guid) (k + m) k) S"
proof -
  let ?ans = "shard_answer genv (vol_rotation lib vol guid) (k + m) k"
  obtain S where S: "S \<subseteq> {..<k + m}" "k < card S"
    "\<forall>si \<in> S. shard_put_answer lib penv vol guid block body version si = Inr ()"
    using put_blob_ec_ok [OF assms(3) assms(4)[unfolded k_def m_def] assms(5,6)]
    unfolding k_def [symmetric] m_def [symmetric] by blast
  note keep = assms(7) [unfolded ec_nodes_keep_def Let_def, folded k_def m_def]
  have "?ans si \<noteq> Inl NotFound \<and> (\<forall>d. ?ans si = Inr d \<longrightarrow> nb_cohort d = stripe_tag lib k body)"
    if "si \<in> S" for si
  proof -
    have si: "si < k + m" "shard_put_answer lib penv vol guid block body version si = Inr ()"
      using S(1,3) that by auto
    then have "acked (shard_put_answer lib penv vol guid block body version si)"
      by (simp add: acked_def)
    then show ?thesis
      using keep si shard_answer_attempt [of genv "vol_rotation lib vol guid" "k + m" k si] by metis
  qed
  moreover have "nb_body d = stripe lib k m body ! si"
    if "si < k + m" "?ans si = Inr d" "nb_cohort d = stripe_tag lib k body" for si d
    using keep that shard_answer_attempt [of genv "vol_rotation lib vol guid" "k + m" k si] by metis
  ultimately show ?thesis
    using S(1,2) by (intro exI [of _ S]) (simp add: stripe_stored_def)
qed

lemma ec_read_back:
  fixes lib vol guid
  defines "k \<equiv> vol_k vol" and "m \<equiv> vol_m vol"
  assumes "ec_volume_ok vol" "rs_laws lib k m"
    and "fst (put_blob_ec lib penv vol guid block body version) = Inr Stored"
    and "vol_mode vol2 = vol_mode vol" "length (bss_nodes vol2) = length (bss_nodes vol)"
    and "ec_nodes_keep lib penv vol guid block body version genv holds"
  shows "(fst (get_blob_ec lib genv vol2 guid block version (length body)) = Some (Inr body) \<or>
      (\<exists>n. fst (get_blob_ec lib genv vol2 guid block version (length body)) =
         Some (Inl (QuorumFailure (NoDecodableCohort k n))))) \<and>
    (k \<le> card {si. si < k + m \<and>
        breaker_closed (bss_nodes vol2 ! node_index si (vol_rotation lib vol guid) (k + m)) \<and>
        shard_put_answer lib penv vol guid block body version si = Inr () \<and>
        (\<forall>a. \<exists>blob. eg_rpc genv (node_index si (vol_rotation lib vol guid) (k + m)) a = Inr blob)} \<longrightarrow>
     fst (get_blob_ec lib genv vol2 guid block version (length body)) = Some (Inr body))"
proof (cases "body = []")
  case True
  then show ?thesis by (simp add: get_blob_ec_def)
next
  case False
  let ?rot = "vol_rotation lib vol guid"
  let ?ans = "shard_answer genv ?rot (k + m) k"
  have vol2: "ec_volume_ok vol2" "vol_k vol2 = k" "vol_m vol2 = m" "vol_rotation lib vol2 guid = ?rot"
    using assms(3,6,7) by (simp_all add: ec_volume_ok_def vol_k_def vol_m_def vol_rotation_def k_def m_def)
  obtain S where "stripe_stored lib k m body ?ans S"
    using ec_stored_stripe [OF assms(3) assms(4)[unfolded k_def m_def] False assms(5,8)]
    by (auto simp: k_def m_def)
  note get = get_blob_ec_stripe [where lib = lib and guid = guid and env = genv,
      OF vol2(1), unfolded vol2, OF assms(4) False this, of block version]
  let ?P = "\<lambda>si. breaker_closed (bss_nodes vol2 ! node_index si ?rot (k + m))"
  let ?L = "{si. si < k + m \<and> ?P si \<and> shard_put_answer lib penv vol guid block body version si = Inr () \<and>
        (\<forall>a. \<exists>blob. eg_rpc genv (node_index si ?rot (k + m)) a = Inr blob)}"
  let ?A = "{si. si < k + m \<and> ?P si \<and> (\<exists>d. ?ans si = Inr d \<and> nb_cohort d = stripe_tag lib k body)}"
  note keep = assms(8) [unfolded ec_nodes_keep_def Let_def, folded k_def m_def]
  have "?L \<subseteq> ?A"
  proof
    fix si assume si: "si \<in> ?L"
    obtain a where a: "?ans si = eg_rpc genv (node_index si ?rot (k + m)) a"
      using shard_answer_attempt by blast
    then obtain blob where "?ans si = Inr blob" using si by auto
    then show "si \<in> ?A" using si keep a by auto
  qed
  then have "card ?L \<le> card ?A" by (intro card_mono) auto
  then have "\<not> k \<le> card ?L" if "card ?A < k" using that by linarith
  then show ?thesis using get by blast
qed

text \<open>
  C2. Read your writes on an erasure-coded volume. Let a put have returned \<open>Stored\<close> and the
  nodes keep what they stored. A later read of the same version, with any breakers open, any
  order of the answers, the hedge timer firing at any moment and any shards lost, returns
  exactly the bytes that were put or fails because fewer than \<open>k\<close> shards of one cohort
  answered: it never panics, never reports the block as absent and never returns other bytes.
  It does return them whenever \<open>k\<close> of the nodes that stored their shard have a closed breaker
  and answer.
\<close>

theorem read_after_ec_write:
  fixes lib vol guid
  defines "k \<equiv> vol_k vol" and "m \<equiv> vol_m vol"
  assumes "ec_volume_ok vol" "rs_laws lib k m"
    and "fst (put_blob_ec lib penv vol guid block body version) = Inr Stored"
    and "vol_mode vol2 = vol_mode vol" "length (bss_nodes vol2) = length (bss_nodes vol)"
    and "ec_nodes_keep lib penv vol guid block body version genv holds"
  shows "(fst (get_blob_ec lib genv vol2 guid block version (length body)) = Some (Inr body) \<or>
      (\<exists>n. fst (get_blob_ec lib genv vol2 guid block version (length body)) =
         Some (Inl (QuorumFailure (NoDecodableCohort k n))))) \<and>
    (k \<le> card {si. si < k + m \<and>
        breaker_closed (bss_nodes vol2 ! node_index si (vol_rotation lib vol guid) (k + m)) \<and>
        shard_put_answer lib penv vol guid block body version si = Inr () \<and>
        (\<forall>a. \<exists>blob. eg_rpc genv (node_index si (vol_rotation lib vol guid) (k + m)) a = Inr blob)} \<longrightarrow>
     fst (get_blob_ec lib genv vol2 guid block version (length body)) = Some (Inr body))"
  using ec_read_back [OF assms(3) assms(4)[unfolded k_def m_def] assms(5-8)]
  unfolding k_def m_def by blast

text \<open>The single-parity code on two data shards, the placement of a three-node volume, and a read
  in which the node of the first data shard is down.\<close>

definition xor_bytes :: "bytes \<Rightarrow> bytes \<Rightarrow> bytes" where
  "xor_bytes a b = map2 xor a b"

definition xor_lib :: ec_lib where
  "xor_lib = \<lparr>lib_crc32 = (\<lambda>_. 1), lib_xxh3 = (\<lambda>_. 9),
     rs_encode = (\<lambda>k m data. case data of [a, b] \<Rightarrow> Some [xor_bytes a b] | _ \<Rightarrow> None),
     rs_decode = (\<lambda>k m Os Rs. Some (\<lambda>i.
        case map_of Os (1 - i) of None \<Rightarrow> None
        | Some a \<Rightarrow> (case map_of Rs 0 of None \<Rightarrow> None | Some p \<Rightarrow> Some (xor_bytes a p))))\<rparr>"

lemma xor_bytes_inverse:
  assumes "length a = length b"
  shows "xor_bytes a (xor_bytes a b) = b" "xor_bytes b (xor_bytes a b) = a"
proof -
  have "xor a (xor a b) = b" "xor b (xor a b) = a" for a b :: u8
    by (simp_all add: xor.left_commute flip: xor.assoc)
  then show "xor_bytes a (xor_bytes a b) = b" "xor_bytes b (xor_bytes a b) = a"
    using assms by (auto simp: xor_bytes_def intro!: nth_equalityI)
qed

lemma xor_lib_laws: "rs_laws xor_lib 2 1"
proof -
  have "\<exists>parity. rs_encode xor_lib 2 1 data = Some parity \<and> length parity = 1 \<and>
      (\<forall>s \<in> set parity. length s = L) \<and>
      (\<forall>Os Rs. distinct Os \<and> distinct Rs \<and> set Os \<subseteq> {..<2} \<and> set Rs \<subseteq> {..<1} \<and> 2 \<le> length Os + length Rs \<longrightarrow>
         (\<exists>f. rs_decode xor_lib 2 1 (map (\<lambda>i. (i, data ! i)) Os) (map (\<lambda>j. (j, parity ! j)) Rs) = Some f \<and>
            (\<forall>i < 2. i \<notin> set Os \<longrightarrow> f i = Some (data ! i))))"
    if dl: "length data = 2" "\<forall>s \<in> set data. length s = L" for data :: "bytes list" and L
  proof -
    obtain a b where data: "data = [a, b]" "length a = L" "length b = L"
      using dl by (auto simp: length_Suc_conv numeral_2_eq_2)
    have dec: "(case map_of (map (\<lambda>i. (i, data ! i)) Os) (1 - i) of None \<Rightarrow> None
        | Some x \<Rightarrow> (case map_of (map (\<lambda>j. (j, [xor_bytes a b] ! j)) Rs) 0 of None \<Rightarrow> None
            | Some p \<Rightarrow> Some (xor_bytes x p))) = Some (data ! i)"
      if h: "distinct Os" "distinct Rs" "set Os \<subseteq> {..<2}" "set Rs \<subseteq> {..<1}" "2 \<le> length Os + length Rs"
        "i < 2" "i \<notin> set Os" for Os Rs :: "nat list" and i
    proof -
      have "card (set Rs) \<le> card {..<1::nat}" "card (set Os) \<le> card ({..<2} - {i})"
        using h(3,4,7) by (auto intro!: card_mono simp del: card_lessThan)
      then have "card (set Rs) = 1" "card (set Os) = 1"
        using h(1,2,5,6) by (simp_all add: distinct_card)
      then have "0 \<in> set Rs" "1 - i \<in> set Os"
        using h(3,4,6,7) by (auto simp: card_1_singleton_iff lessThan_Suc numeral_2_eq_2)
      then have "map_of (map (\<lambda>i. (i, data ! i)) Os) (1 - i) = Some (data ! (1 - i))"
        "map_of (map (\<lambda>j. (j, [xor_bytes a b] ! j)) Rs) 0 = Some (xor_bytes a b)"
        by (simp_all add: map_of_map_restrict)
      moreover have "i = 0 \<or> i = 1" using h(6) by auto
      ultimately show ?thesis
        using xor_bytes_inverse [of a b] data by auto
    qed
    moreover have "length (xor_bytes a b) = L" using data by (simp add: xor_bytes_def)
    ultimately show ?thesis
      using data(1) by (auto simp: xor_lib_def)
  qed
  then show ?thesis
    unfolding rs_laws_def by blast
qed

definition ec_sample_volume :: VolumeWithNodes where
  "ec_sample_volume = \<lparr>vol_id = 0x8000,
     bss_nodes = map (\<lambda>a. bss_node_new a default_config) [''a'', ''b'', ''c''],
     vol_mode = ErasureCoded 2 1, inflight = 0\<rparr>"

definition ec_sample_put :: put_env where
  "ec_sample_put = \<lparr>pe_clock = (\<lambda>_. 0), pe_order = [2, 1, 0], pe_done = (\<lambda>_. 0), pe_rpc = (\<lambda>_ _. Inr ())\<rparr>"

definition ec_sample_get :: ec_get_env where
  "ec_sample_get = \<lparr>eg_clock1 = (\<lambda>_. 1), eg_order1 = [1, 0], eg_hedge = None, eg_clock2 = (\<lambda>_. 2),
     eg_order2 = [], eg_done = (\<lambda>_. 2),
     eg_rpc = (\<lambda>ni _. if ni = 1 then Inl ConnectionClosed
       else Inr \<lparr>nb_body = stripe xor_lib 2 1 [1, 2, 3] ! shard_index ni 1 3, nb_cohort = 9\<rparr>),
     eg_clock3 = (\<lambda>_. 3), eg_repair = ec_sample_put\<rparr>"

lemma ec_sample_put_run:
  "fst (put_blob_ec xor_lib ec_sample_put ec_sample_volume sample_guid 0 [1, 2, 3] 1) = Inr Stored"
  by code_simp

lemma ec_sample_params:
  "ec_volume_ok ec_sample_volume" "vol_k ec_sample_volume = 2" "vol_m ec_sample_volume = 1"
  "vol_rotation xor_lib ec_sample_volume sample_guid = 1" "stripe_tag xor_lib 2 body = 9"
  "shard_put_answer xor_lib ec_sample_put ec_sample_volume guid block body version si = Inr ()"
  by (simp_all add: ec_volume_ok_def ec_sample_volume_def vol_k_def vol_m_def vol_rotation_def
      ec_rotation_def xor_lib_def stripe_tag_def ec_cohort_tag_def shard_put_answer_def
      put_blob_to_node_def ec_sample_put_def)


lemma ec_sample_keep:
  "ec_nodes_keep xor_lib ec_sample_put ec_sample_volume sample_guid 0 [1, 2, 3] 1 ec_sample_get (\<lambda>_. True)"
  using node_shard_index [of 1 3]
  by (simp add: ec_nodes_keep_def ec_sample_params Let_def ec_sample_get_def acked_def)

theorem read_after_ec_write_witness:
  "fst (put_blob_ec xor_lib ec_sample_put ec_sample_volume sample_guid 0 [1, 2, 3] 1) = Inr Stored \<and>
   fst (get_blob_ec xor_lib ec_sample_get ec_sample_volume sample_guid 0 1 3) = Some (Inr [1, 2, 3])"
proof -
  note inst = read_after_ec_write [OF ec_sample_params(1), unfolded ec_sample_params(2,3), OF xor_lib_laws
      ec_sample_put_run refl refl ec_sample_keep, unfolded ec_sample_params(4)]
  have len: "length [1, 2, 3 :: u8] = 3" by simp
  have "breaker_closed (bss_nodes ec_sample_volume ! i)" if "i < 3" for i
    using that by (auto simp: ec_sample_volume_def breaker_closed_def bss_node_new_def breaker_new_def
        circuit_from_def less_Suc_eq numeral_3_eq_3)
  then have "{1, 2} \<subseteq> {si. si < 2 + 1 \<and>
      breaker_closed (bss_nodes ec_sample_volume ! node_index si 1 (2 + 1)) \<and>
      shard_put_answer xor_lib ec_sample_put ec_sample_volume sample_guid 0 [1, 2, 3] 1 si = Inr () \<and>
      (\<forall>a. \<exists>blob. eg_rpc ec_sample_get (node_index si 1 (2 + 1)) a = Inr blob)}" (is "_ \<subseteq> ?L")
    by (simp add: ec_sample_params(6) ec_sample_get_def node_index_def)
  then have "card {1, 2 :: nat} \<le> card ?L"
    by (rule card_mono [rotated]) simp
  then have "2 \<le> card ?L" by simp
  then show ?thesis
    using inst ec_sample_put_run unfolding len by blast
qed

section \<open>Integrity of every successful read\<close>

lemma fast_body_matches:
  "fast_body lib k content_len c results = Some (Inr b) \<Longrightarrow>
    \<exists>padded. b = take content_len padded \<and> cohort_matches_padded_body (lib_xxh3 lib) c padded"
  by (auto simp: fast_body_def Let_def split: if_splits)

lemma rs_reconstruct_matches:
  "rs_reconstruct lib k m results c ss = Inr padded \<Longrightarrow> cohort_matches_padded_body (lib_xxh3 lib) c padded"
  by (auto simp: rs_reconstruct_def Let_def split: option.splits sum.splits if_splits)

lemma degraded_body_matches:
  "fst (degraded_body lib env k m rotation guid block version content_len c st) = Some (Inr b) \<Longrightarrow>
    \<exists>padded. b = take content_len padded \<and> cohort_matches_padded_body (lib_xxh3 lib) c padded"
  unfolding degraded_body_def Let_def
  by (auto split: option.splits sum.splits dest: rs_reconstruct_matches)

lemma parity_phase_matches:
  assumes "reads_ok (shard_answer env rotation (k + m) k) (k + m) H st" "distinct pending"
    "set pending \<subseteq> {..<k} - H" "H \<subseteq> {..<k}"
    and "fst (parity_phase lib env k m rotation guid block version content_len pending st) = Some (Inr b)"
  shows "\<exists>padded c H'. b = take content_len padded \<and> cohort_matches_padded_body (lib_xxh3 lib) c padded \<and>
    H' \<subseteq> {..<k + m} \<and> k \<le> card (holders (shard_answer env rotation (k + m) k) H' c)"
proof -
  let ?ans = "shard_answer env rotation (k + m) k"
  let ?la = "launch_reads (eg_clock2 env) rotation (k + m) [k..<k + m] (read_nodes st)"
  let ?loop = "shard_loop ?ans rotation (k + m) (eg_done env) k m
    (arrange (eg_order2 env) (pending @ fst ?la)) (st\<lparr>read_nodes := snd ?la\<rparr>)"
  have "set (fst ?la) \<subseteq> {k..<k + m}" "distinct (fst ?la)"
    using launch_reads_sub [of "eg_clock2 env" rotation "k + m" "[k..<k + m]" "read_nodes st"] by auto
  then have dl: "distinct (pending @ fst ?la)" and sl: "set (pending @ fst ?la) \<subseteq> {..<k + m} - H"
    using assms(2-4) by fastforce+
  have "reads_ok ?ans (k + m) H (st\<lparr>read_nodes := snd ?la\<rparr>)" using assms(1) by simp
  from shard_loop_spec [OF this, of "arrange (eg_order2 env) (pending @ fst ?la)" rotation "eg_done env" k m]
  obtain H' where H': "reads_ok ?ans (k + m) H' (snd ?loop)" using dl sl by auto
  obtain c where c: "decodable_cohort (shard_results (snd ?loop)) k = Some c"
    "fst (degraded_body lib env k m rotation guid block version content_len c (snd ?loop)) = Some (Inr b)"
    using assms(5) unfolding parity_phase_def Let_def case_prod_unfold
    by (auto split: sum.splits option.splits)
  have "k \<le> card (holders ?ans H' c)"
    using decodable_cohort_some(2) [OF c(1)] cohort_count [OF H'] by simp
  then show ?thesis
    using degraded_body_matches [OF c(2)] H' by (auto simp: reads_ok_def)
qed

text \<open>
  C10. An erasure-coded read never mixes write attempts and never returns unverified bytes: bytes
  it returns are the requested prefix of a padded body whose hash is the tag that at least \<open>k\<close>
  of the shard positions answered with, whatever the nodes hold and answer.
\<close>

theorem ec_read_integrity:
  fixes lib env vol guid
  defines "k \<equiv> vol_k vol" and "m \<equiv> vol_m vol" and "rotation \<equiv> vol_rotation lib vol guid"
  assumes "0 < content_len" "fst (get_blob_ec lib env vol guid block version content_len) = Some (Inr b)"
  shows "\<exists>padded c. b = take content_len padded \<and> c \<noteq> 0 \<and> ec_cohort_tag (lib_xxh3 lib) padded = c \<and>
    k \<le> card {si. si < k + m \<and> (\<exists>d. shard_answer env rotation (k + m) k si = Inr d \<and> nb_cohort d = c)}"
proof -
  let ?ans = "shard_answer env rotation (k + m) k"
  let ?launch = "launch_reads (eg_clock1 env) rotation (k + m) [0..<k] (bss_nodes vol)"
  let ?l = "arrange (eg_order1 env) (fst ?launch)"
  let ?loop = "data_loop ?ans rotation (k + m) (eg_done env) k m (eg_hedge env) ?l 0
    (initial_read (k + m) (snd ?launch))"
  have l: "distinct ?l" "set ?l \<subseteq> {..<k}"
    using launch_reads_sub [of "eg_clock1 env" rotation "k + m" "[0..<k]" "bss_nodes vol"] by auto
  have sub: "set ?l \<subseteq> {..<k + m} - {}" using l(2) by fastforce
  obtain H where H: "reads_ok ?ans (k + m) H (snd ?loop)" "H \<subseteq> set ?l"
    "case fst ?loop of Inl e \<Rightarrow> e = BlockNotFound \<and> m \<le> card {i \<in> H. ?ans i = Inl NotFound}
      | Inr pending \<Rightarrow> distinct pending \<and> set pending = set ?l - H"
    using data_loop_spec [OF reads_ok_initial [of ?ans "k + m" "snd ?launch"] l(1) sub,
        of rotation "eg_done env" k m "eg_hedge env" 0]
    unfolding Un_empty_left by blast
  have get: "fst (get_blob_ec lib env vol guid block version content_len) =
      (case fst ?loop of Inl e \<Rightarrow> Some (Inl e) | Inr pending \<Rightarrow>
        (case decodable_cohort (shard_results (snd ?loop)) k of
           Some cohort \<Rightarrow> fast_body lib k content_len cohort (shard_results (snd ?loop))
         | None \<Rightarrow> fst (parity_phase lib env k m rotation guid block version content_len pending (snd ?loop))))"
    using assms(4) unfolding get_blob_ec_def Let_def case_prod_unfold k_def m_def rotation_def
      vol_rotation_def by (simp split: option.split sum.split)
  have "\<exists>padded c H'. b = take content_len padded \<and> cohort_matches_padded_body (lib_xxh3 lib) c padded \<and>
      H' \<subseteq> {..<k + m} \<and> k \<le> card (holders ?ans H' c)"
  proof (cases "decodable_cohort (shard_results (snd ?loop)) k")
    case None
    then obtain pending where p: "fst ?loop = Inr pending"
      "fst (parity_phase lib env k m rotation guid block version content_len pending (snd ?loop)) = Some (Inr b)"
      using assms(5) get by (auto split: sum.splits)
    have "distinct pending" "set pending \<subseteq> {..<k} - H" "H \<subseteq> {..<k}"
      using H(2,3) l(2) p(1) by auto
    then show ?thesis
      using parity_phase_matches [OF H(1) _ _ _ p(2)] by blast
  next
    case (Some c)
    then have "fast_body lib k content_len c (shard_results (snd ?loop)) = Some (Inr b)"
      using assms(5) get by (auto split: sum.splits)
    moreover have "k \<le> card (holders ?ans H c)"
      using decodable_cohort_some(2) [OF Some] cohort_count [OF H(1)] by simp
    moreover have "H \<subseteq> {..<k + m}" using H(1) unfolding reads_ok_def by blast
    ultimately show ?thesis
      using fast_body_matches by blast
  qed
  then obtain padded c H' where r: "b = take content_len padded"
    "cohort_matches_padded_body (lib_xxh3 lib) c padded" "H' \<subseteq> {..<k + m}" "k \<le> card (holders ?ans H' c)"
    by blast
  have "card (holders ?ans H' c) \<le> card {si. si < k + m \<and> (\<exists>d. ?ans si = Inr d \<and> nb_cohort d = c)}"
    using r(3) by (intro card_mono) (auto simp: holders_def)
  then show ?thesis
    using r by (intro exI [of _ padded] exI [of _ c]) (auto simp: cohort_matches_padded_body_def)
qed

lemma ec_sample_get_run:
  "fst (get_blob_ec xor_lib ec_sample_get ec_sample_volume sample_guid 0 1 3) = Some (Inr [1, 2, 3])"
  by code_simp

theorem ec_read_integrity_witness:
  "fst (get_blob_ec xor_lib ec_sample_get ec_sample_volume sample_guid 0 1 3) = Some (Inr [1, 2, 3]) \<and>
   (\<exists>padded c. [1, 2, 3] = take 3 padded \<and> c \<noteq> 0 \<and> ec_cohort_tag (\<lambda>_. 9) padded = c \<and>
    2 \<le> card {si. si < 3 \<and> (\<exists>d. shard_answer ec_sample_get 1 3 2 si = Inr d \<and> nb_cohort d = c)})"
proof -
  have "lib_xxh3 xor_lib = (\<lambda>_. 9)" "2 + 1 = (3 :: nat)" "0 < (3 :: nat)" by (simp_all add: xor_lib_def)
  then show ?thesis
    using ec_read_integrity [OF _ ec_sample_get_run, unfolded ec_sample_params] ec_sample_get_run
    by simp
qed

end
