(* ===== verification/Data_Vg_Proxy.thy ===== *)
theory Data_Vg_Proxy
  imports Ec_Reads
begin

text \<open>
  The public operations of \<open>DataVgProxy\<close> (\<open>data_vg_proxy.rs\<close>): each looks the volume up by the
  id in the blob guid, fails if it is not configured, and runs the replicated or the
  erasure-coded branch on it. What the operations share is the contract \<open>volume_operation\<close>:
  they may only touch the breakers of the volume.
\<close>

section \<open>Dispatch\<close>

fun update_first :: "('a \<Rightarrow> bool) \<Rightarrow> 'a \<Rightarrow> 'a list \<Rightarrow> 'a list" where
  "update_first P y [] = []"
| "update_first P y (x # xs) = (if P x then y # xs else x # update_first P y xs)"

definition with_volume ::
    "DataVgProxy \<Rightarrow> u16 \<Rightarrow> 'a \<Rightarrow> (VolumeWithNodes \<Rightarrow> 'a \<times> VolumeWithNodes) \<Rightarrow> 'a \<times> DataVgProxy" where
  "with_volume p vid missing run =
     (case find_volume p vid of
        None \<Rightarrow> (missing, p)
      | Some v \<Rightarrow>
          (let (r, v') = run v
           in (r, p\<lparr>volumes := update_first (\<lambda>v. vol_id v = vid) v' (volumes p)\<rparr>)))"

definition not_found :: "DataBlobGuid \<Rightarrow> DataVgError" where
  "not_found guid = InitializationError (VolumeNotFound (volume_id guid))"

definition put_volume ::
    "ec_lib \<Rightarrow> put_env \<Rightarrow> DataBlobGuid \<Rightarrow> u32 \<Rightarrow> bytes \<Rightarrow> u64 \<Rightarrow> VolumeWithNodes
      \<Rightarrow> (DataVgError + PutBlobOutcome) \<times> VolumeWithNodes" where
  "put_volume lib env guid block body version vol =
     (if is_ec_mode (vol_mode vol) then put_blob_ec lib env vol guid block body version
      else put_blob_replicated env (lib_xxh3 lib) vol guid block body version)"

definition put_blob_inner ::
    "ec_lib \<Rightarrow> put_env \<Rightarrow> DataVgProxy \<Rightarrow> DataBlobGuid \<Rightarrow> u32 \<Rightarrow> bytes \<Rightarrow> u64
      \<Rightarrow> (DataVgError + PutBlobOutcome) \<times> DataVgProxy" where
  "put_blob_inner lib env p guid block body version =
     with_volume p (volume_id guid) (Inl (not_found guid)) (put_volume lib env guid block body version)"

definition put_blob ::
    "ec_lib \<Rightarrow> put_env \<Rightarrow> DataVgProxy \<Rightarrow> DataBlobGuid \<Rightarrow> u32 \<Rightarrow> bytes \<Rightarrow> u64
      \<Rightarrow> (DataVgError + PutBlobOutcome) \<times> DataVgProxy" where
  "put_blob lib env p guid block body version = put_blob_inner lib env p guid block body version"

definition put_volume_vectored ::
    "ec_lib \<Rightarrow> (bytes list \<Rightarrow> u64) \<Rightarrow> put_env \<Rightarrow> DataBlobGuid \<Rightarrow> u32 \<Rightarrow> bytes list \<Rightarrow> u64 \<Rightarrow> VolumeWithNodes
      \<Rightarrow> (DataVgError + unit) \<times> VolumeWithNodes" where
  "put_volume_vectored lib xxh3_digest env guid block chunks version vol =
     (if is_ec_mode (vol_mode vol)
      then apfst (map_sum id (\<lambda>_. ())) (put_blob_ec lib env vol guid block (concat chunks) version)
      else put_blob_vectored_replicated env xxh3_digest vol guid block chunks version)"

definition put_blob_vectored ::
    "ec_lib \<Rightarrow> (bytes list \<Rightarrow> u64) \<Rightarrow> put_env \<Rightarrow> DataVgProxy \<Rightarrow> DataBlobGuid \<Rightarrow> u32 \<Rightarrow> bytes list \<Rightarrow> u64
      \<Rightarrow> (DataVgError + unit) \<times> DataVgProxy" where
  "put_blob_vectored lib xxh3_digest env p guid block chunks version =
     with_volume p (volume_id guid) (Inl (not_found guid))
       (put_volume_vectored lib xxh3_digest env guid block chunks version)"

text \<open>The environment of a read: for either mode of volume.\<close>

record proxy_get_env =
  pg_repl :: get_env
  pg_ec :: ec_get_env

definition get_volume ::
    "ec_lib \<Rightarrow> proxy_get_env \<Rightarrow> DataBlobGuid \<Rightarrow> u32 \<Rightarrow> u64 \<Rightarrow> nat \<Rightarrow> VolumeWithNodes
      \<Rightarrow> (DataVgError + bytes) option \<times> VolumeWithNodes" where
  "get_volume lib env guid block version content_len vol =
     (if is_ec_mode (vol_mode vol) then get_blob_ec lib (pg_ec env) vol guid block version content_len
      else apfst Some (get_blob_replicated (pg_repl env) vol))"

definition get_blob ::
    "ec_lib \<Rightarrow> proxy_get_env \<Rightarrow> DataVgProxy \<Rightarrow> DataBlobGuid \<Rightarrow> u32 \<Rightarrow> u64 \<Rightarrow> nat
      \<Rightarrow> (DataVgError + bytes) option \<times> DataVgProxy" where
  "get_blob lib env p guid block version content_len =
     with_volume p (volume_id guid) (Some (Inl (not_found guid)))
       (get_volume lib env guid block version content_len)"

definition list_blob_blocks_inner ::
    "list_env \<Rightarrow> DataVgProxy \<Rightarrow> DataBlobGuid \<Rightarrow> bool \<Rightarrow> (DataVgError + BlobBlockEntry list) \<times> DataVgProxy" where
  "list_blob_blocks_inner env p guid require_all_nodes =
     with_volume p (volume_id guid) (Inl (not_found guid))
       (\<lambda>vol. list_blob_blocks_volume env vol require_all_nodes)"

text \<open>\<open>env\<close> answers for a given range of blocks; the full listing asks for the range \<open>(0, 0)\<close>.\<close>

definition list_blob_blocks ::
    "(u32 \<Rightarrow> u32 \<Rightarrow> list_env) \<Rightarrow> DataVgProxy \<Rightarrow> DataBlobGuid \<Rightarrow> u32 \<Rightarrow> u32
      \<Rightarrow> (DataVgError + BlobBlockEntry list) \<times> DataVgProxy" where
  "list_blob_blocks env p guid first_block block_count =
     list_blob_blocks_inner (env first_block block_count) p guid False"

definition list_all_blob_blocks ::
    "(u32 \<Rightarrow> u32 \<Rightarrow> list_env) \<Rightarrow> DataVgProxy \<Rightarrow> DataBlobGuid \<Rightarrow> (DataVgError + BlobBlockEntry list) \<times> DataVgProxy" where
  "list_all_blob_blocks env p guid = list_blob_blocks_inner (env 0 0) p guid True"

definition delete_volume :: "delete_env \<Rightarrow> VolumeWithNodes \<Rightarrow> (DataVgError + unit) \<times> VolumeWithNodes" where
  "delete_volume env vol =
     (if is_ec_mode (vol_mode vol) then delete_blob_ec env vol else delete_blob_replicated env vol)"

definition delete_blob :: "delete_env \<Rightarrow> DataVgProxy \<Rightarrow> DataBlobGuid \<Rightarrow> (DataVgError + unit) \<times> DataVgProxy" where
  "delete_blob env p guid =
     with_volume p (volume_id guid) (Inl (not_found guid)) (delete_volume env)"

section \<open>The contract of a volume operation\<close>

definition volume_shape :: "VolumeWithNodes \<Rightarrow> u16 \<times> VolumeMode \<times> string list \<times> u64" where
  "volume_shape v = (vol_id v, vol_mode v, map address (bss_nodes v), inflight v)"

definition proxy_shape :: "DataVgProxy \<Rightarrow> (u16 \<times> VolumeMode \<times> string list \<times> u64) list" where
  "proxy_shape p = map volume_shape (volumes p)"

lemma shapeD:
  assumes "volume_shape v = volume_shape w"
  shows "vol_id v = vol_id w" "vol_mode v = vol_mode w" "length (bss_nodes v) = length (bss_nodes w)"
    "inflight v = inflight w"
  using assms by (auto simp: volume_shape_def dest: map_eq_imp_length_eq)

lemma shape_ok: "volume_shape v = volume_shape w \<Longrightarrow> volume_ok v = volume_ok w"
  using shapeD [of v w] by (auto simp: volume_ok_def split: VolumeMode.split)

lemma map_eq_list_all2: "map f xs = map f ys \<Longrightarrow> list_all2 (\<lambda>x y. f x = f y) xs ys"
  by (induction xs arbitrary: ys) (auto simp: Cons_eq_map_conv)

lemma proxy_shape_ok:
  assumes "proxy_shape p = proxy_shape q" shows "proxy_ok p = proxy_ok q"
proof -
  have "list_all2 (\<lambda>v w. volume_shape v = volume_shape w) (volumes p) (volumes q)"
    using assms unfolding proxy_shape_def by (rule map_eq_list_all2)
  then have "list_all volume_ok (volumes p) = list_all volume_ok (volumes q)"
    by (induction rule: list_all2_induct) (auto dest: shape_ok)
  then show ?thesis
    using assms by (auto simp: proxy_ok_def proxy_shape_def)
qed

lemma proxy_shape_find:
  assumes "proxy_shape p = proxy_shape q" "find_volume p vid = Some v"
  shows "\<exists>w. find_volume q vid = Some w \<and> volume_shape w = volume_shape v"
proof -
  have "list_all2 (\<lambda>v w. volume_shape v = volume_shape w) (volumes p) (volumes q)"
    using assms(1) unfolding proxy_shape_def by (rule map_eq_list_all2)
  then show ?thesis
    using assms(2) unfolding find_volume_def
    by (induction rule: list_all2_induct) (auto dest: shapeD split: if_splits)
qed

lemma update_first_shape:
  assumes "find P xs = Some x" "f y = f x"
  shows "map f (update_first P y xs) = map f xs"
  using assms by (induction xs) (auto split: if_splits)

locale volume_operation =
  fixes run :: "VolumeWithNodes \<Rightarrow> 'a \<times> VolumeWithNodes"
  assumes keeps_shape: "volume_shape (snd (run v)) = volume_shape v"
begin

lemma proxy_kept:
  "proxy_shape (snd (with_volume p vid missing run)) = proxy_shape p"
  "round_robin_counter (snd (with_volume p vid missing run)) = round_robin_counter p"
  "policy (snd (with_volume p vid missing run)) = policy p"
  using keeps_shape
  by (auto simp: with_volume_def proxy_shape_def find_volume_def case_prod_unfold Let_def
      update_first_shape split: option.split)

lemma result:
  "fst (with_volume p vid missing run) =
    (case find_volume p vid of None \<Rightarrow> missing | Some v \<Rightarrow> fst (run v))"
  by (simp add: with_volume_def case_prod_unfold Let_def split: option.split)

lemma proxy_ok_kept: "proxy_ok (snd (with_volume p vid missing run)) = proxy_ok p"
  using proxy_kept(1) by (rule proxy_shape_ok)

end

section \<open>Every operation meets the contract\<close>

named_theorems address_simps

lemma map_update_same: "f y = f (xs ! i) \<Longrightarrow> map f (xs[i := y]) = map f xs"
  by (metis list_update_id map_update)

lemma node_update_address [simp, address_simps]:
  "map address (node_success i nodes) = map address nodes"
  "map address (node_failure now i nodes) = map address nodes"
  by (simp_all add: node_success_def node_failure_def map_update_same)

lemma loop_address [simp, address_simps]:
  "map address (snd (availability_pass clk j nodes)) = map address nodes"
  "map address (snd (snd (put_loop res dn w order sw outc errs nodes))) = map address nodes"
  "map address (background_writes res dn order nodes) = map address nodes"
  "map address (snd (get_loop gres dn q order nf nodes)) = map address nodes"
  "map address (snd (list_loop lres dn q order bm errs n nodes)) = map address nodes"
  "map address (snd (snd (delete_loop res dn order n errs nodes))) = map address nodes"
proof -
  show "map address (snd (availability_pass clk j nodes)) = map address nodes"
    by (induction nodes arbitrary: j) (simp_all add: case_prod_unfold Let_def)
  show "map address (background_writes res dn order nodes) = map address nodes"
    by (induction order arbitrary: nodes) simp_all
  show "map address (snd (get_loop gres dn q order nf nodes)) = map address nodes"
    by (induction order arbitrary: nf nodes) (auto simp: Let_def split: sum.split)
  show "map address (snd (list_loop lres dn q order bm errs n nodes)) = map address nodes"
    by (induction order arbitrary: bm errs n nodes) (auto simp: Let_def split: sum.split)
  show "map address (snd (snd (delete_loop res dn order n errs nodes))) = map address nodes"
    by (induction order arbitrary: n errs nodes) (auto split: sum.split)
  show "map address (snd (snd (put_loop res dn w order sw outc errs nodes))) = map address nodes"
  proof (induction order arbitrary: sw outc errs nodes)
    case (Cons i rest)
    then show ?case
      by (cases "res i = Inl Mismatch") (simp_all add: put_loop_mismatch put_loop_step Let_def)
  qed simp
qed

lemma read_loop_address [simp, address_simps]:
  "map address (snd (launch_reads clk rotation tot l nodes)) = map address nodes"
  "map address (read_nodes (handle_shard rotation tot dn si r st)) = map address (read_nodes st)"
  "map address (read_nodes (snd (data_loop ans rotation tot dn k m hedge l n st))) = map address (read_nodes st)"
  "map address (read_nodes (snd (shard_loop ans rotation tot dn k m l st))) = map address (read_nodes st)"
proof -
  show handle: "map address (read_nodes (handle_shard rotation tot dn si r st)) = map address (read_nodes st)" for si r st
    by (auto simp: handle_shard_def Let_def split: sum.split)
  have "map address (probe_node clk ni nodes) = map address nodes" for clk ni nodes
    by (simp add: probe_node_def map_update_same)
  then show "map address (snd (launch_reads clk rotation tot l nodes)) = map address nodes"
    by (induction l arbitrary: nodes) (simp_all add: launch_reads_Cons Let_def)
  show "map address (read_nodes (snd (data_loop ans rotation tot dn k m hedge l n st))) = map address (read_nodes st)"
    by (induction l arbitrary: hedge n st) (auto simp: Let_def handle split: sum.split)
  show "map address (read_nodes (snd (shard_loop ans rotation tot dn k m l st))) = map address (read_nodes st)"
    by (induction l arbitrary: st) (auto simp: Let_def handle)
qed

lemma put_to_quorum_shape: "volume_shape (snd (put_to_quorum env res vol)) = volume_shape vol"
  by (simp add: volume_shape_def put_to_quorum_unfold Let_def)

lemma put_blob_ec_shape:
  "volume_shape (snd (put_blob_ec lib env vol guid block body version)) = volume_shape vol"
  unfolding put_blob_ec_def Let_def case_prod_unfold
  by (simp add: volume_shape_def split: option.split)

lemma inline_repair_address:
  "inline_repair lib env k m rotation guid block version cohort ss padded missing nodes = Some (Inr nodes') \<Longrightarrow>
    map address nodes' = map address nodes"
  unfolding inline_repair_def Let_def case_prod_unfold
  by (auto split: if_splits option.splits)

lemma degraded_body_address:
  "map address (snd (degraded_body lib env k m rotation guid block version content_len c st)) =
    map address (read_nodes st)"
  unfolding degraded_body_def Let_def
  by (auto split: option.split sum.split dest: inline_repair_address)

lemma parity_phase_address:
  "map address (snd (parity_phase lib env k m rotation guid block version content_len pending st)) =
    map address (read_nodes st)"
  unfolding parity_phase_def Let_def case_prod_unfold
  by (simp add: degraded_body_address split: sum.split option.split)

lemma get_blob_ec_shape:
  "volume_shape (snd (get_blob_ec lib env vol guid block version content_len)) = volume_shape vol"
  unfolding get_blob_ec_def Let_def case_prod_unfold
  by (simp add: volume_shape_def parity_phase_address initial_read_def split: sum.split option.split)

lemma get_blob_replicated_shape: "volume_shape (snd (get_blob_replicated env vol)) = volume_shape vol"
proof -
  have fb: "volume_shape (snd (get_blob_fallback e v)) = volume_shape v" for e v
    by (simp add: volume_shape_def get_blob_fallback_def Let_def case_prod_unfold)
  show ?thesis
    unfolding get_blob_replicated_def Let_def case_prod_unfold
    by (simp add: fb split: sum.split) (simp add: volume_shape_def)
qed

interpretation put_op: volume_operation "put_volume lib env guid block body version"
  for lib env guid block body version
  by unfold_locales
    (simp add: put_volume_def put_blob_ec_shape put_blob_replicated_eq put_to_quorum_shape)

interpretation put_vectored_op: volume_operation "put_volume_vectored lib xxh3_digest env guid block chunks version"
  for lib xxh3_digest env guid block chunks version
  by unfold_locales
    (simp add: put_volume_vectored_def put_blob_ec_shape put_blob_vectored_replicated_def
      put_to_quorum_shape case_prod_unfold Let_def)

interpretation get_op: volume_operation "get_volume lib env guid block version content_len"
  for lib env guid block version content_len
  by unfold_locales (simp add: get_volume_def get_blob_ec_shape get_blob_replicated_shape)

interpretation list_op: volume_operation "\<lambda>vol. list_blob_blocks_volume env vol require_all_nodes"
  for env require_all_nodes
  by unfold_locales
    (simp add: list_blob_blocks_volume_def Let_def case_prod_unfold volume_shape_def)

interpretation delete_op: volume_operation "delete_volume env"
  for env
  by unfold_locales
    (simp add: delete_volume_def delete_blob_ec_def delete_blob_replicated_def delete_from_all_def
      Let_def case_prod_unfold volume_shape_def)

section \<open>Sequences of operations\<close>

datatype proxy_op =
    PutOp put_env DataBlobGuid u32 bytes u64
  | PutVectoredOp put_env DataBlobGuid u32 "bytes list" u64
  | GetOp proxy_get_env DataBlobGuid u32 u64 nat
  | ListOp "u32 \<Rightarrow> u32 \<Rightarrow> list_env" DataBlobGuid u32 u32
  | ListAllOp "u32 \<Rightarrow> u32 \<Rightarrow> list_env" DataBlobGuid
  | DeleteOp delete_env DataBlobGuid
  | CreateOp Uuid selection_draws bool

text \<open>The proxy after one operation; a selection that panics leaves it as it was.\<close>

fun run_op :: "ec_lib \<Rightarrow> (bytes list \<Rightarrow> u64) \<Rightarrow> proxy_op \<Rightarrow> DataVgProxy \<Rightarrow> DataVgProxy" where
  "run_op lib digest (PutOp env guid block body version) p = snd (put_blob lib env p guid block body version)"
| "run_op lib digest (PutVectoredOp env guid block chunks version) p =
     snd (put_blob_vectored lib digest env p guid block chunks version)"
| "run_op lib digest (GetOp env guid block version len) p = snd (get_blob lib env p guid block version len)"
| "run_op lib digest (ListOp env guid first_block block_count) p =
     snd (list_blob_blocks env p guid first_block block_count)"
| "run_op lib digest (ListAllOp env guid) p = snd (list_all_blob_blocks env p guid)"
| "run_op lib digest (DeleteOp env guid) p = snd (delete_blob env p guid)"
| "run_op lib digest (CreateOp fresh d prefer_ec) p =
     (case create_data_blob_guid_with_preference fresh d p prefer_ec of Some (_, p') \<Rightarrow> p' | None \<Rightarrow> p)"

lemma create_shape:
  assumes "create_data_blob_guid_with_preference fresh d p prefer_ec = Some (guid, p')"
  shows "proxy_shape p' = proxy_shape p"
  using assms
  by (auto simp: create_data_blob_guid_with_preference_def select_volume_for_blob_with_preference_def
      pick_volume_def pick_volume_round_robin_def proxy_shape_def Let_def
      split: list.splits VolumeSelectionPolicy.splits)

lemma run_op_shape: "proxy_shape (run_op lib digest op p) = proxy_shape p"
  by (cases op)
    (auto simp: put_blob_def put_blob_inner_def put_blob_vectored_def get_blob_def list_blob_blocks_def
      list_all_blob_blocks_def list_blob_blocks_inner_def delete_blob_def put_op.proxy_kept
      put_vectored_op.proxy_kept get_op.proxy_kept list_op.proxy_kept delete_op.proxy_kept create_shape
      split: option.split)

lemma run_ops_shape: "proxy_shape (fold (run_op lib digest) ops p) = proxy_shape p"
  by (induction ops arbitrary: p) (simp_all add: run_op_shape)

lemma shape_map:
  "map volume_shape xs = map volume_shape ys \<Longrightarrow>
    map (\<lambda>v. f (volume_shape v)) xs = map (\<lambda>v. f (volume_shape v)) ys"
  by (drule arg_cong [where f = "map f"]) (simp add: comp_def)

text \<open>
  C13. The operations of the proxy keep its invariant. After the constructor and any sequence of
  puts, reads, listings, deletes and guid creations, whatever the nodes answer, the proxy still has
  the volumes it was configured with, in order, with their ids, modes and node addresses; every
  volume satisfies the quorum conditions; and no write is left counted as in flight.
\<close>

theorem proxy_operations_invariant:
  assumes "new_with_circuit_breaker info timeout c = Inr p"
  shows "proxy_ok (fold (run_op lib digest) ops p) \<and>
    map vol_id (volumes (fold (run_op lib digest) ops p)) = map cfg_volume_id (cfg_volumes info) \<and>
    map vol_mode (volumes (fold (run_op lib digest) ops p)) = map cfg_mode (cfg_volumes info) \<and>
    map (\<lambda>v. map address (bss_nodes v)) (volumes (fold (run_op lib digest) ops p)) =
      map (\<lambda>v. map (\<lambda>n. ip n @ '':'' @ decimal (unat (port n))) (cfg_bss_nodes v)) (cfg_volumes info) \<and>
    map inflight (volumes (fold (run_op lib digest) ops p)) = map (\<lambda>_. 0) (cfg_volumes info)"
proof -
  let ?q = "fold (run_op lib digest) ops p"
  have p: "volumes p = map (build_volume c) (cfg_volumes info)" "proxy_ok p"
    using assms by (auto simp: constructor_iff)
  have sh: "map volume_shape (volumes ?q) = map volume_shape (map (build_volume c) (cfg_volumes info))"
    using run_ops_shape [of lib digest ops p] p(1) by (simp add: proxy_shape_def)
  note fields = shape_map [OF sh, where f = fst] shape_map [OF sh, where f = "\<lambda>s. fst (snd s)"]
    shape_map [OF sh, where f = "\<lambda>s. fst (snd (snd s))"] shape_map [OF sh, where f = "\<lambda>s. snd (snd (snd s))"]
  have "proxy_ok ?q"
    using proxy_shape_ok [OF run_ops_shape [of lib digest ops p]] p(2) by blast
  then show ?thesis
    using fields by (simp add: volume_shape_def build_volume_def bss_node_new_def comp_def)
qed

text \<open>A configuration with one replicated and one erasure-coded volume, and two operations on it.\<close>

definition sample_nodes :: "NodeConfig list" where
  "sample_nodes = map (\<lambda>i. \<lparr>node_id = [i], ip = ''10.0.0.'' @ [i], port = 8088\<rparr>) ''123''"

definition sample_info :: DataVgInfo where
  "sample_info = \<lparr>cfg_volumes =
     [\<lparr>cfg_volume_id = 1, cfg_uuid = ''u1'', cfg_bss_nodes = sample_nodes, cfg_mode = Replicated 3 2 2\<rparr>,
      \<lparr>cfg_volume_id = 0x8000, cfg_uuid = ''u2'', cfg_bss_nodes = sample_nodes, cfg_mode = ErasureCoded 2 1\<rparr>]\<rparr>"

definition sample_proxy :: DataVgProxy where
  "sample_proxy = \<lparr>volumes = map (build_volume default_config) (cfg_volumes sample_info),
     round_robin_counter = 0, proxy_rpc_timeout = 9, policy = LeastQd,
     ec_hedge_delay = DEFAULT_EC_HEDGE_DELAY\<rparr>"

lemma sample_proxy_new: "new_with_circuit_breaker sample_info 9 default_config = Inr sample_proxy"
  by (simp add: constructor_iff sample_proxy_def proxy_ok_def volume_ok_def build_volume_def sample_info_def
      is_ec_volume_id_def EC_VOLUME_ID_BASE_def sample_nodes_def)

theorem proxy_operations_invariant_witness:
  "let q = fold (run_op xor_lib (\<lambda>_. 0)) [PutOp sample_put sample_guid 0 [1] 1,
       PutOp sample_put \<lparr>blob_id = 9, volume_id = 0x8000\<rparr> 0 [1] 1] sample_proxy
   in proxy_ok q \<and> map vol_id (volumes q) = [1, 0x8000] \<and> map inflight (volumes q) = [0, 0]"
  using proxy_operations_invariant [OF sample_proxy_new, of xor_lib "\<lambda>_. 0"
      "[PutOp sample_put sample_guid 0 [1] 1, PutOp sample_put \<lparr>blob_id = 9, volume_id = 0x8000\<rparr> 0 [1] 1]"]
  unfolding Let_def by (simp add: sample_info_def del: fold.simps)

section \<open>Deletes\<close>

lemma ec_length:
  assumes "volume_ok v" "is_ec_mode (vol_mode v)" "vol_k v + vol_m v < 2 ^ 32"
  shows "ec_volume_ok v"
  using assms by (cases "vol_mode v") (auto intro!: volume_ok_ec simp: vol_k_def vol_m_def)

lemma find_volume_ok: "proxy_ok p \<Longrightarrow> find_volume p vid = Some v \<Longrightarrow> volume_ok v"
  by (auto simp: proxy_ok_def find_volume_def find_Some_iff list_all_iff)

text \<open>
  C14. Deletes are exact in both modes. On a proxy the constructor accepts, \<open>delete_blob\<close> returns
  \<open>Ok\<close> if and only if the breakers of all nodes of the blob's volume admitted the call and every
  node, after its retries, deleted the block or answered that it does not have it; a guid that
  names no configured volume is refused.
\<close>

theorem delete_blob_exact:
  assumes "proxy_ok p" "list_all (\<lambda>v. is_ec_mode (vol_mode v) \<longrightarrow> vol_k v + vol_m v < 2 ^ 32) (volumes p)"
  shows "case find_volume p (volume_id guid) of
      None \<Rightarrow> delete_blob env p guid = (Inl (InitializationError (VolumeNotFound (volume_id guid))), p)
    | Some v \<Rightarrow>
        fst (delete_blob env p guid) = Inr () \<longleftrightarrow>
          admitted (de_clock env) (bss_nodes v) = {..<length (bss_nodes v)} \<and>
          (\<forall>i < length (bss_nodes v). delete_result_succeeded (delete_blob_from_node (de_rpc env i)))"
proof (cases "find_volume p (volume_id guid)")
  case None
  then show ?thesis by (simp add: delete_blob_def with_volume_def not_found_def)
next
  case (Some v)
  have "length (bss_nodes v) = vol_k v + vol_m v" if "is_ec_mode (vol_mode v)"
    using ec_length [OF find_volume_ok [OF assms(1) Some] that] that assms(2) Some
    by (auto simp: list_all_iff find_volume_def find_Some_iff ec_volume_ok_def)
  then show ?thesis
    using Some delete_from_all_ok [OF refl, of env v]
    by (auto simp: delete_blob_def delete_op.result delete_volume_def delete_blob_ec_def delete_blob_replicated_def)
qed

theorem delete_blob_exact_witness:
  "let env = \<lparr>de_clock = (\<lambda>_. 0), de_order = [], de_done = (\<lambda>_. 0),
       de_rpc = (\<lambda>i _. if i = 1 then Inl NotFound else Inr ())\<rparr>
   in fst (delete_blob env sample_proxy \<lparr>blob_id = 9, volume_id = 0x8000\<rparr>) = Inr ()"
proof -
  let ?env = "\<lparr>de_clock = (\<lambda>_. 0), de_order = [], de_done = (\<lambda>_. 0),
    de_rpc = (\<lambda>i _. if i = 1 then Inl NotFound else Inr ())\<rparr> :: delete_env"
  let ?guid = "\<lparr>blob_id = 9, volume_id = 0x8000\<rparr> :: DataBlobGuid"
  let ?v = "build_volume default_config (cfg_volumes sample_info ! 1)"
  have p: "proxy_ok sample_proxy" using sample_proxy_new by (simp add: constructor_iff)
  have small: "list_all (\<lambda>v. is_ec_mode (vol_mode v) \<longrightarrow> vol_k v + vol_m v < 2 ^ 32) (volumes sample_proxy)"
    by (simp add: sample_proxy_def sample_info_def build_volume_def vol_k_def vol_m_def)
  have find: "find_volume sample_proxy (volume_id ?guid) = Some ?v"
    by (simp add: find_volume_def sample_proxy_def sample_info_def build_volume_def)
  have nodes: "length (bss_nodes ?v) = 3" "i < 3 \<Longrightarrow> circuit_breaker (bss_nodes ?v ! i) = breaker_new default_config" for i
    by (simp_all add: build_volume_def sample_info_def sample_nodes_def bss_node_new_def nth_map del: map_map)
      (auto simp: less_Suc_eq numeral_3_eq_3)
  have "admitted (de_clock ?env) (bss_nodes ?v) = {..<length (bss_nodes ?v)}"
    using nodes by (auto simp: admitted_def breaker_new_def is_available_def circuit_from_def)
  moreover have "\<forall>i < length (bss_nodes ?v). delete_result_succeeded (delete_blob_from_node (de_rpc ?env i))"
    by (simp add: delete_result_succeeded_def delete_blob_from_node_def retry_loop_step [of _ 3] transient_def)
  ultimately show ?thesis
    using delete_blob_exact [OF p small, where guid = ?guid and env = ?env] find by (simp add: Let_def)
qed

section \<open>Puts and reads of one volume\<close>

text \<open>What the code relies on of the nodes of a volume between a put and a read of one key.\<close>

definition nodes_keep ::
    "ec_lib \<Rightarrow> put_env \<Rightarrow> VolumeWithNodes \<Rightarrow> DataBlobGuid \<Rightarrow> u32 \<Rightarrow> bytes \<Rightarrow> u64 \<Rightarrow> proxy_get_env \<Rightarrow> (nat \<Rightarrow> bool) \<Rightarrow> bool" where
  "nodes_keep lib penv v guid block body version genv holds \<longleftrightarrow>
     (if is_ec_mode (vol_mode v)
      then rs_laws lib (vol_k v) (vol_m v) \<and> vol_k v + vol_m v < 2 ^ 32 \<and>
        ec_nodes_keep lib penv v guid block body version (pg_ec genv) holds
      else nodes_keep_block penv (lib_xxh3 lib) guid block body version (pg_repl genv) holds)"

lemma get_blob_replicated_errors:
  "fst (get_blob_replicated env vol) = Inl e \<Longrightarrow> e = BlockNotFound \<or> (\<exists>r. e = QuorumFailure r)"
  using get_blob_replicated_cases [of vol env] get_blob_fallback_cases [of "after_fast env vol" env]
  by (auto split: sum.splits)

lemma put_then_get_volume:
  assumes "volume_ok v" "fst (put_volume lib penv guid block body version v) = Inr Stored"
    and "volume_shape v2 = volume_shape v" "nodes_keep lib penv v guid block body version genv holds"
  shows "fst (get_volume lib genv guid block version (length body) v2) = Some (Inr body) \<or>
    (\<exists>r. fst (get_volume lib genv guid block version (length body) v2) = Some (Inl (QuorumFailure r)))"
proof (cases "is_ec_mode (vol_mode v)")
  case True
  note shape = shapeD [OF assms(3)]
  have ok: "ec_volume_ok v" "rs_laws lib (vol_k v) (vol_m v)"
    "ec_nodes_keep lib penv v guid block body version (pg_ec genv) holds"
    using assms(1,4) True ec_length by (auto simp: nodes_keep_def)
  moreover have "fst (put_blob_ec lib penv v guid block body version) = Inr Stored"
    using assms(2) True by (simp add: put_volume_def)
  ultimately show ?thesis
    using ec_read_back [OF ok(1,2) _ shape(2,3) ok(3)] True shape(2) by (auto simp: get_volume_def)
next
  case False
  then obtain n rq w where mode: "vol_mode v = Replicated n rq w" by (cases "vol_mode v") auto
  note shape = shapeD [OF assms(3)]
  obtain v1 where put: "put_blob_replicated penv (lib_xxh3 lib) v guid block body version = (Inr Stored, v1)"
    using assms(2) False by (metis put_volume_def prod.collapse)
  have "nodes_keep_block penv (lib_xxh3 lib) guid block body version (pg_repl genv) holds"
    using assms(4) False by (simp add: nodes_keep_def)
  note rb = replicated_read_back [OF assms(1) mode put shape(2,3) this]
  show ?thesis
    using rb [of body 0] rb [of _ 0] get_blob_replicated_errors [of "pg_repl genv" v2] False shape(2)
    by (cases "fst (get_blob_replicated (pg_repl genv) v2)") (auto simp: get_volume_def)
qed

end
