(* ===== verification/Rpc_Codec.thy ===== *)
theory Rpc_Codec
  imports FB_Prelude
begin

text \<open>
  The RPC wire format: \<open>rpc_codecs/codec_common\<close> (the header trait, the 48-byte protobuf header) and
  \<open>rpc_codecs/bss_codec/src/message.rs\<close> (the 160-byte BSS header).

  A header is a \<open>repr(C)\<close> structure without padding that the code copies to and from the wire as
  raw bytes; its integers are little-endian, as the checksum check reads them. An \<open>i32\<close> is kept as
  the 32-bit word of its bits. \<open>header_ops\<close> is the trait \<open>MessageHeaderTrait\<close>: the functions a
  header type provides. Its laws are the locale \<open>message_header\<close>, which both headers satisfy.
  The hash \<open>xxh3_64\<close> is a parameter.
\<close>

section \<open>The header trait\<close>

record 'h header_ops =
  hdr_size :: nat
  hdr_encode :: "'h \<Rightarrow> bytes"
  hdr_decode :: "bytes \<Rightarrow> 'h option"
  hdr_id :: "'h \<Rightarrow> u32"
  hdr_get_size :: "'h \<Rightarrow> nat"
  hdr_trace_id :: "'h \<Rightarrow> u64"
  hdr_set_checksum :: "'h \<Rightarrow> 'h"
  hdr_verify_body :: "'h \<Rightarrow> bytes \<Rightarrow> bool"

definition get_body_size :: "'h header_ops \<Rightarrow> 'h \<Rightarrow> nat" where
  "get_body_size ops h = hdr_get_size ops h - hdr_size ops"

definition verify_header_checksum_raw :: "(bytes \<Rightarrow> u64) \<Rightarrow> 'h header_ops \<Rightarrow> bytes \<Rightarrow> bool" where
  "verify_header_checksum_raw xxh3_64 ops header_bytes =
     (if length header_bytes < hdr_size ops then False
      else (let stored_checksum = from_le_bytes (take 8 header_bytes);
                bytes_to_hash = drop 8 (take (hdr_size ops) header_bytes)
            in stored_checksum = xxh3_64 bytes_to_hash))"

record ('h, 'b) MessageFrame =
  frame_header :: 'h
  frame_body :: 'b

definition EMPTY_BODY_CHECKSUM :: u64 where "EMPTY_BODY_CHECKSUM = 0x2d06800538d394c2"

text \<open>Reading a field of \<open>n\<close> bytes at an offset.\<close>

definition field :: "nat \<Rightarrow> nat \<Rightarrow> bytes \<Rightarrow> 'a::len word" where
  "field off n src = from_le_bytes (take n (drop off src))"

section \<open>The protobuf header\<close>

record ProtobufMessageHeader =
  ph_checksum :: u64
  ph_proto_version :: u8
  ph_retry_count :: u8
  ph_reserved0 :: u16
  ph_size :: u32
  ph_checksum_body :: u64
  ph_id :: u32
  ph_command :: u32
  ph_trace_id :: u64
  ph_reserved1 :: u64

definition ph_default :: ProtobufMessageHeader where
  "ph_default = \<lparr>ph_checksum = 0, ph_proto_version = 0, ph_retry_count = 0, ph_reserved0 = 0, ph_size = 0,
     ph_checksum_body = 0, ph_id = 0, ph_command = 0, ph_trace_id = 0, ph_reserved1 = 0\<rparr>"

definition ph_encode :: "ProtobufMessageHeader \<Rightarrow> bytes" where
  "ph_encode h =
     to_le_bytes 8 (ph_checksum h) @ to_le_bytes 1 (ph_proto_version h) @ to_le_bytes 1 (ph_retry_count h) @
     to_le_bytes 2 (ph_reserved0 h) @ to_le_bytes 4 (ph_size h) @ to_le_bytes 8 (ph_checksum_body h) @
     to_le_bytes 4 (ph_id h) @ to_le_bytes 4 (ph_command h) @ to_le_bytes 8 (ph_trace_id h) @
     to_le_bytes 8 (ph_reserved1 h)"

definition ph_decode :: "bytes \<Rightarrow> ProtobufMessageHeader option" where
  "ph_decode src =
     (if length src < 48 then None
      else Some \<lparr>ph_checksum = field 0 8 src, ph_proto_version = field 8 1 src, ph_retry_count = field 9 1 src,
        ph_reserved0 = field 10 2 src, ph_size = field 12 4 src, ph_checksum_body = field 16 8 src,
        ph_id = field 24 4 src, ph_command = field 28 4 src, ph_trace_id = field 32 8 src,
        ph_reserved1 = field 40 8 src\<rparr>)"

definition ph_set_checksum :: "(bytes \<Rightarrow> u64) \<Rightarrow> ProtobufMessageHeader \<Rightarrow> ProtobufMessageHeader" where
  "ph_set_checksum xxh3_64 h = h\<lparr>ph_checksum := xxh3_64 (drop 8 (ph_encode h))\<rparr>"

definition ph_body_checksum :: "(bytes \<Rightarrow> u64) \<Rightarrow> bytes \<Rightarrow> u64" where
  "ph_body_checksum xxh3_64 body = (if body = [] then EMPTY_BODY_CHECKSUM else xxh3_64 body)"

definition ph_set_body_checksum :: "(bytes \<Rightarrow> u64) \<Rightarrow> bytes \<Rightarrow> ProtobufMessageHeader \<Rightarrow> ProtobufMessageHeader" where
  "ph_set_body_checksum xxh3_64 body h = h\<lparr>ph_checksum_body := ph_body_checksum xxh3_64 body\<rparr>"

definition ph_verify_body :: "(bytes \<Rightarrow> u64) \<Rightarrow> ProtobufMessageHeader \<Rightarrow> bytes \<Rightarrow> bool" where
  "ph_verify_body xxh3_64 h body \<longleftrightarrow> ph_checksum_body h = ph_body_checksum xxh3_64 body"

definition ph_set_request :: "u32 \<Rightarrow> u32 \<Rightarrow> u8 \<Rightarrow> u64 \<Rightarrow> ProtobufMessageHeader \<Rightarrow> ProtobufMessageHeader" where
  "ph_set_request i command retry_count trace h =
     h\<lparr>ph_id := i, ph_command := command, ph_retry_count := retry_count, ph_trace_id := trace\<rparr>"

text \<open>The size is cut to 32 bits, as the cast in the source does.\<close>

definition ph_set_body :: "(bytes \<Rightarrow> u64) \<Rightarrow> bytes \<Rightarrow> ProtobufMessageHeader \<Rightarrow> ProtobufMessageHeader" where
  "ph_set_body xxh3_64 body h =
     ph_set_body_checksum xxh3_64 body (h\<lparr>ph_size := word_of_nat (48 + length body)\<rparr>)"

definition protobuf_ops :: "(bytes \<Rightarrow> u64) \<Rightarrow> ProtobufMessageHeader header_ops" where
  "protobuf_ops xxh3_64 = \<lparr>hdr_size = 48, hdr_encode = ph_encode, hdr_decode = ph_decode, hdr_id = ph_id,
     hdr_get_size = (\<lambda>h. unat (ph_size h)), hdr_trace_id = ph_trace_id,
     hdr_set_checksum = ph_set_checksum xxh3_64, hdr_verify_body = ph_verify_body xxh3_64\<rparr>"

section \<open>The BSS header\<close>

datatype Command =
    Invalid | Handshake | PutDataBlob | GetDataBlob | DeleteDataBlob | PutMetadataBlob
  | GetMetadataBlob | DeleteMetadataBlob | ListBlobs | ListBlobBlocks

fun command_tag :: "Command \<Rightarrow> u32" where
  "command_tag Invalid = 0"
| "command_tag Handshake = 1"
| "command_tag PutDataBlob = 16"
| "command_tag GetDataBlob = 17"
| "command_tag DeleteDataBlob = 18"
| "command_tag PutMetadataBlob = 19"
| "command_tag GetMetadataBlob = 20"
| "command_tag DeleteMetadataBlob = 21"
| "command_tag ListBlobs = 22"
| "command_tag ListBlobBlocks = 33"

definition command_try_from :: "u32 \<Rightarrow> u32 + Command" where
  "command_try_from raw =
     (if raw = 0 then Inr Invalid
      else if raw = 1 then Inr Handshake
      else if raw = 16 then Inr PutDataBlob
      else if raw = 17 then Inr GetDataBlob
      else if raw = 18 then Inr DeleteDataBlob
      else if raw = 19 then Inr PutMetadataBlob
      else if raw = 20 then Inr GetMetadataBlob
      else if raw = 21 then Inr DeleteMetadataBlob
      else if raw = 22 then Inr ListBlobs
      else if raw = 33 then Inr ListBlobBlocks
      else Inl raw)"

text \<open>The byte arrays of the header are words of their width: the bytes in order, least first.\<close>

record MessageHeader =
  mh_checksum :: u64
  mh_proto_version :: u8
  mh_retry_count :: u8
  mh_volume_id :: u16
  mh_size :: u32
  mh_checksum_body :: u64
  mh_command :: u32
  mh_id :: u32
  mh_bucket_id :: u128
  mh_blob_id :: u128
  mh_version :: u64
  mh_block_number :: u32
  mh_body_len :: u32
  mh_trace_id :: u64
  mh_errno :: u32
  mh_is_new :: u8
  mh_is_deleted :: u8
  mh_skip_fence_token :: u8
  mh_is_root :: u8
  mh_fence_token :: u64
  mh_reserve1 :: "192 word"
  mh_reserve2 :: "256 word"

definition PROTO_VERSION :: u8 where "PROTO_VERSION = 1"

definition mh_default :: MessageHeader where
  "mh_default = \<lparr>mh_checksum = 0, mh_proto_version = PROTO_VERSION, mh_retry_count = 0, mh_volume_id = 0,
     mh_size = 0, mh_checksum_body = EMPTY_BODY_CHECKSUM, mh_command = command_tag Invalid, mh_id = 0,
     mh_bucket_id = 0, mh_blob_id = 0, mh_version = 0, mh_block_number = 0, mh_body_len = 0,
     mh_trace_id = 0, mh_errno = 0, mh_is_new = 0, mh_is_deleted = 0, mh_skip_fence_token = 0,
     mh_is_root = 0, mh_fence_token = 0, mh_reserve1 = 0, mh_reserve2 = 0\<rparr>"

definition mh_encode :: "MessageHeader \<Rightarrow> bytes" where
  "mh_encode h =
     to_le_bytes 8 (mh_checksum h) @ to_le_bytes 1 (mh_proto_version h) @ to_le_bytes 1 (mh_retry_count h) @
     to_le_bytes 2 (mh_volume_id h) @ to_le_bytes 4 (mh_size h) @ to_le_bytes 8 (mh_checksum_body h) @
     to_le_bytes 4 (mh_command h) @ to_le_bytes 4 (mh_id h) @ to_le_bytes 16 (mh_bucket_id h) @
     to_le_bytes 16 (mh_blob_id h) @ to_le_bytes 8 (mh_version h) @ to_le_bytes 4 (mh_block_number h) @
     to_le_bytes 4 (mh_body_len h) @ to_le_bytes 8 (mh_trace_id h) @ to_le_bytes 4 (mh_errno h) @
     to_le_bytes 1 (mh_is_new h) @ to_le_bytes 1 (mh_is_deleted h) @ to_le_bytes 1 (mh_skip_fence_token h) @
     to_le_bytes 1 (mh_is_root h) @ to_le_bytes 8 (mh_fence_token h) @ to_le_bytes 24 (mh_reserve1 h) @
     to_le_bytes 32 (mh_reserve2 h)"

definition mh_decode :: "bytes \<Rightarrow> MessageHeader option" where
  "mh_decode src =
     (if length src < 160 then None
      else Some \<lparr>mh_checksum = field 0 8 src, mh_proto_version = field 8 1 src, mh_retry_count = field 9 1 src,
        mh_volume_id = field 10 2 src, mh_size = field 12 4 src, mh_checksum_body = field 16 8 src,
        mh_command = field 24 4 src, mh_id = field 28 4 src, mh_bucket_id = field 32 16 src,
        mh_blob_id = field 48 16 src, mh_version = field 64 8 src, mh_block_number = field 72 4 src,
        mh_body_len = field 76 4 src, mh_trace_id = field 80 8 src, mh_errno = field 88 4 src,
        mh_is_new = field 92 1 src, mh_is_deleted = field 93 1 src, mh_skip_fence_token = field 94 1 src,
        mh_is_root = field 95 1 src, mh_fence_token = field 96 8 src, mh_reserve1 = field 104 24 src,
        mh_reserve2 = field 128 32 src\<rparr>)"

definition mh_set_checksum :: "(bytes \<Rightarrow> u64) \<Rightarrow> MessageHeader \<Rightarrow> MessageHeader" where
  "mh_set_checksum xxh3_64 h = h\<lparr>mh_checksum := xxh3_64 (drop 8 (mh_encode h))\<rparr>"

definition mh_set_body_checksum :: "(bytes \<Rightarrow> u64) \<Rightarrow> bytes \<Rightarrow> MessageHeader \<Rightarrow> MessageHeader" where
  "mh_set_body_checksum xxh3_64 body h = h\<lparr>mh_checksum_body := xxh3_64 body\<rparr>"

definition mh_set_body_checksum_vectored ::
    "(bytes list \<Rightarrow> u64) \<Rightarrow> bytes list \<Rightarrow> MessageHeader \<Rightarrow> MessageHeader" where
  "mh_set_body_checksum_vectored xxh3_digest chunks h = h\<lparr>mh_checksum_body := xxh3_digest chunks\<rparr>"

definition mh_verify_body :: "(bytes \<Rightarrow> u64) \<Rightarrow> MessageHeader \<Rightarrow> bytes \<Rightarrow> bool" where
  "mh_verify_body xxh3_64 h body \<longleftrightarrow> mh_checksum_body h = xxh3_64 body"

definition DATA_COHORT_TAG_OFFSET :: nat where "DATA_COHORT_TAG_OFFSET = 8"

definition data_cohort_tag :: "MessageHeader \<Rightarrow> u64" where
  "data_cohort_tag h = field DATA_COHORT_TAG_OFFSET 8 (to_le_bytes 24 (mh_reserve1 h))"

definition set_data_cohort_tag :: "u64 \<Rightarrow> MessageHeader \<Rightarrow> MessageHeader" where
  "set_data_cohort_tag cohort_tag h =
     (let bs = to_le_bytes 24 (mh_reserve1 h)
      in h\<lparr>mh_reserve1 := from_le_bytes (take DATA_COHORT_TAG_OFFSET bs @ to_le_bytes 8 cohort_tag @
             drop (DATA_COHORT_TAG_OFFSET + 8) bs)\<rparr>)"

definition mh_set_request :: "u32 \<Rightarrow> u32 \<Rightarrow> u8 \<Rightarrow> u64 \<Rightarrow> MessageHeader \<Rightarrow> MessageHeader" where
  "mh_set_request i command retry_count trace h =
     h\<lparr>mh_id := i, mh_command := command, mh_retry_count := retry_count, mh_trace_id := trace\<rparr>"

definition mh_set_body :: "(bytes \<Rightarrow> u64) \<Rightarrow> bytes \<Rightarrow> MessageHeader \<Rightarrow> MessageHeader" where
  "mh_set_body xxh3_64 body h =
     mh_set_body_checksum xxh3_64 body (h\<lparr>mh_size := word_of_nat (160 + length body)\<rparr>)"

definition bss_ops :: "(bytes \<Rightarrow> u64) \<Rightarrow> MessageHeader header_ops" where
  "bss_ops xxh3_64 = \<lparr>hdr_size = 160, hdr_encode = mh_encode, hdr_decode = mh_decode, hdr_id = mh_id,
     hdr_get_size = (\<lambda>h. unat (mh_size h)), hdr_trace_id = mh_trace_id,
     hdr_set_checksum = mh_set_checksum xxh3_64, hdr_verify_body = mh_verify_body xxh3_64\<rparr>"

section \<open>The contract of a header\<close>

text \<open>
  What the transport relies on: a header occupies a fixed number of bytes, the first eight its
  checksum; it decodes from its encoding; and setting the checksum stores the hash of the other
  bytes and changes nothing else.
\<close>

locale message_header =
  fixes xxh3_64 :: "bytes \<Rightarrow> u64" and ops :: "'h header_ops"
  assumes size_ge: "8 \<le> hdr_size ops"
    and encode_length: "length (hdr_encode ops h) = hdr_size ops"
    and decode_encode: "hdr_decode ops (hdr_encode ops h @ rest) = Some h"
    and encode_decode: "hdr_decode ops src = Some h \<Longrightarrow> hdr_encode ops h = take (hdr_size ops) src"
    and decode_total: "hdr_size ops \<le> length src \<Longrightarrow> hdr_decode ops src \<noteq> None"
    and checksum_bytes: "hdr_encode ops (hdr_set_checksum ops h) =
      to_le_bytes 8 (xxh3_64 (drop 8 (hdr_encode ops h))) @ drop 8 (hdr_encode ops h)"
    and checksum_fields: "hdr_id ops (hdr_set_checksum ops h) = hdr_id ops h"
      "hdr_get_size ops (hdr_set_checksum ops h) = hdr_get_size ops h"
      "hdr_verify_body ops (hdr_set_checksum ops h) = hdr_verify_body ops h"
begin

lemma verify_set_checksum:
  "verify_header_checksum_raw xxh3_64 ops (hdr_encode ops (hdr_set_checksum ops h) @ rest)"
  using size_ge encode_length [of "hdr_set_checksum ops h"] encode_length [of h]
  by (simp add: verify_header_checksum_raw_def Let_def checksum_bytes)

text \<open>A header whose raw bytes pass the check carries the hash of its own encoding.\<close>

lemma verify_iff:
  assumes "hdr_decode ops src = Some h" "hdr_size ops \<le> length src"
  shows "verify_header_checksum_raw xxh3_64 ops src \<longleftrightarrow> hdr_set_checksum ops h = h"
proof -
  let ?e = "hdr_encode ops h"
  have e: "?e = take (hdr_size ops) src" by (rule encode_decode [OF assms(1)])
  have le: "length ?e = hdr_size ops" by (rule encode_length)
  have "hdr_set_checksum ops h = h \<longleftrightarrow> hdr_encode ops (hdr_set_checksum ops h) = ?e"
    using decode_encode [of _ "[]"] by (metis append_Nil2 option.inject)
  also have "\<dots> \<longleftrightarrow> to_le_bytes 8 (xxh3_64 (drop 8 ?e)) = take 8 ?e"
    using append_take_drop_id [of 8 ?e] by (metis checksum_bytes append_same_eq)
  also have "\<dots> \<longleftrightarrow> xxh3_64 (drop 8 ?e) = from_le_bytes (take 8 ?e)"
  proof -
    have "length (take 8 ?e) = 8" using le size_ge by simp
    then have "to_le_bytes 8 (from_le_bytes (take 8 ?e) :: u64) = take 8 ?e"
      by (intro to_from_le_bytes_full) simp_all
    moreover have "from_le_bytes (to_le_bytes 8 (xxh3_64 (drop 8 ?e))) = xxh3_64 (drop 8 ?e)" by simp
    ultimately show ?thesis by metis
  qed
  finally show ?thesis
    using assms(2) size_ge by (auto simp: verify_header_checksum_raw_def Let_def e take_drop min_def)
qed

end

section \<open>Both headers meet the contract\<close>

fun wire_slices :: "nat list \<Rightarrow> nat \<Rightarrow> bytes \<Rightarrow> bytes list" where
  "wire_slices [] off src = []"
| "wire_slices (n # ns) off src = take n (drop off src) # wire_slices ns (off + n) src"

lemma concat_wire_slices: "concat (wire_slices ns off src) = take (sum_list ns) (drop off src)"
  by (induction ns arbitrary: off) (simp_all add: take_add add.commute)

lemma to_le_field:
  assumes "8 * n = LENGTH('a)" "off + n \<le> length src"
  shows "to_le_bytes n (field off n src :: 'a::len word) = take n (drop off src)"
  unfolding field_def using assms by (intro to_from_le_bytes_full) auto

lemma byte_field:
  assumes "off < length src"
  shows "take (Suc 0) (drop off src) = [field off (Suc 0) src]"
  using to_le_field [where 'a = 8, of "Suc 0" off src] assms by simp

lemma ph_length [simp]: "length (ph_encode h) = 48"
  by (simp add: ph_encode_def)

lemma mh_length [simp]: "length (mh_encode h) = 160"
  by (simp add: mh_encode_def)

lemma ph_decode_encode: "ph_decode (ph_encode h @ rest) = Some h"
  by (simp add: ph_decode_def) (simp add: ph_encode_def field_def)

lemma ph_encode_decode:
  assumes "ph_decode src = Some h" shows "ph_encode h = take 48 src"
proof -
  have l: "48 \<le> length src" using assms by (simp add: ph_decode_def split: if_splits)
  then have "ph_encode h = concat (wire_slices [8, 1, 1, 2, 4, 8, 4, 4, 8, 8] 0 src)"
    using assms by (auto simp: ph_decode_def ph_encode_def to_le_field byte_field)
  then show ?thesis unfolding concat_wire_slices by simp
qed

lemma mh_decode_encode: "mh_decode (mh_encode h @ rest) = Some h"
  by (simp add: mh_decode_def) (simp add: mh_encode_def field_def)

lemma mh_encode_decode:
  assumes "mh_decode src = Some h" shows "mh_encode h = take 160 src"
proof -
  have l: "160 \<le> length src" using assms by (simp add: mh_decode_def split: if_splits)
  then have "mh_encode h = concat (wire_slices [8, 1, 1, 2, 4, 8, 4, 4, 16, 16, 8, 4, 4, 8, 4, 1, 1, 1, 1, 8, 24, 32] 0 src)"
    using assms by (auto simp: mh_decode_def mh_encode_def to_le_field byte_field)
  then show ?thesis unfolding concat_wire_slices by simp
qed

interpretation protobuf: message_header xxh3_64 "protobuf_ops xxh3_64" for xxh3_64
  by unfold_locales
    (auto simp: protobuf_ops_def ph_decode_encode ph_set_checksum_def ph_verify_body_def fun_eq_iff
      dest: ph_encode_decode, auto simp: ph_encode_def ph_decode_def)

interpretation bss: message_header xxh3_64 "bss_ops xxh3_64" for xxh3_64
  by unfold_locales
    (auto simp: bss_ops_def mh_decode_encode mh_set_checksum_def mh_verify_body_def fun_eq_iff
      dest: mh_encode_decode, auto simp: mh_encode_def mh_decode_def)

end
