(* ===== verification/Rpc_Client.thy ===== *)
theory Rpc_Client
  imports Rpc_Codec Rpc_Retry
begin

text \<open>
  The multiplexed RPC connection of \<open>rpc_clients/client_common/src/generic_client.rs\<close>: the send task
  with its batches and partial vectored writes, the receive task that cuts the byte stream into
  verified frames, and the map of pending requests with its callers.

  The socket is the environment. A write accepts some prefix of what it is offered or fails; a read
  returns some of the bytes that are there. The theory shows that neither choice matters: what one
  side sends is what the other side receives, frame by frame.
\<close>

section \<open>The send task\<close>

type_synonym 'h ZcMessageFrame = "('h, bytes list) MessageFrame"
type_synonym 'h Frame = "('h, bytes) MessageFrame"

definition MAX_BATCH_SIZE :: nat where "MAX_BATCH_SIZE = 32"

definition checksummed :: "'h header_ops \<Rightarrow> ('h, 'b) MessageFrame \<Rightarrow> ('h, 'b) MessageFrame" where
  "checksummed ops f = f\<lparr>frame_header := hdr_set_checksum ops (frame_header f)\<rparr>"

definition byte_slices :: "'h header_ops \<Rightarrow> 'h ZcMessageFrame list \<Rightarrow> bytes list" where
  "byte_slices ops batch = concat (map (\<lambda>f. hdr_encode ops (frame_header f) # frame_body f) batch)"

text \<open>The slices a vectored write offers: empty ones are left out, the first starts at the offset.\<close>

definition iov :: "bytes list \<Rightarrow> nat \<Rightarrow> nat \<Rightarrow> bytes list" where
  "iov slices slice_idx offset_in_slice =
     filter (\<lambda>data. data \<noteq> []) (case drop slice_idx slices of [] \<Rightarrow> [] | s # ss \<Rightarrow> drop offset_in_slice s # ss)"

function advance :: "bytes list \<Rightarrow> nat \<Rightarrow> nat \<Rightarrow> nat \<Rightarrow> nat \<times> nat" where
  "advance slices remaining slice_idx offset_in_slice =
     (if 0 < remaining \<and> slice_idx < length slices
      then (let available = length (slices ! slice_idx) - offset_in_slice
            in if available \<le> remaining then advance slices (remaining - available) (slice_idx + 1) 0
               else (slice_idx, offset_in_slice + remaining))
      else (slice_idx, offset_in_slice))"
  by pat_completeness auto
termination
  by (relation "measure (\<lambda>(slices, _, slice_idx, _). length slices - slice_idx)") auto

declare advance.simps [simp del]

text \<open>
  One element of \<open>writes\<close> is the outcome of one write: an error, or how many bytes the socket took
  at most. A batch that still has bytes when the outcomes are used up is waiting for the socket.
\<close>

datatype task_status = Running | Ended "RpcError + unit" | Panicked

function write_slices ::
    "bytes list \<Rightarrow> nat \<Rightarrow> nat \<Rightarrow> (IoErrorKind + nat) list \<Rightarrow>
     bytes \<times> (RpcError option) option \<times> (IoErrorKind + nat) list" where
  "write_slices slices slice_idx offset_in_slice writes =
     (if slice_idx < length slices \<and> iov slices slice_idx offset_in_slice \<noteq> [] then
        (case writes of
           [] \<Rightarrow> ([], None, [])
         | Inl e # ws \<Rightarrow> ([], Some (Some (IoError e)), ws)
         | Inr n # ws \<Rightarrow>
             (let data = take n (concat (iov slices slice_idx offset_in_slice));
                  written = length data
              in if written = 0 then ([], Some (Some (IoError WriteZero)), ws)
                 else (let (i, off) = advance slices written slice_idx offset_in_slice;
                           (out, r, ws') = write_slices slices i off ws
                       in (data @ out, r, ws'))))
      else ([], Some None, writes))"
  by pat_completeness auto
termination
  by (relation "measure (\<lambda>(_, _, _, writes). length writes)") auto

declare write_slices.simps [simp del]

text \<open>
  The task. One element of \<open>arrivals\<close> is what callers queued before a poll of the queue; a poll that
  finds the queue empty returns only when the client is gone, and ends the task.
\<close>

fun send_task ::
    "'h header_ops \<Rightarrow> 'h ZcMessageFrame list \<Rightarrow> 'h ZcMessageFrame list list \<Rightarrow> (IoErrorKind + nat) list \<Rightarrow>
     bytes \<times> task_status" where
  "send_task ops queue [] writes = ([], Running)"
| "send_task ops queue (arrived # arrivals) writes =
     (let q = queue @ arrived; batch = take MAX_BATCH_SIZE q
      in if batch = [] then ([], Ended (Inr ()))
         else (case write_slices (byte_slices ops (map (checksummed ops) batch)) 0 0 writes of
             (out, None, _) \<Rightarrow> (out, Running)
           | (out, Some (Some e), _) \<Rightarrow> (out, Ended (Inl e))
           | (out, Some None, ws) \<Rightarrow>
               (let (out', r) = send_task ops (drop MAX_BATCH_SIZE q) arrivals ws in (out @ out', r))))"

declare send_task.simps(2) [simp del]

text \<open>The buffer the other runtime gathers for one write of the whole batch.\<close>

definition combined :: "'h header_ops \<Rightarrow> 'h ZcMessageFrame list \<Rightarrow> bytes" where
  "combined ops batch =
     concat (map (\<lambda>f. hdr_encode ops (frame_header f) @ concat (frame_body f)) batch)"

section \<open>The receive task\<close>

text \<open>
  A stream is the bytes still to come and how it ends: \<open>UnexpectedEof\<close> for an orderly close, another
  kind for an error of the socket. \<open>chunks\<close> says how much each read of a body yields at most.
\<close>

definition read_exact :: "nat \<Rightarrow> bytes \<Rightarrow> IoErrorKind \<Rightarrow> IoErrorKind + bytes \<times> bytes" where
  "read_exact n stream ending = (if n \<le> length stream then Inr (take n stream, drop n stream) else Inl ending)"

function read_body ::
    "nat \<Rightarrow> bytes \<Rightarrow> bytes \<Rightarrow> IoErrorKind \<Rightarrow> nat list \<Rightarrow> RpcError + bytes \<times> bytes \<times> nat list" where
  "read_body body_size body_buf stream ending chunks =
     (if length body_buf < body_size then
        (let remaining = body_size - length body_buf;
             (limit, chunks') = (case chunks of [] \<Rightarrow> (remaining, []) | c # cs \<Rightarrow> (max 1 (min c remaining), cs));
             got = take limit stream
         in if got = [] then Inl (IoError ending)
            else read_body body_size (body_buf @ got) (drop limit stream) ending chunks')
      else Inr (body_buf, stream, chunks))"
  by pat_completeness auto
termination
  by (relation "measure (\<lambda>(body_size, body_buf, _). body_size - length body_buf)")
    (auto simp: Suc_le_eq intro!: diff_less_mono2)

declare read_body.simps [simp del]

lemma read_body_eq:
  "read_body n buf stream ending chunks = Inr (body, rest, chunks') \<Longrightarrow>
    length buf \<le> n \<Longrightarrow> n - length buf \<le> length stream \<and> body = buf @ take (n - length buf) stream \<and>
      rest = drop (n - length buf) stream"
proof (induction n buf stream ending chunks rule: read_body.induct)
  case (1 n buf stream ending chunks)
  show ?case
  proof (cases "length buf < n")
    case False
    then show ?thesis using "1.prems" by (simp add: read_body.simps)
  next
    case True
    obtain limit cs where l: "(case chunks of [] \<Rightarrow> (n - length buf, []) |
        c # cs \<Rightarrow> (max 1 (min c (n - length buf)), cs)) = (limit, cs)" by fastforce
    have lim: "limit \<le> n - length buf" using l True by (auto split: list.splits)
    have got: "take limit stream \<noteq> []"
      "read_body n (buf @ take limit stream) (drop limit stream) ending cs = Inr (body, rest, chunks')"
      using "1.prems"(1) True l by (auto simp: read_body.simps [of n buf] split: if_splits)
    let ?buf = "buf @ take limit stream"
    have ih: "n - length ?buf \<le> length (drop limit stream) \<and>
        body = ?buf @ take (n - length ?buf) (drop limit stream) \<and>
        rest = drop (n - length ?buf) (drop limit stream)"
      using "1.IH" [OF True refl l [symmetric] refl refl got(1) got(2)] lim True by simp
    show ?thesis
    proof (cases "limit \<le> length stream")
      case True
      then have "n - length buf = limit + (n - length ?buf)" using lim by simp
      then show ?thesis using ih True by (auto simp: take_add add.commute)
    next
      case False
      then show ?thesis using ih lim by auto
    qed
  qed
qed

text \<open>
  The loop. A header type has at least one byte, which is why the recursion ends with the stream.
  Decoding panics on a buffer that is too short.
\<close>

function receive_task ::
    "(bytes \<Rightarrow> u64) \<Rightarrow> 'h header_ops \<Rightarrow> bytes \<Rightarrow> IoErrorKind \<Rightarrow> nat list \<Rightarrow> 'h Frame list \<times> task_status" where
  "receive_task xxh3_64 ops stream ending chunks =
     (case read_exact (max 1 (hdr_size ops)) stream ending of
        Inl e \<Rightarrow> ([], Ended (if e = UnexpectedEof then Inr () else Inl (IoError e)))
      | Inr (header_buf, rest) \<Rightarrow>
          if \<not> verify_header_checksum_raw xxh3_64 ops header_buf then ([], Ended (Inl ChecksumMismatch))
          else (case hdr_decode ops header_buf of
              None \<Rightarrow> ([], Panicked)
            | Some header \<Rightarrow>
                (case read_body (get_body_size ops header) [] rest ending chunks of
                   Inl e \<Rightarrow> ([], Ended (Inl e))
                 | Inr (body, rest', chunks') \<Rightarrow>
                     if \<not> hdr_verify_body ops header body then ([], Ended (Inl ChecksumMismatch))
                     else (let (fs, r) = receive_task xxh3_64 ops rest' ending chunks'
                           in (\<lparr>frame_header = header, frame_body = body\<rparr> # fs, r)))))"
  by pat_completeness auto
termination
  by (relation "measure (\<lambda>(_, _, stream, _). length stream)")
    (auto simp: read_exact_def dest!: read_body_eq split: if_splits)

declare receive_task.simps [simp del]

section \<open>Partial writes\<close>

definition unsent :: "bytes list \<Rightarrow> nat \<Rightarrow> nat \<Rightarrow> bytes" where
  "unsent slices i off = (case drop i slices of [] \<Rightarrow> [] | s # ss \<Rightarrow> drop off s @ concat ss)"

lemma unsent_start [simp]: "unsent slices 0 0 = concat slices"
  by (cases slices) (simp_all add: unsent_def)

lemma concat_filter_nonempty [simp]: "concat (filter (\<lambda>d. d \<noteq> []) ds) = concat ds"
  by (induction ds) auto

lemma concat_iov [simp]: "concat (iov slices i off) = unsent slices i off"
  by (auto simp: iov_def unsent_def split: list.splits)

lemma iov_empty: "iov slices i off = [] \<Longrightarrow> unsent slices i off = []"
  using concat_iov [of slices i off] by simp

lemma unsent_Suc:
  "i < length slices \<Longrightarrow> unsent slices i off = drop off (slices ! i) @ unsent slices (Suc i) 0"
  by (auto simp: unsent_def Cons_nth_drop_Suc [symmetric] split: list.splits)

lemma unsent_end: "length slices \<le> i \<Longrightarrow> unsent slices i off = []"
  by (simp add: unsent_def)

lemma advance_unsent:
  "advance slices n i off = (j, o') \<Longrightarrow> unsent slices j o' = drop n (unsent slices i off)"
proof (induction slices n i off arbitrary: j o' rule: advance.induct)
  case (1 slices n i off)
  show ?case
  proof (cases "0 < n \<and> i < length slices")
    case True
    let ?av = "length (slices ! i) - off"
    show ?thesis
    proof (cases "?av \<le> n")
      case le: True
      then have "advance slices (n - ?av) (i + 1) 0 = (j, o')"
        using "1.prems" True by (simp add: advance.simps [of _ n])
      then have "unsent slices j o' = drop (n - ?av) (unsent slices (i + 1) 0)"
        using "1.IH" True le by blast
      then show ?thesis using True le by (simp add: unsent_Suc [of i])
    next
      case False
      then have "j = i" "o' = off + n" using "1.prems" True by (simp_all add: advance.simps [of _ n])
      then show ?thesis using True False by (simp add: unsent_Suc add.commute)
    qed
  next
    case False
    then have e: "j = i" "o' = off" using "1.prems" by (auto simp: advance.simps [of _ n])
    show ?thesis
    proof (cases "n = 0")
      case False
      then show ?thesis using \<open>\<not> (0 < n \<and> i < length slices)\<close> e by (simp add: unsent_end)
    qed (simp add: e)
  qed
qed

lemma write_slices_prefix:
  "write_slices slices i off writes = (out, r, ws) \<Longrightarrow>
    (\<exists>rest. unsent slices i off = out @ rest \<and> (r = Some None \<longrightarrow> rest = []))"
proof (induction slices i off writes arbitrary: out r ws rule: write_slices.induct)
  case (1 slices i off writes)
  let ?go = "i < length slices \<and> iov slices i off \<noteq> []"
  show ?case
  proof (cases ?go)
    case False
    then have "unsent slices i off = []" using iov_empty unsent_end by (metis not_less)
    then show ?thesis using "1.prems" False by (simp add: write_slices.simps [of slices i])
  next
    case True
    show ?thesis
    proof (cases "\<exists>n ws0. writes = Inr n # ws0 \<and> take n (unsent slices i off) \<noteq> []")
      case False
      then show ?thesis using "1.prems" True
        by (auto simp: write_slices.simps [of slices i] split: list.splits sum.splits)
    next
      case go: True
      then obtain n ws0 where w: "writes = Inr n # ws0" "take n (unsent slices i off) \<noteq> []" by blast
      let ?d = "take n (unsent slices i off)"
      obtain j o' where a: "advance slices (length ?d) i off = (j, o')" by fastforce
      obtain out' where o: "write_slices slices j o' ws0 = (out', r, ws)" "out = ?d @ out'"
        using "1.prems" True w a
        by (auto simp: write_slices.simps [of slices i] Let_def split: prod.splits)
      have u: "unsent slices i off = ?d @ unsent slices j o'"
        unfolding advance_unsent [OF a] by (simp add: min_def)
      obtain rest where "unsent slices j o' = out' @ rest" "r = Some None \<longrightarrow> rest = []"
        using "1.IH" [OF True w(1) refl refl] o(1) w(2) a by force
      then show ?thesis using u o(2) by (metis append.assoc)
    qed
  qed
qed

lemma write_slices_ends:
  "\<forall>w\<in>set writes. \<exists>n. w = Inr (Suc n) \<Longrightarrow> length (unsent slices i off) \<le> length writes \<Longrightarrow>
    \<exists>ws. write_slices slices i off writes = (unsent slices i off, Some None, ws) \<and>
      set ws \<subseteq> set writes \<and> length writes \<le> length ws + length (unsent slices i off)"
proof (induction writes arbitrary: i off)
  case Nil
  then have u: "unsent slices i off = []" by simp
  then have "iov slices i off = []"
    using concat_iov [of slices i off] by (auto simp: iov_def filter_empty_conv split: list.splits)
  then show ?case using u by (simp add: write_slices.simps)
next
  case (Cons w writes)
  obtain n where w: "w = Inr (Suc n)" using Cons.prems(1) by auto
  let ?u = "unsent slices i off"
  show ?case
  proof (cases "?u = []")
    case True
    then have "iov slices i off = []"
      using concat_iov [of slices i off] by (auto simp: iov_def filter_empty_conv split: list.splits)
    then show ?thesis using True by (auto simp: write_slices.simps)
  next
    case False
    then have go: "i < length slices" "iov slices i off \<noteq> []"
      using unsent_end [of slices i off] concat_iov [of slices i off] by force+
    obtain j o' where a: "advance slices (length (take (Suc n) ?u)) i off = (j, o')" by fastforce
    have v: "unsent slices j o' = drop (Suc n) ?u" using advance_unsent [OF a] by (auto simp: min_def)
    then have "length (unsent slices j o') \<le> length writes" using Cons.prems(2) by simp
    then obtain ws where ws: "write_slices slices j o' writes = (unsent slices j o', Some None, ws)"
      "set ws \<subseteq> set writes" "length writes \<le> length ws + length (unsent slices j o')"
      using Cons.IH [of j o'] Cons.prems(1) by (metis list.set_intros(2))
    have "0 < length ?u" "length (unsent slices j o') = length ?u - Suc n" using False v by simp_all
    then have "Suc (length writes) \<le> length ws + length ?u" using ws(3) by linarith
    then show ?thesis using ws go a w v False by (auto simp: write_slices.simps [of slices i])
  qed
qed

section \<open>What the send task puts on the wire\<close>

definition wire :: "'h header_ops \<Rightarrow> 'h ZcMessageFrame list \<Rightarrow> bytes" where
  "wire ops fs = combined ops (map (checksummed ops) fs)"

lemma combined_slices: "concat (byte_slices ops batch) = combined ops batch"
  by (induction batch) (simp_all add: byte_slices_def combined_def)

lemma wire_append [simp]: "wire ops (fs @ gs) = wire ops fs @ wire ops gs"
  by (simp add: wire_def combined_def)

lemma wire_slices_unsent: "unsent (byte_slices ops (map (checksummed ops) fs)) 0 0 = wire ops fs"
  by (simp add: combined_slices wire_def)

lemma wire_split: "wire ops fs = wire ops (take n fs) @ wire ops (drop n fs)"
  by (metis wire_append append_take_drop_id)

lemma send_task_Cons:
  assumes "q = queue @ arrived"
    and "write_slices (byte_slices ops (map (checksummed ops) (take MAX_BATCH_SIZE q))) 0 0 writes = (out, r, ws)"
  shows "send_task ops queue (arrived # arrivals) writes =
    (if take MAX_BATCH_SIZE q = [] then ([], Ended (Inr ()))
     else case r of None \<Rightarrow> (out, Running) | Some (Some e) \<Rightarrow> (out, Ended (Inl e))
       | Some None \<Rightarrow> apfst ((@) out) (send_task ops (drop MAX_BATCH_SIZE q) arrivals ws))"
  unfolding send_task.simps assms(1) [symmetric] Let_def assms(2)
  by (simp add: apfst_def map_prod_def split: option.splits prod.splits)

lemma send_task_prefix:
  "\<exists>rest. wire ops (queue @ concat arrivals) = fst (send_task ops queue arrivals writes) @ rest"
proof (induction arrivals arbitrary: queue writes)
  case (Cons arrived arrivals)
  define q where "q = queue @ arrived"
  obtain out r ws where w: "write_slices (byte_slices ops (map (checksummed ops) (take MAX_BATCH_SIZE q))) 0 0 writes = (out, r, ws)"
    using prod_cases3 by blast
  obtain rest where rest: "wire ops (take MAX_BATCH_SIZE q) = out @ rest" "r = Some None \<longrightarrow> rest = []"
    using write_slices_prefix [OF w] unfolding wire_slices_unsent by blast
  obtain more where more: "wire ops (drop MAX_BATCH_SIZE q @ concat arrivals) =
      fst (send_task ops (drop MAX_BATCH_SIZE q) arrivals ws) @ more"
    using Cons.IH by blast
  have "wire ops (queue @ concat (arrived # arrivals)) =
      out @ rest @ fst (send_task ops (drop MAX_BATCH_SIZE q) arrivals ws) @ more"
    unfolding more [symmetric] append_assoc [symmetric] rest(1) [symmetric]
    using wire_split [of ops q MAX_BATCH_SIZE] by (simp add: q_def)
  then show ?case
    using rest(2) unfolding send_task_Cons [OF q_def w] by (auto split: option.splits)
qed simp

text \<open>
  A socket that keeps accepting bytes takes everything: each poll of a non-empty queue sends its
  batch, and once no more frames arrive the queue is sent to the end.
\<close>

definition accepting :: "(IoErrorKind + nat) list \<Rightarrow> bool" where
  "accepting writes \<longleftrightarrow> (\<forall>w\<in>set writes. case w of Inl _ \<Rightarrow> False | Inr n \<Rightarrow> 0 < n)"

lemma accepting_alt: "accepting writes \<longleftrightarrow> (\<forall>w\<in>set writes. \<exists>n. w = Inr (Suc n))"
  unfolding accepting_def by (intro ball_cong refl) (auto split: sum.splits dest: gr0_implies_Suc)

lemma send_task_step:
  assumes "accepting writes" "length (wire ops (queue @ arrived)) \<le> length writes" "queue @ arrived \<noteq> []"
  obtains ws where "accepting ws"
    "length writes \<le> length ws + length (wire ops (take MAX_BATCH_SIZE (queue @ arrived)))"
    "send_task ops queue (arrived # arrivals) writes =
       apfst ((@) (wire ops (take MAX_BATCH_SIZE (queue @ arrived))))
         (send_task ops (drop MAX_BATCH_SIZE (queue @ arrived)) arrivals ws)"
proof -
  define q where "q = queue @ arrived"
  have "length (wire ops (take MAX_BATCH_SIZE q)) \<le> length writes"
    using assms(2) wire_split [of ops q MAX_BATCH_SIZE] unfolding q_def [symmetric] by simp
  then obtain ws where ws: "write_slices (byte_slices ops (map (checksummed ops) (take MAX_BATCH_SIZE q))) 0 0 writes =
      (wire ops (take MAX_BATCH_SIZE q), Some None, ws)" "set ws \<subseteq> set writes"
      "length writes \<le> length ws + length (wire ops (take MAX_BATCH_SIZE q))"
    using write_slices_ends [of writes "byte_slices ops (map (checksummed ops) (take MAX_BATCH_SIZE q))" 0 0]
      assms(1) unfolding wire_slices_unsent accepting_alt by blast
  moreover have "accepting ws" using ws(2) assms(1) unfolding accepting_def by blast
  moreover have "take MAX_BATCH_SIZE q \<noteq> []" using assms(3) by (simp add: q_def MAX_BATCH_SIZE_def)
  ultimately show ?thesis
    using that unfolding q_def [symmetric] send_task_Cons [OF q_def ws(1)] by simp
qed

lemma send_task_drains:
  assumes "accepting writes" "length (wire ops queue) \<le> length writes" "length queue \<le> k"
  shows "send_task ops queue (replicate (Suc k) []) writes = (wire ops queue, Ended (Inr ()))"
  using assms
proof (induction k arbitrary: queue writes)
  case 0
  then show ?case by (simp add: wire_def combined_def send_task.simps)
next
  case (Suc k)
  show ?case
  proof (cases "queue = []")
    case False
    then obtain ws where ws: "accepting ws"
      "length writes \<le> length ws + length (wire ops (take MAX_BATCH_SIZE queue))"
      "send_task ops queue ([] # replicate (Suc k) []) writes = apfst ((@) (wire ops (take MAX_BATCH_SIZE queue)))
         (send_task ops (drop MAX_BATCH_SIZE queue) (replicate (Suc k) []) ws)"
      using send_task_step [of writes ops queue "[]" "replicate (Suc k) []", unfolded append_Nil2, OF Suc.prems(1,2)]
      by blast
    have "send_task ops (drop MAX_BATCH_SIZE queue) (replicate (Suc k) []) ws =
        (wire ops (drop MAX_BATCH_SIZE queue), Ended (Inr ()))"
      using Suc.IH [OF ws(1)] ws(2) Suc.prems(2,3) wire_split [of ops queue MAX_BATCH_SIZE]
      by (simp add: MAX_BATCH_SIZE_def)
    then show ?thesis using ws(3) wire_split [of ops queue MAX_BATCH_SIZE] by simp
  qed (simp add: wire_def combined_def send_task.simps)
qed

lemma send_task_all:
  assumes "accepting writes" "length (wire ops (queue @ concat arrivals)) \<le> length writes"
    "length (queue @ concat arrivals) \<le> k" "[] \<notin> set arrivals"
  shows "send_task ops queue (arrivals @ replicate (Suc k) []) writes =
    (wire ops (queue @ concat arrivals), Ended (Inr ()))"
  using assms
proof (induction arrivals arbitrary: queue writes)
  case Nil
  then show ?case using send_task_drains [of writes ops queue k] by simp
next
  case (Cons arrived arrivals)
  define q where "q = queue @ arrived"
  have "q \<noteq> []" using Cons.prems(4) by (auto simp: q_def)
  then obtain ws where ws: "accepting ws"
    "length writes \<le> length ws + length (wire ops (take MAX_BATCH_SIZE q))"
    "send_task ops queue (arrived # arrivals @ replicate (Suc k) []) writes =
       apfst ((@) (wire ops (take MAX_BATCH_SIZE q)))
         (send_task ops (drop MAX_BATCH_SIZE q) (arrivals @ replicate (Suc k) []) ws)"
    using send_task_step [of writes ops queue arrived "arrivals @ replicate (Suc k) []", folded q_def, OF Cons.prems(1)]
      wire_split Cons.prems(2) by (auto simp: q_def)
  have split: "wire ops (queue @ concat (arrived # arrivals)) =
      wire ops (take MAX_BATCH_SIZE q) @ wire ops (drop MAX_BATCH_SIZE q @ concat arrivals)"
    using wire_split [of ops q MAX_BATCH_SIZE] by (simp add: q_def)
  have "send_task ops (drop MAX_BATCH_SIZE q) (arrivals @ replicate (Suc k) []) ws =
      (wire ops (drop MAX_BATCH_SIZE q @ concat arrivals), Ended (Inr ()))"
    using Cons.IH [OF ws(1)] ws(2) Cons.prems(2-4) unfolding split by (auto simp: q_def)
  then show ?case using ws(3) split by simp
qed

section \<open>What the receive task delivers\<close>

lemma read_body_Inl:
  "read_body n buf stream ending chunks = Inl e \<Longrightarrow> length buf \<le> n \<Longrightarrow>
    e = IoError ending \<and> length stream < n - length buf"
proof (induction n buf stream ending chunks rule: read_body.induct)
  case (1 n buf stream ending chunks)
  have True: "length buf < n" using "1.prems" by (auto simp: read_body.simps [of n buf] split: if_splits)
  obtain limit cs where l: "(case chunks of [] \<Rightarrow> (n - length buf, []) |
      c # cs \<Rightarrow> (max 1 (min c (n - length buf)), cs)) = (limit, cs)" by fastforce
  have lim: "limit \<le> n - length buf" "0 < limit" using l True by (auto split: list.splits)
  show ?case
  proof (cases "take limit stream = []")
    case nil: True
    then show ?thesis using "1.prems" l lim True by (auto simp: read_body.simps [of n buf])
  next
    case False
    then have "read_body n (buf @ take limit stream) (drop limit stream) ending cs = Inl e"
      using "1.prems" l True by (simp add: read_body.simps [of n buf])
    moreover have "length (buf @ take limit stream) \<le> n" using lim True by (auto simp: min_def)
    ultimately have "e = IoError ending \<and> length (drop limit stream) < n - length (buf @ take limit stream)"
      by (rule "1.IH" [OF True refl l [symmetric] refl refl False])
    then show ?thesis by (auto simp: min_def split: if_splits)
  qed
qed

lemma read_body_full:
  assumes "n \<le> length stream"
  obtains cs where "read_body n [] stream ending chunks = Inr (take n stream, drop n stream, cs)"
proof (cases "read_body n [] stream ending chunks")
  case (Inl e)
  then show ?thesis using read_body_Inl [OF Inl] assms by simp
next
  case (Inr r)
  then obtain b rest cs where r: "read_body n [] stream ending chunks = Inr (b, rest, cs)"
    by (metis prod_cases3)
  then show ?thesis using read_body_eq [OF r] that by simp
qed

lemma read_body_short:
  assumes "length stream < n"
  shows "read_body n [] stream ending chunks = Inl (IoError ending)"
proof (cases "read_body n [] stream ending chunks")
  case (Inl e)
  then show ?thesis using read_body_Inl [OF Inl] by simp
next
  case (Inr r)
  then obtain b rest cs where "read_body n [] stream ending chunks = Inr (b, rest, cs)"
    by (metis prod_cases3)
  from read_body_eq [OF this] show ?thesis using assms by simp
qed

definition frame_bytes :: "'h header_ops \<Rightarrow> 'h Frame \<Rightarrow> bytes" where
  "frame_bytes ops f = hdr_encode ops (frame_header f) @ frame_body f"

text \<open>A frame as \<open>set_body\<close> prepares it: the size and the body checksum are those of its body.\<close>

definition frame_ok :: "'h header_ops \<Rightarrow> 'h ZcMessageFrame \<Rightarrow> bool" where
  "frame_ok ops f \<longleftrightarrow>
     get_body_size ops (frame_header f) = length (concat (frame_body f)) \<and>
     hdr_verify_body ops (frame_header f) (concat (frame_body f))"

definition delivered :: "'h header_ops \<Rightarrow> 'h ZcMessageFrame \<Rightarrow> 'h Frame" where
  "delivered ops f =
     \<lparr>frame_header = hdr_set_checksum ops (frame_header f), frame_body = concat (frame_body f)\<rparr>"

lemma wire_Nil [simp]: "wire ops [] = []"
  by (simp add: wire_def combined_def)

lemma wire_Cons: "wire ops (f # fs) = frame_bytes ops (delivered ops f) @ wire ops fs"
  by (simp add: wire_def combined_def checksummed_def frame_bytes_def delivered_def)

text \<open>
  A transfer: the receive task at the other end of the connection delivers the first \<open>k\<close> of the queued
  frames, and these are exactly the ones whose bytes the send task wrote completely. It ends as on
  an orderly close, or as on a close within a frame.
\<close>

definition transfers ::
    "(bytes \<Rightarrow> u64) \<Rightarrow> 'h header_ops \<Rightarrow> 'h ZcMessageFrame list list \<Rightarrow> (IoErrorKind + nat) list \<Rightarrow> nat list \<Rightarrow> bool" where
  "transfers xxh3_64 ops arrivals writes chunks \<longleftrightarrow>
     (let out = fst (send_task ops [] arrivals writes); fs = concat arrivals
      in \<exists>k st. receive_task xxh3_64 ops out UnexpectedEof chunks = (map (delivered ops) (take k fs), st) \<and>
           k \<le> length fs \<and> length (wire ops (take k fs)) \<le> length out \<and>
           (k < length fs \<longrightarrow> length out < length (wire ops (take (Suc k) fs))) \<and>
           (st = Ended (Inr ()) \<or> k < length fs \<and> st = Ended (Inl (IoError UnexpectedEof))))"

context message_header
begin

lemma max_size [simp]: "max 1 (hdr_size ops) = hdr_size ops" "max (Suc 0) (hdr_size ops) = hdr_size ops"
  using size_ge by simp_all

lemma receive_frame:
  assumes "frame_ok ops f"
  obtains cs where
    "receive_task xxh3_64 ops (frame_bytes ops (delivered ops f) @ rest) ending chunks =
       apfst ((#) (delivered ops f)) (receive_task xxh3_64 ops rest ending cs)"
proof -
  let ?h = "hdr_set_checksum ops (frame_header f)" and ?b = "concat (frame_body f)"
  let ?s = "frame_bytes ops (delivered ops f) @ rest"
  have s: "?s = hdr_encode ops ?h @ ?b @ rest" by (simp add: frame_bytes_def delivered_def)
  have ok: "get_body_size ops ?h = length ?b" "hdr_verify_body ops ?h ?b"
    using assms by (simp_all add: frame_ok_def get_body_size_def checksum_fields)
  have hd: "read_exact (hdr_size ops) ?s ending = Inr (hdr_encode ops ?h, ?b @ rest)"
    unfolding s by (simp add: read_exact_def encode_length)
  have dec: "hdr_decode ops (hdr_encode ops ?h) = Some ?h" using decode_encode [of ?h "[]"] by simp
  have ver: "verify_header_checksum_raw xxh3_64 ops (hdr_encode ops ?h)"
    using verify_set_checksum [of "frame_header f" "[]"] by simp
  obtain cs where "read_body (length ?b) [] (?b @ rest) ending chunks = Inr (?b, rest, cs)"
    using read_body_full [of "length ?b" "?b @ rest"] by auto
  then have "receive_task xxh3_64 ops ?s ending chunks =
      apfst ((#) (delivered ops f)) (receive_task xxh3_64 ops rest ending cs)"
    unfolding receive_task.simps [of _ _ ?s] max_size hd
    by (simp add: ver dec ok apfst_def map_prod_def delivered_def split: prod.splits)
  then show ?thesis by (rule that)
qed

lemma receive_short:
  assumes "frame_ok ops f" "n < length (frame_bytes ops (delivered ops f))"
  shows "\<exists>st. receive_task xxh3_64 ops (take n (frame_bytes ops (delivered ops f))) UnexpectedEof chunks = ([], st) \<and>
    st \<in> {Ended (Inr ()), Ended (Inl (IoError UnexpectedEof))}"
proof -
  let ?h = "hdr_set_checksum ops (frame_header f)" and ?b = "concat (frame_body f)"
  let ?s = "take n (frame_bytes ops (delivered ops f))"
  have l: "length (hdr_encode ops ?h) = hdr_size ops" by (rule encode_length)
  show ?thesis
  proof (cases "hdr_size ops \<le> n")
    case False
    then have "read_exact (hdr_size ops) ?s UnexpectedEof = Inl UnexpectedEof"
      by (simp add: read_exact_def)
    then show ?thesis by (simp add: receive_task.simps [of _ _ ?s])
  next
    case True
    let ?r = "take (n - hdr_size ops) ?b"
    have s: "?s = hdr_encode ops ?h @ ?r" using True l by (simp add: frame_bytes_def delivered_def)
    have hd: "read_exact (hdr_size ops) ?s UnexpectedEof = Inr (hdr_encode ops ?h, ?r)"
      unfolding s by (simp add: read_exact_def l)
    have dec: "hdr_decode ops (hdr_encode ops ?h) = Some ?h" using decode_encode [of ?h "[]"] by simp
    have ver: "verify_header_checksum_raw xxh3_64 ops (hdr_encode ops ?h)"
      using verify_set_checksum [of "frame_header f" "[]"] by simp
    have size: "get_body_size ops ?h = length ?b"
      using assms(1) by (simp add: frame_ok_def get_body_size_def checksum_fields)
    have "length ?r < length ?b"
      using assms(2) True l by (simp add: frame_bytes_def delivered_def min_def)
    then have "read_body (get_body_size ops ?h) [] ?r UnexpectedEof chunks = Inl (IoError UnexpectedEof)"
      unfolding size by (rule read_body_short)
    then show ?thesis unfolding receive_task.simps [of _ _ ?s] max_size hd by (simp add: ver dec)
  qed
qed

lemma receive_empty: "receive_task xxh3_64 ops [] UnexpectedEof chunks = ([], Ended (Inr ()))"
  using size_ge by (simp add: receive_task.simps [of _ _ "[]"] read_exact_def)

text \<open>Whatever part of the bytes of some frames arrives, the complete frames are delivered in order.\<close>

lemma receive_wire:
  assumes "\<forall>f\<in>set fs. frame_ok ops f"
  shows "\<exists>k st. receive_task xxh3_64 ops (take n (wire ops fs)) UnexpectedEof chunks = (map (delivered ops) (take k fs), st) \<and>
    k \<le> length fs \<and> length (wire ops (take k fs)) \<le> n \<and> (k < length fs \<longrightarrow> n < length (wire ops (take (Suc k) fs))) \<and>
    (st = Ended (Inr ()) \<or> k < length fs \<and> st = Ended (Inl (IoError UnexpectedEof)))"
  using assms
proof (induction fs arbitrary: n chunks)
  case Nil
  then show ?case by (simp add: receive_empty)
next
  case (Cons f fs)
  let ?b = "frame_bytes ops (delivered ops f)"
  show ?case
  proof (cases "n < length ?b")
    case True
    then have t: "take n (wire ops (f # fs)) = take n ?b" by (simp add: wire_Cons)
    obtain st where "receive_task xxh3_64 ops (take n ?b) UnexpectedEof chunks = ([], st)"
      "st \<in> {Ended (Inr ()), Ended (Inl (IoError UnexpectedEof))}"
      using receive_short [OF _ True] Cons.prems by auto
    then show ?thesis unfolding t using True by (intro exI [of _ 0] exI [of _ st]) (auto simp: wire_Cons)
  next
    case False
    then have t: "take n (wire ops (f # fs)) = ?b @ take (n - length ?b) (wire ops fs)"
      by (simp add: wire_Cons)
    obtain cs where r: "receive_task xxh3_64 ops (take n (wire ops (f # fs))) UnexpectedEof chunks =
        apfst ((#) (delivered ops f)) (receive_task xxh3_64 ops (take (n - length ?b) (wire ops fs)) UnexpectedEof cs)"
      unfolding t using receive_frame Cons.prems by (metis list.set_intros(1))
    obtain k st where k: "receive_task xxh3_64 ops (take (n - length ?b) (wire ops fs)) UnexpectedEof cs =
        (map (delivered ops) (take k fs), st)"
      "k \<le> length fs" "length (wire ops (take k fs)) \<le> n - length ?b"
      "k < length fs \<longrightarrow> n - length ?b < length (wire ops (take (Suc k) fs))"
      "st = Ended (Inr ()) \<or> k < length fs \<and> st = Ended (Inl (IoError UnexpectedEof))"
      using Cons.IH [of "n - length ?b" cs] Cons.prems by auto
    show ?thesis
      unfolding r k(1) using k(2-5) False
      by (intro exI [of _ "Suc k"] exI [of _ st]) (auto simp: wire_Cons)
  qed
qed

text \<open>
  Over an arbitrary stream: what is delivered is, byte for byte and in order, the beginning of the
  stream, each frame with a header that carries its own checksum and the body it announces.
\<close>

lemma receive_verified:
  "\<exists>rest. stream = concat (map (frame_bytes ops) (fst (receive_task xxh3_64 ops stream ending chunks))) @ rest \<and>
    (\<forall>f\<in>set (fst (receive_task xxh3_64 ops stream ending chunks)).
       hdr_set_checksum ops (frame_header f) = frame_header f \<and>
       get_body_size ops (frame_header f) = length (frame_body f) \<and>
       hdr_verify_body ops (frame_header f) (frame_body f)) \<and>
    snd (receive_task xxh3_64 ops stream ending chunks) \<notin> {Running, Panicked}"
proof (induction "length stream" arbitrary: stream chunks rule: less_induct)
  case less
  let ?r = "receive_task xxh3_64 ops stream ending chunks"
  let ?b = "take (hdr_size ops) stream" and ?t = "drop (hdr_size ops) stream"
  show ?case
  proof (cases "hdr_size ops \<le> length stream \<and> verify_header_checksum_raw xxh3_64 ops ?b")
    case False
    then show ?thesis by (auto simp: receive_task.simps [of _ _ stream] read_exact_def)
  next
    case True
    obtain h where h: "hdr_decode ops ?b = Some h" using decode_total [of ?b] True by auto
    have enc: "hdr_encode ops h = ?b" using encode_decode [OF h] by simp
    have own: "hdr_set_checksum ops h = h" using verify_iff [OF h] True by simp
    let ?n = "get_body_size ops h"
    show ?thesis
    proof (cases "?n \<le> length ?t \<and> hdr_verify_body ops h (take ?n ?t)")
      case False
      have "fst ?r = [] \<and> snd ?r \<notin> {Running, Panicked}"
      proof (cases "?n \<le> length ?t")
        case len: True
        obtain cs where "read_body ?n [] ?t ending chunks = Inr (take ?n ?t, drop ?n ?t, cs)"
          using read_body_full [OF len] .
        then show ?thesis using True False len h
          by (simp add: receive_task.simps [of _ _ stream] read_exact_def)
      next
        case short: False
        then have "read_body ?n [] ?t ending chunks = Inl (IoError ending)" by (intro read_body_short) simp
        then show ?thesis using True h by (simp add: receive_task.simps [of _ _ stream] read_exact_def)
      qed
      then show ?thesis by simp
    next
      case ok: True
      obtain cs where cs: "read_body ?n [] ?t ending chunks = Inr (take ?n ?t, drop ?n ?t, cs)"
        using read_body_full ok by blast
      let ?f = "\<lparr>frame_header = h, frame_body = take ?n ?t\<rparr>"
      have r: "?r = apfst ((#) ?f) (receive_task xxh3_64 ops (drop ?n ?t) ending cs)"
        using True ok h cs
        by (simp add: receive_task.simps [of _ _ stream] read_exact_def apfst_def map_prod_def split: prod.splits)
      have "length (drop ?n ?t) < length stream" using True size_ge by auto
      from less [OF this, of cs] obtain rest where
        "drop ?n ?t = concat (map (frame_bytes ops) (fst (receive_task xxh3_64 ops (drop ?n ?t) ending cs))) @ rest"
        "\<forall>f\<in>set (fst (receive_task xxh3_64 ops (drop ?n ?t) ending cs)).
           hdr_set_checksum ops (frame_header f) = frame_header f \<and>
           get_body_size ops (frame_header f) = length (frame_body f) \<and>
           hdr_verify_body ops (frame_header f) (frame_body f)"
        "snd (receive_task xxh3_64 ops (drop ?n ?t) ending cs) \<notin> {Running, Panicked}" by blast
      moreover have "stream = frame_bytes ops ?f @ drop ?n ?t"
        by (simp only: frame_bytes_def enc MessageFrame.select_convs append_assoc append_take_drop_id)
      ultimately show ?thesis
        unfolding r using own ok by (intro exI [of _ rest]) auto
    qed
  qed
qed

lemma send_receive:
  assumes "\<forall>f\<in>set (concat arrivals). frame_ok ops f"
  shows "transfers xxh3_64 ops arrivals writes chunks"
proof -
  obtain rest where "wire ops (concat arrivals) = fst (send_task ops [] arrivals writes) @ rest"
    using send_task_prefix [of ops "[]" arrivals writes] by auto
  then have "fst (send_task ops [] arrivals writes) =
      take (length (fst (send_task ops [] arrivals writes))) (wire ops (concat arrivals))" by simp
  then show ?thesis
    using receive_wire [OF assms, of "length (fst (send_task ops [] arrivals writes))" chunks]
    unfolding transfers_def Let_def by simp
qed

lemma send_receive_all:
  assumes "\<forall>f\<in>set (concat arrivals). frame_ok ops f"
    and "accepting writes" "length (wire ops (concat arrivals)) \<le> length writes"
    and "[] \<notin> set arrivals" "length (concat arrivals) \<le> n"
  shows "receive_task xxh3_64 ops (fst (send_task ops [] (arrivals @ replicate (Suc n) []) writes)) UnexpectedEof chunks =
      (map (delivered ops) (concat arrivals), Ended (Inr ()))"
proof -
  have "fst (send_task ops [] (arrivals @ replicate (Suc n) []) writes) = wire ops (concat arrivals)"
    using send_task_all [of writes ops "[]" arrivals n] assms by simp
  moreover have "receive_task xxh3_64 ops (wire ops (concat arrivals)) UnexpectedEof chunks =
      (map (delivered ops) (concat arrivals), Ended (Inr ()))"
  proof -
    let ?fs = "concat arrivals"
    obtain k st where k: "receive_task xxh3_64 ops (wire ops ?fs) UnexpectedEof chunks = (map (delivered ops) (take k ?fs), st)"
      "k \<le> length ?fs" "k < length ?fs \<longrightarrow> length (wire ops ?fs) < length (wire ops (take (Suc k) ?fs))"
      "st = Ended (Inr ()) \<or> k < length ?fs"
      using receive_wire [OF assms(1), of "length (wire ops ?fs)" chunks] by auto
    have "length (wire ops (take (Suc k) ?fs)) \<le> length (wire ops ?fs)"
      using wire_split [of ops ?fs "Suc k"] by simp
    then have "k = length ?fs" using k(2,3) by linarith
    then show ?thesis using k(1,4) by simp
  qed
  ultimately show ?thesis by simp
qed

end

section \<open>Frames survive the wire\<close>

definition bss_frame :: "(bytes \<Rightarrow> u64) \<Rightarrow> MessageHeader \<times> bytes list \<Rightarrow> MessageHeader ZcMessageFrame" where
  "bss_frame xxh3_64 = (\<lambda>(h, body). \<lparr>frame_header = mh_set_body xxh3_64 (concat body) h, frame_body = body\<rparr>)"

definition protobuf_frame ::
    "(bytes \<Rightarrow> u64) \<Rightarrow> ProtobufMessageHeader \<times> bytes list \<Rightarrow> ProtobufMessageHeader ZcMessageFrame" where
  "protobuf_frame xxh3_64 = (\<lambda>(h, body). \<lparr>frame_header = ph_set_body xxh3_64 (concat body) h, frame_body = body\<rparr>)"

lemma unat_of_size: "n < 2 ^ 32 \<Longrightarrow> unat (word_of_nat n :: u32) = n"
  by (simp add: unat_of_nat)

lemma bss_frame_ok:
  "160 + length (concat (snd r)) < 2 ^ 32 \<Longrightarrow> frame_ok (bss_ops xxh3_64) (bss_frame xxh3_64 r)"
  using unat_of_size [of "160 + length (concat (snd r))"]
  by (auto simp: frame_ok_def bss_frame_def bss_ops_def get_body_size_def mh_set_body_def
      mh_set_body_checksum_def mh_verify_body_def split: prod.splits)

lemma protobuf_frame_ok:
  "48 + length (concat (snd r)) < 2 ^ 32 \<Longrightarrow> frame_ok (protobuf_ops xxh3_64) (protobuf_frame xxh3_64 r)"
  using unat_of_size [of "48 + length (concat (snd r))"]
  by (auto simp: frame_ok_def protobuf_frame_def protobuf_ops_def get_body_size_def ph_set_body_def
      ph_set_body_checksum_def ph_verify_body_def split: prod.splits)

text \<open>
  C8. Frames survive the wire. However the socket cuts the send task's vectored writes, wherever it
  fails, and however it chunks the reads, the receive task at the other end delivers, in order and
  with their bodies, exactly the frames whose bytes were written completely, and never reports a
  checksum mismatch or panics; for the BSS header and for the protobuf header, for bodies whose size
  the 32-bit length field can hold.
\<close>

theorem wire_roundtrip:
  assumes "\<forall>r\<in>set (concat reqs). 160 + length (concat (snd r)) < 2 ^ 32"
    and "\<forall>r\<in>set (concat preqs). 48 + length (concat (snd r)) < 2 ^ 32"
  shows "transfers xxh3_64 (bss_ops xxh3_64) (map (map (bss_frame xxh3_64)) reqs) writes chunks \<and>
    transfers xxh3_64 (protobuf_ops xxh3_64) (map (map (protobuf_frame xxh3_64)) preqs) writes chunks"
proof
  have "\<forall>f\<in>set (concat (map (map (bss_frame xxh3_64)) reqs)). frame_ok (bss_ops xxh3_64) f"
    using assms(1) bss_frame_ok by fastforce
  then show "transfers xxh3_64 (bss_ops xxh3_64) (map (map (bss_frame xxh3_64)) reqs) writes chunks"
    by (rule bss.send_receive)
  have "\<forall>f\<in>set (concat (map (map (protobuf_frame xxh3_64)) preqs)). frame_ok (protobuf_ops xxh3_64) f"
    using assms(2) protobuf_frame_ok by fastforce
  then show "transfers xxh3_64 (protobuf_ops xxh3_64) (map (map (protobuf_frame xxh3_64)) preqs) writes chunks"
    by (rule protobuf.send_receive)
qed

theorem wire_roundtrip_witness:
  "transfers (\<lambda>_. 7) (bss_ops (\<lambda>_. 7)) (map (map (bss_frame (\<lambda>_. 7))) [[(mh_default, [[1, 2], [], [3]])], [(mh_default, [])]])
      [Inr 5, Inr 200, Inl TimedOut] [1] \<and>
   transfers (\<lambda>_. 7) (protobuf_ops (\<lambda>_. 7)) (map (map (protobuf_frame (\<lambda>_. 7))) [[(ph_default, [[4]])]])
      [Inr 5, Inr 200, Inl TimedOut] [1]"
  by (rule wire_roundtrip) simp_all



text \<open>
  C16. The receive task trusts nothing it has not checked. Over any byte stream, however it ends, the
  task ends without a panic, and what it delivered is byte for byte the beginning of the stream, cut
  into frames that each carry the checksum of their own header, announce the length of their own
  body and pass the body check.
\<close>

theorem receive_task_integrity:
  "\<exists>frames st rest. receive_task xxh3_64 (bss_ops xxh3_64) stream ending chunks = (frames, Ended st) \<and>
     stream = concat (map (frame_bytes (bss_ops xxh3_64)) frames) @ rest \<and>
     list_all (\<lambda>f. mh_checksum (frame_header f) = xxh3_64 (drop 8 (mh_encode (frame_header f))) \<and>
       unat (mh_size (frame_header f)) - 160 = length (frame_body f) \<and>
       mh_checksum_body (frame_header f) = xxh3_64 (frame_body f)) frames"
proof -
  let ?r = "receive_task xxh3_64 (bss_ops xxh3_64) stream ending chunks"
  have own: "mh_checksum h = xxh3_64 (drop 8 (mh_encode h))" if "mh_set_checksum xxh3_64 h = h" for h
    using that unfolding mh_set_checksum_def by (metis MessageHeader.select_convs(1) MessageHeader.surjective MessageHeader.update_convs(1))
  obtain rest where "stream = concat (map (frame_bytes (bss_ops xxh3_64)) (fst ?r)) @ rest"
    "\<forall>f\<in>set (fst ?r). mh_set_checksum xxh3_64 (frame_header f) = frame_header f \<and>
       unat (mh_size (frame_header f)) - 160 = length (frame_body f) \<and> mh_verify_body xxh3_64 (frame_header f) (frame_body f)"
    "snd ?r \<notin> {Running, Panicked}"
  proof -
    have "\<exists>rest. stream = concat (map (frame_bytes (bss_ops xxh3_64)) (fst ?r)) @ rest \<and>
      (\<forall>f\<in>set (fst ?r). hdr_set_checksum (bss_ops xxh3_64) (frame_header f) = frame_header f \<and>
         get_body_size (bss_ops xxh3_64) (frame_header f) = length (frame_body f) \<and>
         hdr_verify_body (bss_ops xxh3_64) (frame_header f) (frame_body f)) \<and> snd ?r \<notin> {Running, Panicked}"
      by (rule bss.receive_verified)
    then show ?thesis using that by (auto simp: bss_ops_def get_body_size_def)
  qed
  moreover from this(3) obtain st where "?r = (fst ?r, Ended st)" by (cases ?r; cases "snd ?r") auto
  ultimately show ?thesis
    by (intro exI [of _ "fst ?r"] exI [of _ st] exI [of _ rest]) (auto simp: list_all_iff mh_verify_body_def intro: own)
qed

end
