(* ===== verification/Rpc_Pending.thy ===== *)
theory Rpc_Pending
  imports Rpc_Client "HOL-Library.AList"
begin

text \<open>
  The pending requests of a multiplexed connection (\<open>generic_client.rs\<close>): the map from request ids to
  the senders of one-shot channels, shared by the callers of \<open>send_request\<close>, the send task and the
  receive task. Each lock acquisition, atomic access or await point is one event; a run is any
  interleaving of events.

  A caller \<open>c\<close> is a number; \<open>req c\<close> is the frame it sends and \<open>has_timeout c\<close> says whether it gave a
  timeout. The sender that the map holds for an id is represented by the caller that owns the
  receiving end.
\<close>

section \<open>State and events\<close>

datatype DrainFrom = SendTask | ReceiveTask

datatype task_phase = Active | Returned | Marked | Drained

datatype 'h chan = Open | Sent "'h Frame" | Dropped

datatype 'h phase =
    Start
  | Admitted
  | Registered
  | Waiting
  | Finished "RpcError + 'h Frame"
  | Cancelled

record 'h conn =
  pending :: "(u32 \<times> nat) list"
  is_closed :: bool
  task :: "DrainFrom \<Rightarrow> task_phase"
  outgoing :: "'h ZcMessageFrame list"
  phase :: "nat \<Rightarrow> 'h phase"
  chan :: "nat \<Rightarrow> 'h chan"

definition new_internal :: "'h conn" where
  "new_internal = \<lparr>pending = [], is_closed = False, task = (\<lambda>_. Active), outgoing = [],
     phase = (\<lambda>_. Start), chan = (\<lambda>_. Open)\<rparr>"

text \<open>Inserting under an id that is taken drops the sender that was there.\<close>

definition insert_request :: "u32 \<Rightarrow> nat \<Rightarrow> 'h conn \<Rightarrow> 'h conn" where
  "insert_request i c s =
     (let ch = (case map_of (pending s) i of None \<Rightarrow> chan s | Some d \<Rightarrow> (chan s)(d := Dropped))
      in s\<lparr>pending := AList.update i c (pending s), chan := ch(c := Open)\<rparr>)"

definition guard_drop :: "u32 \<Rightarrow> 'h conn \<Rightarrow> 'h conn" where
  "guard_drop i s =
     (case map_of (pending s) i of
        None \<Rightarrow> s
      | Some d \<Rightarrow> s\<lparr>pending := AList.delete i (pending s), chan := (chan s)(d := Dropped)\<rparr>)"

definition handle_incoming_frame :: "'h header_ops \<Rightarrow> 'h Frame \<Rightarrow> 'h conn \<Rightarrow> 'h conn" where
  "handle_incoming_frame ops frame s =
     (let request_id = hdr_id ops (frame_header frame)
      in case map_of (pending s) request_id of
           None \<Rightarrow> s
         | Some tx \<Rightarrow> s\<lparr>pending := AList.delete request_id (pending s), chan := (chan s)(tx := Sent frame)\<rparr>)"

definition drain_pending_requests :: "'h conn \<Rightarrow> 'h conn" where
  "drain_pending_requests s =
     s\<lparr>pending := [], chan := (\<lambda>c. if c \<in> set (map snd (pending s)) then Dropped else chan s c)\<rparr>"

datatype 'h event =
    Begin nat
  | Insert nat
  | Enqueue nat
  | Wake nat
  | Timeout nat
  | Cancel nat
  | Receive "'h Frame"
  | TaskReturn DrainFrom
  | MarkClosed DrainFrom
  | Drain DrainFrom

definition goto :: "nat \<Rightarrow> 'h phase \<Rightarrow> 'h conn \<Rightarrow> 'h conn" where
  "goto c p s = s\<lparr>phase := (phase s)(c := p)\<rparr>"

definition request_id :: "'h header_ops \<Rightarrow> (nat \<Rightarrow> 'h ZcMessageFrame) \<Rightarrow> nat \<Rightarrow> u32" where
  "request_id ops req c = hdr_id ops (frame_header (req c))"

text \<open>
  The caller's side, in the order of \<open>send_request_vectored_internal\<close>, then the two tasks. The queue
  refuses a frame once the send task has returned. An event that cannot happen is \<open>None\<close>.
\<close>

fun perform ::
    "'h header_ops \<Rightarrow> (nat \<Rightarrow> 'h ZcMessageFrame) \<Rightarrow> (nat \<Rightarrow> bool) \<Rightarrow> 'h event \<Rightarrow> 'h conn \<Rightarrow> 'h conn option" where
  "perform ops req has_timeout (Begin c) s =
     (if phase s c \<noteq> Start then None
      else if is_closed s then Some (goto c (Finished (Inl (InternalRequestError ''Connection is closed''))) s)
      else Some (goto c Admitted s))"
| "perform ops req has_timeout (Insert c) s =
     (if phase s c \<noteq> Admitted then None
      else Some (goto c Registered (insert_request (request_id ops req c) c s)))"
| "perform ops req has_timeout (Enqueue c) s =
     (if phase s c \<noteq> Registered then None
      else if task s SendTask = Active then Some (goto c Waiting (s\<lparr>outgoing := outgoing s @ [req c]\<rparr>))
      else Some (goto c (Finished (Inl (InternalRequestError ''channel closed'')))
             (guard_drop (request_id ops req c) s)))"
| "perform ops req has_timeout (Wake c) s =
     (if phase s c \<noteq> Waiting then None
      else (case chan s c of
              Open \<Rightarrow> None
            | Sent frame \<Rightarrow> Some (goto c (Finished (Inr frame)) s)
            | Dropped \<Rightarrow> Some (goto c (Finished (Inl (InternalResponseError ''channel closed''))) s)))"
| "perform ops req has_timeout (Timeout c) s =
     (if phase s c \<noteq> Waiting \<or> \<not> has_timeout c \<or> chan s c \<noteq> Open then None
      else Some (goto c (Finished (Inl (InternalResponseError ''timeout'')))
             (guard_drop (request_id ops req c) s)))"
| "perform ops req has_timeout (Cancel c) s =
     (case phase s c of
        Start \<Rightarrow> Some (goto c Cancelled s)
      | Admitted \<Rightarrow> Some (goto c Cancelled s)
      | Registered \<Rightarrow> Some (goto c Cancelled (guard_drop (request_id ops req c) s))
      | Waiting \<Rightarrow> Some (goto c Cancelled (guard_drop (request_id ops req c) s))
      | Finished _ \<Rightarrow> None
      | Cancelled \<Rightarrow> None)"
| "perform ops req has_timeout (Receive frame) s =
     (if task s ReceiveTask \<noteq> Active then None else Some (handle_incoming_frame ops frame s))"
| "perform ops req has_timeout (TaskReturn t) s =
     (if task s t \<noteq> Active then None else Some (s\<lparr>task := (task s)(t := Returned)\<rparr>))"
| "perform ops req has_timeout (MarkClosed t) s =
     (if task s t \<noteq> Returned then None else Some (s\<lparr>task := (task s)(t := Marked), is_closed := True\<rparr>))"
| "perform ops req has_timeout (Drain t) s =
     (if task s t \<noteq> Marked then None
      else Some (drain_pending_requests (s\<lparr>task := (task s)(t := Drained)\<rparr>)))"

fun run_events ::
    "'h header_ops \<Rightarrow> (nat \<Rightarrow> 'h ZcMessageFrame) \<Rightarrow> (nat \<Rightarrow> bool) \<Rightarrow> 'h event list \<Rightarrow> 'h conn \<Rightarrow> 'h conn option" where
  "run_events ops req has_timeout [] s = Some s"
| "run_events ops req has_timeout (e # es) s =
     (case perform ops req has_timeout e s of None \<Rightarrow> None | Some s' \<Rightarrow> run_events ops req has_timeout es s')"

inductive reachable ::
    "'h header_ops \<Rightarrow> (nat \<Rightarrow> 'h ZcMessageFrame) \<Rightarrow> (nat \<Rightarrow> bool) \<Rightarrow> 'h conn \<Rightarrow> bool"
  for ops req has_timeout where
  start: "reachable ops req has_timeout new_internal"
| event: "reachable ops req has_timeout s \<Longrightarrow> perform ops req has_timeout e s = Some s' \<Longrightarrow>
    reachable ops req has_timeout s'"

lemma run_reachable:
  "reachable ops req has_timeout s \<Longrightarrow> run_events ops req has_timeout es s = Some s' \<Longrightarrow>
    reachable ops req has_timeout s'"
  by (induction es arbitrary: s) (auto split: option.splits intro: reachable.event)

section \<open>The invariant\<close>

text \<open>
  The map holds exactly the registered or waiting callers whose channel is still open, each under
  its own id; a response in a channel carries the id of the channel's owner.
\<close>

definition conn_ok :: "'h header_ops \<Rightarrow> (nat \<Rightarrow> 'h ZcMessageFrame) \<Rightarrow> 'h conn \<Rightarrow> bool" where
  "conn_ok ops req s \<longleftrightarrow>
     distinct (map fst (pending s)) \<and>
     (\<forall>i c. map_of (pending s) i = Some c \<longleftrightarrow>
        request_id ops req c = i \<and> phase s c \<in> {Registered, Waiting} \<and> chan s c = Open) \<and>
     (\<forall>c f. chan s c = Sent f \<longrightarrow> hdr_id ops (frame_header f) = request_id ops req c) \<and>
     (\<forall>c f. phase s c = Finished (Inr f) \<longrightarrow> hdr_id ops (frame_header f) = request_id ops req c) \<and>
     (\<forall>t. task s t \<in> {Marked, Drained} \<longrightarrow> is_closed s) \<and>
     (task s SendTask = Drained \<longrightarrow> (\<forall>c. phase s c = Waiting \<longrightarrow> chan s c \<noteq> Open))"

lemma conn_okD:
  assumes "conn_ok ops req s"
  shows "distinct (map fst (pending s))"
    and "map_of (pending s) i = Some c \<longleftrightarrow>
      request_id ops req c = i \<and> phase s c \<in> {Registered, Waiting} \<and> chan s c = Open"
    and "chan s c = Sent f \<Longrightarrow> hdr_id ops (frame_header f) = request_id ops req c"
    and "phase s c = Finished (Inr f) \<Longrightarrow> hdr_id ops (frame_header f) = request_id ops req c"
    and "task s t \<in> {Marked, Drained} \<Longrightarrow> is_closed s"
    and "task s SendTask = Drained \<Longrightarrow> phase s c = Waiting \<Longrightarrow> chan s c \<noteq> Open"
  using assms unfolding conn_ok_def by blast+

lemma conn_okI:
  assumes "distinct (map fst (pending s))"
    and "\<And>i c. map_of (pending s) i = Some c \<longleftrightarrow>
      request_id ops req c = i \<and> phase s c \<in> {Registered, Waiting} \<and> chan s c = Open"
    and "\<And>c f. chan s c = Sent f \<Longrightarrow> hdr_id ops (frame_header f) = request_id ops req c"
    and "\<And>c f. phase s c = Finished (Inr f) \<Longrightarrow> hdr_id ops (frame_header f) = request_id ops req c"
    and "\<And>t. task s t \<in> {Marked, Drained} \<Longrightarrow> is_closed s"
    and "\<And>c. task s SendTask = Drained \<Longrightarrow> phase s c = Waiting \<Longrightarrow> chan s c \<noteq> Open"
  shows "conn_ok ops req s"
  using assms unfolding conn_ok_def by blast

lemmas alist_simps = update_conv' delete_conv' distinct_update distinct_delete

lemma conn_ok_start: "conn_ok ops req new_internal"
  by (simp add: conn_ok_def new_internal_def)

text \<open>Taking an entry out and resolving its channel keeps the invariant.\<close>

lemma conn_ok_resolve:
  assumes ok: "conn_ok ops req s" and m: "map_of (pending s) i = Some d" and ch: "ch \<noteq> Open"
    and f: "\<And>f. ch = Sent f \<Longrightarrow> hdr_id ops (frame_header f) = i"
  shows "conn_ok ops req (s\<lparr>pending := AList.delete i (pending s), chan := (chan s)(d := ch)\<rparr>)"
    (is "conn_ok ops req ?s")
proof (rule conn_okI)
  have d: "request_id ops req d = i" "chan s d = Open" using m conn_okD(2) [OF ok] by blast+
  show "distinct (map fst (pending ?s))" using conn_okD(1) [OF ok] by (simp add: distinct_delete)
  fix j c
  show "map_of (pending ?s) j = Some c \<longleftrightarrow>
      request_id ops req c = j \<and> phase ?s c \<in> {Registered, Waiting} \<and> chan ?s c = Open"
    using conn_okD(2) [OF ok, of j c] m d ch by (auto simp: delete_conv' simp del: map_of_eq_Some_iff)
next
  have d: "request_id ops req d = i" using m conn_okD(2) [OF ok] by blast
  fix c fr assume "chan ?s c = Sent fr"
  then show "hdr_id ops (frame_header fr) = request_id ops req c"
    using conn_okD(3) [OF ok] f d by (auto split: if_splits)
qed (use conn_okD(4-6) [OF ok] ch in \<open>auto split: if_splits\<close>)

lemma conn_ok_guard_drop:
  assumes "conn_ok ops req s" shows "conn_ok ops req (guard_drop i s)"
  unfolding guard_drop_def using assms conn_ok_resolve [OF assms, of i _ Dropped] by (auto split: option.splits)

lemma conn_ok_receive:
  assumes "conn_ok ops req s" shows "conn_ok ops req (handle_incoming_frame ops f s)"
proof (cases "map_of (pending s) (hdr_id ops (frame_header f))")
  case None
  then show ?thesis using assms unfolding handle_incoming_frame_def Let_def None option.case by simp
next
  case (Some d)
  have "conn_ok ops req (s\<lparr>pending := AList.delete (hdr_id ops (frame_header f)) (pending s), chan := (chan s)(d := Sent f)\<rparr>)"
    by (rule conn_ok_resolve [OF assms Some]) simp_all
  then show ?thesis unfolding handle_incoming_frame_def Let_def Some option.case .
qed

lemma guard_drop_own:
  assumes "conn_ok ops req s" "phase s c \<in> {Registered, Waiting}"
  shows "chan (guard_drop (request_id ops req c) s) c \<noteq> Open"
proof (cases "chan s c = Open")
  case True
  then have "map_of (pending s) (request_id ops req c) = Some c"
    using conn_okD(2) [OF assms(1)] assms(2) by blast
  then show ?thesis by (simp add: guard_drop_def)
next
  case False
  then show ?thesis by (simp add: guard_drop_def split: option.splits)
qed

lemma guard_drop_simps [simp]:
  "phase (guard_drop i s) = phase s" "task (guard_drop i s) = task s" "is_closed (guard_drop i s) = is_closed s"
  by (simp_all add: guard_drop_def split: option.splits)

lemma conn_ok_leave:
  assumes "conn_ok ops req s" "phase s c \<in> {Registered, Waiting} \<Longrightarrow> chan s c \<noteq> Open"
    and "p \<notin> {Registered, Waiting}" "\<And>f. p = Finished (Inr f) \<Longrightarrow> hdr_id ops (frame_header f) = request_id ops req c"
  shows "conn_ok ops req (goto c p s)"
  using assms unfolding conn_ok_def goto_def by auto

lemma conn_ok_insert:
  assumes ok: "conn_ok ops req s" and c: "phase s c = Admitted"
  shows "conn_ok ops req (goto c Registered (insert_request (request_id ops req c) c s))" (is "conn_ok ops req ?s")
proof (rule conn_okI)
  let ?i = "request_id ops req c"
  have p: "pending ?s = AList.update ?i c (pending s)" "phase ?s = (phase s)(c := Registered)"
    by (simp_all add: goto_def insert_request_def Let_def)
  have ch: "chan ?s d = (if d = c then Open else if map_of (pending s) ?i = Some d then Dropped else chan s d)" for d
    by (auto simp: goto_def insert_request_def Let_def split: option.splits)
  show "distinct (map fst (pending ?s))" unfolding p by (simp add: conn_okD(1) [OF ok] distinct_update)
  fix j d
  show "map_of (pending ?s) j = Some d \<longleftrightarrow>
      request_id ops req d = j \<and> phase ?s d \<in> {Registered, Waiting} \<and> chan ?s d = Open"
    unfolding p ch using conn_okD(2) [OF ok, of j d] conn_okD(2) [OF ok, of ?i d] c
    by (auto simp: update_conv' simp del: map_of_eq_Some_iff)
qed (use conn_okD(3-6) [OF ok] in \<open>auto simp: goto_def insert_request_def Let_def split: option.splits if_splits\<close>)

lemma conn_ok_drain:
  assumes "conn_ok ops req s" "task s t = Marked"
  shows "conn_ok ops req (drain_pending_requests (s\<lparr>task := (task s)(t := Drained)\<rparr>))"
proof -
  have "c \<in> set (map snd (pending s))" if "phase s c \<in> {Registered, Waiting}" "chan s c = Open" for c
  proof -
    have "map_of (pending s) (request_id ops req c) = Some c" using conn_okD(2) [OF assms(1)] that by blast
    then show ?thesis by (force dest: map_of_SomeD)
  qed
  then show ?thesis using assms unfolding conn_ok_def drain_pending_requests_def by auto
qed

lemma conn_ok_wait:
  assumes "conn_ok ops req s" "phase s c = Registered" "task s SendTask = Active"
  shows "conn_ok ops req (goto c Waiting (s\<lparr>outgoing := q\<rparr>))"
  using assms unfolding conn_ok_def goto_def by (auto simp del: map_of_eq_Some_iff)

lemma conn_ok_step:
  assumes "conn_ok ops req s" "perform ops req has_timeout e s = Some s'"
  shows "conn_ok ops req s'"
proof -
  note leave = conn_ok_leave [OF assms(1)]
    and drop = conn_ok_leave [OF conn_ok_guard_drop [OF assms(1)] guard_drop_own [OF assms(1)]]
  show ?thesis
  proof (cases e)
    case (Begin c)
    then show ?thesis using assms(2) by (auto split: if_splits intro!: leave)
  next
    case (Insert c)
    then show ?thesis using assms conn_ok_insert by (auto split: if_splits)
  next
    case (Enqueue c)
    then show ?thesis using assms by (auto split: if_splits intro!: conn_ok_wait drop)
  next
    case (Wake c)
    then show ?thesis using assms(2) conn_okD(3) [OF assms(1), of c]
      by (auto split: if_splits chan.splits intro!: leave)
  next
    case (Timeout c)
    then show ?thesis using assms(2) by (auto split: if_splits intro!: drop)
  next
    case (Cancel c)
    then show ?thesis using assms(2) by (auto split: phase.splits intro!: drop leave)
  next
    case (Receive f)
    then show ?thesis using assms conn_ok_receive by (auto split: if_splits)
  next
    case (TaskReturn t)
    then show ?thesis using assms unfolding conn_ok_def by (auto simp del: map_of_eq_Some_iff split: if_splits)
  next
    case (MarkClosed t)
    then show ?thesis using assms unfolding conn_ok_def by (auto simp del: map_of_eq_Some_iff split: if_splits)
  next
    case (Drain t)
    then show ?thesis using assms conn_ok_drain by (auto split: if_splits)
  qed
qed

lemma reachable_ok: "reachable ops req has_timeout s \<Longrightarrow> conn_ok ops req s"
  by (induction rule: reachable.induct) (auto intro: conn_ok_start conn_ok_step)

section \<open>Callers with distinct ids do not disturb each other\<close>

text \<open>A channel of an unfinished caller is dropped only by a drain.\<close>

definition undisturbed :: "'h conn \<Rightarrow> bool" where
  "undisturbed s \<longleftrightarrow>
     (\<forall>t. task s t \<noteq> Drained) \<longrightarrow>
     (\<forall>c. (phase s c \<in> {Registered, Waiting} \<longrightarrow> chan s c \<noteq> Dropped) \<and>
        phase s c \<noteq> Finished (Inl (InternalResponseError ''channel closed'')))"

definition distinct_ids :: "'h header_ops \<Rightarrow> (nat \<Rightarrow> 'h ZcMessageFrame) \<Rightarrow> 'h conn \<Rightarrow> bool" where
  "distinct_ids ops req s \<longleftrightarrow> inj_on (request_id ops req) {c. phase s c \<noteq> Start}"

lemma distinct_idsD:
  assumes "distinct_ids ops req s" "request_id ops req c = request_id ops req d" "phase s c \<noteq> Start" "phase s d \<noteq> Start"
  shows "c = d"
  using assms unfolding distinct_ids_def by (auto dest: inj_onD)

lemma pending_own:
  assumes "conn_ok ops req s" "distinct_ids ops req s" "phase s c \<noteq> Start"
    and "map_of (pending s) (request_id ops req c) = Some e"
  shows "e = c"
proof -
  have "request_id ops req e = request_id ops req c" "phase s e \<noteq> Start"
    using conn_okD(2) [OF assms(1), of "request_id ops req c" e] assms(4) by auto
  then show ?thesis using distinct_idsD [OF assms(2)] assms(3) by blast
qed

lemma guard_drop_other:
  assumes "conn_ok ops req s" "distinct_ids ops req s" "d \<noteq> c" "phase s c \<noteq> Start"
  shows "chan (guard_drop (request_id ops req c) s) d = chan s d"
  using pending_own [OF assms(1,2,4)] assms(3) by (auto simp: guard_drop_def split: option.splits)

lemma insert_free:
  assumes "conn_ok ops req s" "distinct_ids ops req s" "phase s c = Admitted"
  shows "chan (insert_request (request_id ops req c) c s) = (chan s)(c := Open)"
  using pending_own [OF assms(1,2), of c] assms(3)
  by (auto simp: insert_request_def Let_def split: option.splits)

lemma started_mono:
  assumes "perform ops req has_timeout e s = Some s'" "phase s c \<noteq> Start"
  shows "phase s' c \<noteq> Start"
  using assms
  by (cases e) (auto simp: goto_def insert_request_def handle_incoming_frame_def drain_pending_requests_def Let_def
      split: if_splits chan.splits phase.splits option.splits)

lemma undisturbed_step:
  assumes "conn_ok ops req s" "distinct_ids ops req s" "undisturbed s"
    and "perform ops req has_timeout e s = Some s'"
  shows "undisturbed s'"
proof (cases e)
  case (Insert c)
  then show ?thesis using assms(3,4) insert_free [OF assms(1,2)]
    by (auto simp: undisturbed_def goto_def split: if_splits) (auto simp: insert_request_def Let_def)
next
  case (Receive f)
  then show ?thesis using assms(3,4)
    by (auto simp: undisturbed_def handle_incoming_frame_def Let_def split: if_splits option.splits)
next
  case (TaskReturn t)
  then have "task s' u = Drained" if "task s u = Drained" for u
    using assms(4) that by (auto split: if_splits)
  then show ?thesis using TaskReturn assms(3,4) by (fastforce simp: undisturbed_def split: if_splits)
next
  case (MarkClosed t)
  then have "task s' u = Drained" if "task s u = Drained" for u
    using assms(4) that by (auto split: if_splits)
  then show ?thesis using MarkClosed assms(3,4) by (fastforce simp: undisturbed_def split: if_splits)
qed (use assms(3,4) guard_drop_other [OF assms(1,2)] in
    \<open>auto simp: undisturbed_def goto_def drain_pending_requests_def split: if_splits chan.splits phase.splits\<close>)

lemma reachable_undisturbed:
  assumes "reachable ops req has_timeout s" "distinct_ids ops req s"
  shows "undisturbed s"
  using assms
proof (induction rule: reachable.induct)
  case start
  then show ?case by (simp add: undisturbed_def new_internal_def)
next
  case (event s e s')
  then have "distinct_ids ops req s"
    using started_mono [OF event(2)] unfolding distinct_ids_def by (auto intro: inj_on_subset)
  then show ?case using undisturbed_step reachable_ok event by blast
qed

section \<open>Properties\<close>

text \<open>
  C15. A caller gets only the response to its own id, and the map never leaks. In every interleaving of
  callers, timeouts, cancellations, responses and the two tasks, a response a caller returns carries
  the id the caller sent, and the map holds exactly the callers that are registered and not yet
  resolved, each under its own id: whoever returned, timed out or was cancelled is gone from it.
\<close>

theorem pending_requests_exact:
  assumes "reachable ops req has_timeout s"
  shows "(\<forall>c f. phase s c = Finished (Inr f) \<longrightarrow> hdr_id ops (frame_header f) = request_id ops req c) \<and>
    (\<forall>i c. map_of (pending s) i = Some c \<longleftrightarrow>
       request_id ops req c = i \<and> phase s c \<in> {Registered, Waiting} \<and> chan s c = Open)"
  using reachable_ok [OF assms] conn_okD(2,4) by blast

text \<open>Two callers with ids 1 and 2, and responses that echo an id.\<close>

definition sample_req :: "nat \<Rightarrow> MessageHeader ZcMessageFrame" where
  "sample_req c = \<lparr>frame_header = mh_default\<lparr>mh_id := word_of_nat (Suc c)\<rparr>, frame_body = []\<rparr>"

definition sample_reply :: "u32 \<Rightarrow> MessageHeader Frame" where
  "sample_reply i = \<lparr>frame_header = mh_default\<lparr>mh_id := i\<rparr>, frame_body = [7]\<rparr>"

lemma sample_ids [simp]:
  "request_id (bss_ops h) sample_req c = word_of_nat (Suc c)"
  "hdr_id (bss_ops h) (frame_header (sample_reply i)) = i"
  by (simp_all add: request_id_def sample_req_def sample_reply_def bss_ops_def)

definition sample_run :: "MessageHeader event list" where
  "sample_run = [Begin 0, Insert 0, Begin 1, Enqueue 0, Insert 1, Enqueue 1, Receive (sample_reply 2)]"

lemma sample_run_result:
  "run_events (bss_ops h) sample_req has_timeout sample_run new_internal =
    Some \<lparr>pending = [(1, 0)], is_closed = False, task = (\<lambda>_. Active), outgoing = [sample_req 0, sample_req 1],
      phase = (\<lambda>_. Start)(0 := Waiting, 1 := Waiting), chan = (\<lambda>_. Open)(1 := Sent (sample_reply 2))\<rparr>"
  by (simp add: sample_run_def new_internal_def goto_def insert_request_def handle_incoming_frame_def fun_eq_iff)

definition sample_state :: "MessageHeader conn" where
  "sample_state = \<lparr>pending = [(1, 0)], is_closed = False, task = (\<lambda>_. Active), outgoing = [sample_req 0, sample_req 1],
     phase = (\<lambda>_. Start)(0 := Waiting, 1 := Waiting), chan = (\<lambda>_. Open)(1 := Sent (sample_reply 2))\<rparr>"

lemma sample_state_reachable: "reachable (bss_ops h) sample_req has_timeout sample_state"
  using run_reachable [OF reachable.start sample_run_result] by (simp add: sample_state_def)

lemma sample_state_distinct: "distinct_ids (bss_ops h) sample_req sample_state"
  by (auto simp: distinct_ids_def inj_on_def sample_state_def split: if_splits)

theorem pending_requests_exact_witness:
  "reachable (bss_ops (\<lambda>_. 7)) sample_req (\<lambda>_. True) sample_state \<and>
   map_of (pending sample_state) 1 = Some 0 \<and> map_of (pending sample_state) 2 \<noteq> Some 1 \<and>
   (\<forall>i c. map_of (pending sample_state) i = Some c \<longleftrightarrow> request_id (bss_ops (\<lambda>_. 7)) sample_req c = i \<and>
      phase sample_state c \<in> {Registered, Waiting} \<and> chan sample_state c = Open)"
  using pending_requests_exact [OF sample_state_reachable] sample_state_reachable
  by (simp add: sample_state_def del: map_of_eq_Some_iff)

text \<open>
  C9. Callers with distinct ids do not disturb each other. While no task has drained the map, a caller
  that waits either has its response in its channel already, or is still registered so that the
  response with its id, when the receive task reads it, makes it return exactly that response. No
  timeout, cancellation, late response or registration of another caller can drop its channel.
\<close>

theorem request_isolation:
  assumes "reachable ops req has_timeout s" "distinct_ids ops req s"
    and "\<forall>t. task s t \<noteq> Drained" "phase s c = Waiting"
  shows "(\<exists>f. chan s c = Sent f \<and> hdr_id ops (frame_header f) = request_id ops req c) \<or>
    chan s c = Open \<and>
      (\<forall>f. task s ReceiveTask = Active \<and> hdr_id ops (frame_header f) = request_id ops req c \<longrightarrow>
         (\<exists>s'. run_events ops req has_timeout [Receive f, Wake c] s = Some s' \<and> phase s' c = Finished (Inr f)))"
proof (cases "chan s c")
  case Open
  then have "map_of (pending s) (request_id ops req c) = Some c"
    using conn_okD(2) [OF reachable_ok [OF assms(1)]] assms(4) by blast
  then show ?thesis using Open assms(4) by (auto simp: handle_incoming_frame_def goto_def)
next
  case (Sent f)
  then show ?thesis using conn_okD(3) [OF reachable_ok [OF assms(1)]] by blast
next
  case Dropped
  then show ?thesis using reachable_undisturbed [OF assms(1,2)] assms(3,4) by (simp add: undisturbed_def)
qed

theorem request_isolation_witness:
  "phase sample_state 0 = Waiting \<and>
   (\<exists>s'. run_events (bss_ops (\<lambda>_. 7)) sample_req (\<lambda>_. True) [Receive (sample_reply 1), Wake 0] sample_state = Some s' \<and>
     phase s' 0 = Finished (Inr (sample_reply 1)))"
proof -
  have r: "reachable (bss_ops (\<lambda>_. 7)) sample_req (\<lambda>_. True) sample_state" by (rule sample_state_reachable)
  have s: "\<forall>t. task sample_state t \<noteq> Drained" "phase sample_state 0 = Waiting" "chan sample_state 0 = Open"
    "task sample_state ReceiveTask = Active" by (simp_all add: sample_state_def)
  have "hdr_id (bss_ops (\<lambda>_. 7)) (frame_header (sample_reply 1)) = request_id (bss_ops (\<lambda>_. 7)) sample_req 0" by simp
  then show ?thesis
    using request_isolation [OF r sample_state_distinct s(1,2)] s(2,4) unfolding s(3) by blast
qed

text \<open>
  C35. No caller is left behind by the send task. Once the send task has drained the map, every caller
  that still waits can return, even one that gave no timeout: those registered before the drain find
  their channel closed, those registered after it are refused by the queue.
\<close>

theorem send_drain_releases_callers:
  assumes "reachable ops req has_timeout s" "task s SendTask = Drained" "phase s c = Waiting"
  shows "\<exists>s' r. perform ops req has_timeout (Wake c) s = Some s' \<and> phase s' c = Finished r"
  using conn_okD(6) [OF reachable_ok [OF assms(1)] assms(2,3)] assms(3)
  by (auto simp: goto_def split: chan.splits)

definition drained_state :: "MessageHeader conn" where
  "drained_state = \<lparr>pending = [], is_closed = True, task = (\<lambda>_. Active)(SendTask := Drained),
     outgoing = [sample_req 0], phase = (\<lambda>_. Start)(0 := Waiting), chan = (\<lambda>_. Open)(0 := Dropped)\<rparr>"

lemma drained_state_reachable: "reachable (bss_ops h) sample_req has_timeout drained_state"
proof -
  have "run_events (bss_ops h) sample_req has_timeout
      [Begin 0, Insert 0, Enqueue 0, TaskReturn SendTask, MarkClosed SendTask, Drain SendTask] new_internal = Some drained_state"
    by (simp add: new_internal_def goto_def insert_request_def drain_pending_requests_def drained_state_def fun_eq_iff)
  then show ?thesis by (rule run_reachable [OF reachable.start])
qed

theorem send_drain_releases_callers_witness:
  "\<exists>s' r. perform (bss_ops (\<lambda>_. 7)) sample_req (\<lambda>_. False) (Wake 0) drained_state = Some s' \<and> phase s' 0 = Finished r"
  by (rule send_drain_releases_callers [OF drained_state_reachable]) (simp_all add: drained_state_def)

section \<open>A caller that registers late\<close>

text \<open>
  A caller that passed the check of \<open>is_closed\<close> just before the receive task stored it and drained the
  map registers after the drain: nobody is left to resolve its channel.
\<close>

definition late_state :: "MessageHeader conn" where
  "late_state = \<lparr>pending = [(1, 0)], is_closed = True, task = (\<lambda>_. Active)(ReceiveTask := Drained),
     outgoing = [sample_req 0], phase = (\<lambda>_. Start)(0 := Waiting), chan = (\<lambda>_. Open)\<rparr>"

lemma late_state_reachable: "reachable (bss_ops h) sample_req has_timeout late_state"
proof -
  have "run_events (bss_ops h) sample_req has_timeout
      [Begin 0, TaskReturn ReceiveTask, MarkClosed ReceiveTask, Drain ReceiveTask, Insert 0, Enqueue 0] new_internal = Some late_state"
    by (simp add: new_internal_def goto_def insert_request_def drain_pending_requests_def late_state_def fun_eq_iff)
  then show ?thesis by (rule run_reachable [OF reachable.start])
qed

definition stuck :: "nat \<Rightarrow> 'h conn \<Rightarrow> bool" where
  "stuck c s \<longleftrightarrow> phase s c = Waiting \<and> chan s c = Open \<and> task s ReceiveTask = Drained"

lemma stuck_step:
  assumes "conn_ok ops req s" "distinct_ids ops req s" "stuck c s" "\<not> has_timeout c"
    and "perform ops req has_timeout e s = Some s'" "e \<noteq> Cancel c" "e \<noteq> Drain SendTask"
  shows "stuck c s'"
proof (cases e)
  case (Insert d)
  then show ?thesis using assms(3,5) insert_free [OF assms(1,2)]
    by (auto simp: stuck_def goto_def split: if_splits) (auto simp: insert_request_def Let_def)
next
  case (Enqueue d)
  then have "c \<noteq> d" using assms(3-5) by (auto simp: stuck_def)
  then show ?thesis using Enqueue assms(3,5) guard_drop_other [OF assms(1,2), of c d]
    by (auto simp: stuck_def goto_def split: if_splits)
next
  case (Timeout d)
  then have "c \<noteq> d" using assms(3-5) by (auto simp: stuck_def)
  then show ?thesis using Timeout assms(3-5) guard_drop_other [OF assms(1,2), of c d]
    by (auto simp: stuck_def goto_def split: if_splits)
next
  case (Drain t)
  then show ?thesis using assms(3,5,7) by (cases t) (auto simp: stuck_def)
qed (use assms(3-6) guard_drop_other [OF assms(1,2)] in
    \<open>auto simp: stuck_def goto_def split: if_splits chan.splits phase.splits\<close>)

lemma stuck_run:
  assumes "reachable ops req has_timeout s" "stuck c s" "\<not> has_timeout c"
    and "run_events ops req has_timeout es s = Some s'" "Cancel c \<notin> set es" "Drain SendTask \<notin> set es"
    and "distinct_ids ops req s'"
  shows "stuck c s'"
  using assms
proof (induction es arbitrary: s)
  case (Cons e es)
  then obtain t where t: "perform ops req has_timeout e s = Some t" "run_events ops req has_timeout es t = Some s'"
    by (auto split: option.splits)
  have mono: "run_events ops req has_timeout es u = Some s' \<Longrightarrow> {d. phase u d \<noteq> Start} \<subseteq> {d. phase s' d \<noteq> Start}" for es u
    by (induction es arbitrary: u) (auto split: option.splits dest: started_mono)
  have d: "distinct_ids ops req s"
    using Cons.prems(7) mono [OF Cons.prems(4)] unfolding distinct_ids_def by (rule inj_on_subset)
  have "stuck c t" using stuck_step [OF reachable_ok [OF Cons.prems(1)] d Cons.prems(2,3) t(1)] Cons.prems(5,6) by auto
  then show ?case using Cons.IH [OF reachable.event [OF Cons.prems(1) t(1)]] Cons.prems t(2) by auto
qed simp

text \<open>
  C36. A request registered after the receive task drained the map is never resolved. From a reachable
  state of the connection, a caller without a timeout waits through every further run in which the
  send task does not come to its own drain and the caller is not cancelled.
\<close>

theorem late_registration_hangs:
  assumes "run_events (bss_ops xxh3_64) sample_req (\<lambda>_. False) es late_state = Some s'"
    and "Cancel 0 \<notin> set es" "Drain SendTask \<notin> set es" "distinct_ids (bss_ops xxh3_64) sample_req s'"
  shows "reachable (bss_ops xxh3_64) sample_req (\<lambda>_. False) late_state \<and> is_closed late_state \<and>
    phase s' 0 = Waiting \<and> perform (bss_ops xxh3_64) sample_req (\<lambda>_. False) (Wake 0) s' = None"
proof -
  have "stuck 0 late_state" by (simp add: stuck_def late_state_def)
  then have "stuck 0 s'" by (rule stuck_run [OF late_state_reachable _ _ assms]) simp
  moreover have "is_closed late_state" by (simp add: late_state_def)
  ultimately show ?thesis using late_state_reachable by (simp add: stuck_def)
qed

theorem late_registration_hangs_witness:
  "\<exists>s'. run_events (bss_ops (\<lambda>_. 7)) sample_req (\<lambda>_. False) [Begin 1] late_state = Some s' \<and>
     phase s' 1 = Finished (Inl (InternalRequestError ''Connection is closed'')) \<and> phase s' 0 = Waiting"
proof -
  let ?s = "goto 1 (Finished (Inl (InternalRequestError ''Connection is closed''))) late_state"
  have run: "run_events (bss_ops (\<lambda>_. 7)) sample_req (\<lambda>_. False) [Begin 1] late_state = Some ?s"
    by (simp add: late_state_def)
  have "distinct_ids (bss_ops (\<lambda>_. 7)) sample_req ?s"
    by (auto simp: distinct_ids_def inj_on_def late_state_def goto_def split: if_splits)
  then have "phase ?s 0 = Waiting" using late_registration_hangs [OF run] by simp
  then show ?thesis using run by (intro exI [of _ ?s] conjI) (simp_all add: goto_def)
qed

end
