(* ===== verification/Bss_Client.thy ===== *)
theory Bss_Client
  imports Vg_Replicated Rpc_Pending
begin

text \<open>
  The BSS client of \<open>rpc_clients/bss\<close>: the pool of connections with its request ids (\<open>client.rs\<close>),
  the raw-header round trip behind the blob operations, the protobuf call, and the paged listings
  (\<open>rpc.rs\<close>, and \<open>call_with_header\<close> of \<open>client_common/src/lib.rs\<close>).

  What a connection answers to a frame is the parameter \<open>transport\<close>. The protobuf crate is the pair of
  parameters \<open>encode\<close> and \<open>decode\<close>.
\<close>

section \<open>The pool of connections\<close>

definition CONNS_PER_CORE :: nat where "CONNS_PER_CORE = 2"

text \<open>\<open>pool_ids\<close> are the counters of the connections, \<open>next_conn\<close> the round-robin counter.\<close>

record bss_client =
  pool_ids :: "u32 list"
  next_conn :: u64

definition new_from_address :: bss_client where
  "new_from_address = \<lparr>pool_ids = replicate CONNS_PER_CORE 1, next_conn = 0\<rparr>"

definition get_connection :: "bss_client \<Rightarrow> nat \<times> bss_client" where
  "get_connection p = (unat (next_conn p) mod length (pool_ids p), p\<lparr>next_conn := next_conn p + 1\<rparr>)"

definition pool_gen_request_id :: "bss_client \<Rightarrow> u32 \<times> bss_client" where
  "pool_gen_request_id p =
     (let (idx, p1) = get_connection p;
          (i, next_id) = gen_request_id (pool_ids p1 ! idx)
      in (i, p1\<lparr>pool_ids := (pool_ids p1)[idx := next_id]\<rparr>))"

section \<open>Responses\<close>

record DataBlobMetadata =
  md_version :: u64
  md_cohort_tag :: u64

text \<open>An \<open>i32\<close> in decimal.\<close>

definition signed_decimal :: "u32 \<Rightarrow> string" where
  "signed_decimal w = (if sint w < 0 then ''-'' @ decimal (nat (- sint w)) else decimal (nat (sint w)))"

definition check_response_errno :: "MessageHeader \<Rightarrow> RpcError + unit" where
  "check_response_errno header =
     (let code = mh_errno header
      in if code = 0 then Inr ()
         else if code = 1 then Inl (InternalResponseError ''BSS returned InternalError'')
         else if code = 2 then Inl NotFound
         else if code = 3 then Inl ChecksumMismatch
         else if code = 4 then Inl Retry
         else if code = 5 then Inl (InternalResponseError ''BSS returned ShutDown'')
         else if code = 6 then Inl (InternalResponseError ''BSS returned TokenExpired'')
         else if code = 7 then Inl (InternalResponseError ''BSS returned DeviceMismatch'')
         else if code = 8 then Inl VersionSkipped
         else if code = 10 then Inl NoSpace
         else if code = 11 then Inl Mismatch
         else Inl (InternalResponseError (''Unknown BSS error code: '' @ signed_decimal code)))"

section \<open>The raw round trip\<close>

type_synonym transport = "nat \<Rightarrow> MessageHeader ZcMessageFrame \<Rightarrow> RpcError + MessageHeader Frame"

definition checked :: "RpcError + MessageHeader Frame \<Rightarrow> RpcError + MessageHeader Frame" where
  "checked r =
     (case r of
        Inl e \<Rightarrow> Inl e
      | Inr resp \<Rightarrow> (case check_response_errno (frame_header resp) of Inl e \<Rightarrow> Inl e | Inr _ \<Rightarrow> Inr resp))"

definition raw_frame ::
    "u32 \<Rightarrow> MessageHeader \<Rightarrow> Command \<Rightarrow> bytes list \<Rightarrow> u64 \<Rightarrow> u32 \<Rightarrow> MessageHeader ZcMessageFrame" where
  "raw_frame i header command body trace_id retry_count =
     (let header1 = mh_set_request i (command_tag command) (ucast retry_count) trace_id header;
          body_len = sum_list (map length body)
      in \<lparr>frame_header = header1\<lparr>mh_size := word_of_nat (160 + body_len)\<rparr>, frame_body = body\<rparr>)"

definition send_raw ::
    "transport \<Rightarrow> MessageHeader \<Rightarrow> Command \<Rightarrow> bytes list \<Rightarrow> u64 \<Rightarrow> u32 \<Rightarrow> bss_client \<Rightarrow>
      (RpcError + MessageHeader Frame) \<times> bss_client" where
  "send_raw transport header command body trace_id retry_count p =
     (let (request_id, p1) = pool_gen_request_id p;
          frame = raw_frame request_id header command body trace_id retry_count;
          (idx, p2) = get_connection p1
      in (checked (transport idx frame), p2))"

definition discard :: "(RpcError + 'a) \<times> bss_client \<Rightarrow> (RpcError + unit) \<times> bss_client" where
  "discard r = (map_sum id (\<lambda>_. ()) (fst r), snd r)"

section \<open>Data blobs\<close>

definition wire_uuid :: "Uuid \<Rightarrow> u128" where
  "wire_uuid u = from_le_bytes (uuid_bytes u)"

definition data_header :: "DataBlobGuid \<Rightarrow> u32 \<Rightarrow> u64 \<Rightarrow> MessageHeader" where
  "data_header guid block_number version =
     mh_default\<lparr>mh_blob_id := wire_uuid (blob_id guid), mh_volume_id := volume_id guid,
       mh_block_number := block_number, mh_version := version\<rparr>"

definition put_header :: "DataBlobGuid \<Rightarrow> u32 \<Rightarrow> nat \<Rightarrow> u64 \<Rightarrow> u64 \<Rightarrow> MessageHeader" where
  "put_header guid block_number len body_checksum version =
     (data_header guid block_number version)\<lparr>mh_body_len := word_of_nat len, mh_checksum_body := body_checksum\<rparr>"

definition put_data_blob_inner ::
    "transport \<Rightarrow> DataBlobGuid \<Rightarrow> u32 \<Rightarrow> bytes \<Rightarrow> u64 \<Rightarrow> u64 \<Rightarrow> u64 \<Rightarrow> u32 \<Rightarrow> u64 \<Rightarrow> bss_client \<Rightarrow>
      (RpcError + unit) \<times> bss_client" where
  "put_data_blob_inner transport guid block_number body body_checksum version trace_id retry_count cohort_tag p =
     (let header = set_data_cohort_tag cohort_tag (put_header guid block_number (length body) body_checksum version)
      in discard (send_raw transport header PutDataBlob [body] trace_id retry_count p))"

definition put_data_blob ::
    "transport \<Rightarrow> DataBlobGuid \<Rightarrow> u32 \<Rightarrow> bytes \<Rightarrow> u64 \<Rightarrow> u64 \<Rightarrow> u64 \<Rightarrow> u32 \<Rightarrow> bss_client \<Rightarrow>
      (RpcError + unit) \<times> bss_client" where
  "put_data_blob transport guid block_number body body_checksum version trace_id retry_count p =
     put_data_blob_inner transport guid block_number body body_checksum version trace_id retry_count 0 p"

definition put_data_blob_with_cohort ::
    "transport \<Rightarrow> DataBlobGuid \<Rightarrow> u32 \<Rightarrow> bytes \<Rightarrow> u64 \<Rightarrow> u64 \<Rightarrow> u64 \<Rightarrow> u64 \<Rightarrow> u32 \<Rightarrow> bss_client \<Rightarrow>
      (RpcError + unit) \<times> bss_client" where
  "put_data_blob_with_cohort transport guid block_number body body_checksum version cohort_tag trace_id retry_count p =
     put_data_blob_inner transport guid block_number body body_checksum version trace_id retry_count cohort_tag p"

definition put_data_blob_vectored ::
    "transport \<Rightarrow> DataBlobGuid \<Rightarrow> u32 \<Rightarrow> bytes list \<Rightarrow> u64 \<Rightarrow> u64 \<Rightarrow> u64 \<Rightarrow> u32 \<Rightarrow> bss_client \<Rightarrow>
      (RpcError + unit) \<times> bss_client" where
  "put_data_blob_vectored transport guid block_number chunks body_checksum version trace_id retry_count p =
     (let header = put_header guid block_number (sum_list (map length chunks)) body_checksum version
      in discard (send_raw transport header PutDataBlob chunks trace_id retry_count p))"

text \<open>The body is returned with the metadata; the caller's buffer is set to it also when it is too short.\<close>

definition get_data_blob ::
    "transport \<Rightarrow> DataBlobGuid \<Rightarrow> u32 \<Rightarrow> u64 \<Rightarrow> nat \<Rightarrow> u64 \<Rightarrow> u32 \<Rightarrow> bss_client \<Rightarrow>
      (RpcError + DataBlobMetadata \<times> bytes) \<times> bss_client" where
  "get_data_blob transport guid block_number version content_len trace_id retry_count p =
     (let header = (data_header guid block_number version)\<lparr>mh_body_len := word_of_nat content_len\<rparr>;
          (r, p') = send_raw transport header GetDataBlob [] trace_id retry_count p
      in (case r of
            Inl e \<Rightarrow> Inl e
          | Inr resp \<Rightarrow>
              (let body = frame_body resp
               in if content_len \<noteq> 0 \<and> length body < content_len
                  then Inl (InternalResponseError (''BSS returned body length '' @ decimal (length body) @
                         '' but client expected at least '' @ decimal content_len))
                  else Inr (\<lparr>md_version = mh_version (frame_header resp),
                              md_cohort_tag = data_cohort_tag (frame_header resp)\<rparr>, body)), p'))"

definition delete_data_blob ::
    "transport \<Rightarrow> DataBlobGuid \<Rightarrow> u32 \<Rightarrow> u64 \<Rightarrow> u64 \<Rightarrow> u32 \<Rightarrow> bss_client \<Rightarrow> (RpcError + unit) \<times> bss_client" where
  "delete_data_blob transport guid block_number version trace_id retry_count p =
     discard (send_raw transport (data_header guid block_number version) DeleteDataBlob [] trace_id retry_count p)"

section \<open>Metadata blobs\<close>

definition get_metadata_blob ::
    "transport \<Rightarrow> u128 \<Rightarrow> u16 \<Rightarrow> nat \<Rightarrow> u64 \<Rightarrow> u32 \<Rightarrow> bss_client \<Rightarrow> (RpcError + bytes) \<times> bss_client" where
  "get_metadata_blob transport bid vid content_len trace_id retry_count p =
     (let header = mh_default\<lparr>mh_blob_id := bid, mh_volume_id := vid, mh_skip_fence_token := 1,
            mh_body_len := word_of_nat content_len\<rparr>;
          (r, p') = send_raw transport header GetMetadataBlob [] trace_id retry_count p
      in (case r of
            Inl e \<Rightarrow> Inl e
          | Inr resp \<Rightarrow>
              (if content_len \<noteq> length (frame_body resp)
               then Inl (InternalResponseError (''BSS returned body length '' @ decimal (length (frame_body resp)) @
                      '' but client expected '' @ decimal content_len))
               else Inr (frame_body resp)), p'))"

definition put_metadata_blob ::
    "transport \<Rightarrow> u128 \<Rightarrow> u16 \<Rightarrow> bytes \<Rightarrow> u64 \<Rightarrow> u64 \<Rightarrow> bool \<Rightarrow> u64 \<Rightarrow> u32 \<Rightarrow> bss_client \<Rightarrow>
      (RpcError + unit) \<times> bss_client" where
  "put_metadata_blob transport bid vid body body_checksum version is_new trace_id retry_count p =
     (let header = mh_default\<lparr>mh_blob_id := bid, mh_volume_id := vid, mh_body_len := word_of_nat (length body),
            mh_version := version, mh_is_new := if is_new then 1 else 0, mh_skip_fence_token := 1,
            mh_checksum_body := body_checksum\<rparr>
      in discard (send_raw transport header PutMetadataBlob [body] trace_id retry_count p))"

definition delete_metadata_blob ::
    "transport \<Rightarrow> u128 \<Rightarrow> u16 \<Rightarrow> u64 \<Rightarrow> u64 \<Rightarrow> u32 \<Rightarrow> bss_client \<Rightarrow> (RpcError + unit) \<times> bss_client" where
  "delete_metadata_blob transport bid vid version trace_id retry_count p =
     (let header = mh_default\<lparr>mh_blob_id := bid, mh_volume_id := vid, mh_is_deleted := 1, mh_version := version,
            mh_skip_fence_token := 1\<rparr>
      in discard (send_raw transport header DeleteMetadataBlob [] trace_id retry_count p))"

section \<open>Protobuf calls\<close>

definition encode_protobuf :: "('req \<Rightarrow> string + bytes) \<Rightarrow> 'req \<Rightarrow> RpcError + bytes" where
  "encode_protobuf encode msg = (case encode msg of Inl e \<Rightarrow> Inl (EncodeError e) | Inr bs \<Rightarrow> Inr bs)"

definition call_with_header ::
    "(bytes \<Rightarrow> u64) \<Rightarrow> ('req \<Rightarrow> string + bytes) \<Rightarrow> (bytes \<Rightarrow> string + 'resp) \<Rightarrow> transport \<Rightarrow>
      MessageHeader \<Rightarrow> Command \<Rightarrow> 'req \<Rightarrow> u64 \<Rightarrow> u32 \<Rightarrow> bss_client \<Rightarrow> (RpcError + 'resp) \<times> bss_client" where
  "call_with_header xxh3_64 encode decode transport header command body trace_id retry_count p =
     (let (request_id, p1) = pool_gen_request_id p;
          header1 = mh_set_request request_id (command_tag command) (ucast retry_count) trace_id header
      in case encode_protobuf encode body of
           Inl e \<Rightarrow> (Inl e, p1)
         | Inr body_bytes \<Rightarrow>
             (let frame = \<lparr>frame_header = mh_set_body xxh3_64 body_bytes header1, frame_body = [body_bytes]\<rparr>;
                  (idx, p2) = get_connection p1
              in (case checked (transport idx frame) of
                    Inl e \<Rightarrow> Inl e
                  | Inr resp \<Rightarrow> (case decode (frame_body resp) of Inl e \<Rightarrow> Inl (DecodeError e) | Inr r \<Rightarrow> Inr r), p2)))"

section \<open>Listing the blobs of a volume\<close>

record BlobEntry =
  bl_key :: string
  bl_total_bytes :: u32
  bl_checksum_body :: u64
  bl_version :: u64
  bl_is_deleted :: bool
  bl_cohort_tag :: u64

record Blobs =
  page_blobs :: "BlobEntry list"
  page_has_more :: bool

record ListBlobsRequest =
  lq_max_keys :: u32
  lq_prefix :: string
  lq_start_after :: string
  lq_include_deleted :: bool

text \<open>A response is the \<open>oneof result\<close>: \<open>None\<close> when the field is missing.\<close>

type_synonym ListBlobsResponse = "(Blobs + string) option"

definition parse_list_blobs_response :: "ListBlobsResponse \<Rightarrow> RpcError + Blobs" where
  "parse_list_blobs_response resp =
     (case resp of
        Some (Inl blobs) \<Rightarrow> Inr blobs
      | Some (Inr err) \<Rightarrow> Inl (InternalResponseError err)
      | None \<Rightarrow> Inl (InternalResponseError ''BSS ListBlobs response missing result''))"

definition list_data_blobs ::
    "(bytes \<Rightarrow> u64) \<Rightarrow> (ListBlobsRequest \<Rightarrow> string + bytes) \<Rightarrow> (bytes \<Rightarrow> string + ListBlobsResponse) \<Rightarrow> transport \<Rightarrow>
      u16 \<Rightarrow> string \<Rightarrow> string \<Rightarrow> u32 \<Rightarrow> u64 \<Rightarrow> u32 \<Rightarrow> bool \<Rightarrow> bss_client \<Rightarrow> (RpcError + Blobs) \<times> bss_client" where
  "list_data_blobs xxh3_64 encode decode transport vid prefix start_after max_keys trace_id retry_count include_deleted p =
     (let body = \<lparr>lq_max_keys = max_keys, lq_prefix = prefix, lq_start_after = start_after,
            lq_include_deleted = include_deleted\<rparr>;
          header = mh_default\<lparr>mh_volume_id := vid\<rparr>;
          (r, p') = call_with_header xxh3_64 encode decode transport header ListBlobs body trace_id retry_count p
      in (case r of Inl e \<Rightarrow> Inl e | Inr resp \<Rightarrow> parse_list_blobs_response resp, p'))"

record BlobListStream =
  ls_volume_id :: u16
  ls_prefix :: string
  ls_marker :: string
  ls_max_keys :: u32
  ls_include_deleted :: bool
  ls_done :: bool

definition stream_new :: "u16 \<Rightarrow> string \<Rightarrow> string \<Rightarrow> u32 \<Rightarrow> bool \<Rightarrow> BlobListStream" where
  "stream_new vid prefix start_after max_keys include_deleted =
     \<lparr>ls_volume_id = vid, ls_prefix = prefix, ls_marker = start_after, ls_max_keys = max_keys,
      ls_include_deleted = include_deleted, ls_done = False\<rparr>"

text \<open>\<open>list\<close> is the call of \<open>list_data_blobs\<close> with the fields of the stream.\<close>

definition next_batch ::
    "(u16 \<Rightarrow> string \<Rightarrow> string \<Rightarrow> u32 \<Rightarrow> bool \<Rightarrow> bss_client \<Rightarrow> (RpcError + Blobs) \<times> bss_client) \<Rightarrow>
      BlobListStream \<Rightarrow> bss_client \<Rightarrow> (RpcError + Blobs option) \<times> BlobListStream \<times> bss_client" where
  "next_batch list s p =
     (if ls_done s then (Inr None, s, p)
      else (let (r, p') = list (ls_volume_id s) (ls_prefix s) (ls_marker s) (ls_max_keys s) (ls_include_deleted s) p
            in case r of
                 Inl e \<Rightarrow> (Inl e, s, p')
               | Inr page \<Rightarrow>
                   (let s1 = (if page_blobs page = [] then s else s\<lparr>ls_marker := bl_key (last (page_blobs page))\<rparr>)
                    in (Inr (Some page), s1\<lparr>ls_done := \<not> page_has_more page\<rparr>, p'))))"

section \<open>Listing the blocks of a blob\<close>

record Blocks =
  blk_blocks :: "BlobBlockEntry list"
  blk_has_more :: bool
  blk_next_marker :: string

record ListBlobBlocksRequest =
  bq_first_block :: u32
  bq_block_count :: u32
  bq_marker :: string

type_synonym ListBlobBlocksResponse = "(Blocks + string) option"

definition parse_blocks :: "ListBlobBlocksResponse \<Rightarrow> RpcError + Blocks" where
  "parse_blocks resp =
     (case resp of
        Some (Inl blocks) \<Rightarrow> Inr blocks
      | Some (Inr err) \<Rightarrow> Inl (InternalResponseError err)
      | None \<Rightarrow> Inl (InternalResponseError ''BSS ListBlobBlocks response missing result''))"

definition blocks_page ::
    "(bytes \<Rightarrow> u64) \<Rightarrow> (ListBlobBlocksRequest \<Rightarrow> string + bytes) \<Rightarrow> (bytes \<Rightarrow> string + ListBlobBlocksResponse) \<Rightarrow>
      transport \<Rightarrow> DataBlobGuid \<Rightarrow> u32 \<Rightarrow> u32 \<Rightarrow> u64 \<Rightarrow> u32 \<Rightarrow> string \<Rightarrow> bss_client \<Rightarrow> (RpcError + Blocks) \<times> bss_client" where
  "blocks_page xxh3_64 encode decode transport guid first_block block_count trace_id retry_count marker p =
     (let header = mh_default\<lparr>mh_blob_id := wire_uuid (blob_id guid), mh_volume_id := volume_id guid\<rparr>;
          body = \<lparr>bq_first_block = first_block, bq_block_count = block_count, bq_marker = marker\<rparr>;
          (r, p') = call_with_header xxh3_64 encode decode transport header ListBlobBlocks body trace_id retry_count p
      in (case r of Inl e \<Rightarrow> Inl e | Inr resp \<Rightarrow> parse_blocks resp, p'))"

text \<open>
  The loop over the pages. The server chooses the markers, so the loop may run forever: that is the
  value \<open>None\<close>.
\<close>

partial_function (option) list_pages ::
    "(string \<Rightarrow> bss_client \<Rightarrow> (RpcError + Blocks) \<times> bss_client) \<Rightarrow> string \<Rightarrow> BlobBlockEntry list \<Rightarrow> bss_client \<Rightarrow>
      ((RpcError + BlobBlockEntry list) \<times> bss_client) option" where
  "list_pages page marker entries p =
     (case page marker p of
        (Inl e, p') \<Rightarrow> Some (Inl e, p')
      | (Inr blocks, p') \<Rightarrow>
          (let entries' = entries @ blk_blocks blocks
           in if \<not> blk_has_more blocks then Some (Inr entries', p')
              else if blk_next_marker blocks = [] \<or> blk_next_marker blocks = marker
              then Some (Inl (InternalResponseError ''BSS ListBlobBlocks pagination made no progress''), p')
              else list_pages page (blk_next_marker blocks) entries' p'))"

definition rpc_list_blob_blocks ::
    "(bytes \<Rightarrow> u64) \<Rightarrow> (ListBlobBlocksRequest \<Rightarrow> string + bytes) \<Rightarrow> (bytes \<Rightarrow> string + ListBlobBlocksResponse) \<Rightarrow>
      transport \<Rightarrow> DataBlobGuid \<Rightarrow> u32 \<Rightarrow> u32 \<Rightarrow> u64 \<Rightarrow> u32 \<Rightarrow> bss_client \<Rightarrow>
      ((RpcError + BlobBlockEntry list) \<times> bss_client) option" where
  "rpc_list_blob_blocks xxh3_64 encode decode transport guid first_block block_count trace_id retry_count p =
     list_pages (blocks_page xxh3_64 encode decode transport guid first_block block_count trace_id retry_count) [] [] p"

section \<open>What a node reads from a put\<close>

definition request_of_frame :: "MessageHeader Frame \<Rightarrow> put_request" where
  "request_of_frame f =
     (let h = frame_header f
      in \<lparr>pr_guid = \<lparr>blob_id = wire_uuid (mh_blob_id h), volume_id = mh_volume_id h\<rparr>, pr_block = mh_block_number h,
          pr_body = frame_body f, pr_checksum = mh_checksum_body h, pr_version = mh_version h,
          pr_cohort = data_cohort_tag h\<rparr>)"

lemma wire_uuid_inverse [simp]: "wire_uuid (wire_uuid u) = u"
proof -
  have "to_le_bytes 16 (from_le_bytes (rev (to_le_bytes 16 u)) :: u128) = rev (to_le_bytes 16 u)"
    by (rule to_from_le_bytes_full) simp_all
  then show ?thesis by (simp add: wire_uuid_def uuid_bytes_def)
qed

lemma cohort_tag_roundtrip [simp]: "data_cohort_tag (set_data_cohort_tag t h) = t"
proof -
  let ?bs = "to_le_bytes 24 (mh_reserve1 h)"
  have "to_le_bytes 24 (from_le_bytes (take 8 ?bs @ to_le_bytes 8 t @ drop 16 ?bs) :: 192 word) =
      take 8 ?bs @ to_le_bytes 8 t @ drop 16 ?bs"
    by (rule to_from_le_bytes_full) simp_all
  then show ?thesis
    by (simp add: data_cohort_tag_def set_data_cohort_tag_def DATA_COHORT_TAG_OFFSET_def Let_def field_def)
qed

lemma command_roundtrip [simp]: "command_try_from (command_tag c) = Inr c"
  by (cases c) (simp_all add: command_try_from_def)

lemma sum_length_concat: "sum_list (map length xs) = length (concat xs)"
  by (simp add: length_concat)

lemma raw_frame_ok:
  assumes "mh_checksum_body h = xxh3_64 (concat body)" "160 + length (concat body) < 2 ^ 32"
  shows "frame_ok (bss_ops xxh3_64) (raw_frame i h c body t r)"
  using assms unat_of_size [OF assms(2)]
  by (simp add: frame_ok_def raw_frame_def Let_def bss_ops_def get_body_size_def mh_verify_body_def
      mh_set_request_def sum_length_concat)

lemma put_data_blob_inner_eq:
  "put_data_blob_inner transport guid block body chk version trace retry cohort p =
    (let (i, p1) = pool_gen_request_id p; (idx, p2) = get_connection p1
     in (map_sum id (\<lambda>_. ()) (checked (transport idx
           (raw_frame i (set_data_cohort_tag cohort (put_header guid block (length body) chk version))
              PutDataBlob [body] trace retry))), p2))"
  by (simp add: put_data_blob_inner_def send_raw_def discard_def Let_def split: prod.splits)

text \<open>
  C18. A put reaches the node as it was asked for. The frame that a put hands to its connection, sent
  through the send task and read by the receive task at the node, is read as exactly the request that
  the volume group asked the node for: blob, volume, block, version, bytes, checksum and cohort.
\<close>

theorem put_request_arrives:
  assumes "160 + length body < 2 ^ 32" "accepting writes" "160 + length body \<le> length writes"
  shows "\<exists>idx frame g.
    fst (put_data_blob_inner transport guid block body (xxh3_64 body) version trace retry cohort p) =
      map_sum id (\<lambda>_. ()) (checked (transport idx frame)) \<and>
    receive_task xxh3_64 (bss_ops xxh3_64)
      (fst (send_task (bss_ops xxh3_64) [] [[frame], [], []] writes)) UnexpectedEof chunks = ([g], Ended (Inr ())) \<and>
    command_try_from (mh_command (frame_header g)) = Inr PutDataBlob \<and>
    request_of_frame g = \<lparr>pr_guid = guid, pr_block = block, pr_body = body, pr_checksum = xxh3_64 body,
      pr_version = version, pr_cohort = cohort\<rparr>"
proof -
  let ?ops = "bss_ops xxh3_64"
  obtain i p1 where i: "pool_gen_request_id p = (i, p1)" by fastforce
  obtain idx p2 where idx: "get_connection p1 = (idx, p2)" by fastforce
  define h where "h = set_data_cohort_tag cohort (put_header guid block (length body) (xxh3_64 body) version)"
  let ?f = "raw_frame i h PutDataBlob [body] trace retry"
  let ?g = "delivered ?ops ?f"
  have fields: "mh_checksum_body h = xxh3_64 body" "mh_blob_id h = wire_uuid (blob_id guid)" "mh_version h = version"
    "mh_volume_id h = volume_id guid" "mh_block_number h = block" "data_cohort_tag h = cohort"
    by (simp_all add: h_def) (simp_all add: set_data_cohort_tag_def put_header_def data_header_def Let_def)
  have "frame_ok ?ops ?f" using assms(1) fields(1) by (intro raw_frame_ok) simp_all
  moreover have "length (wire ?ops [?f]) = 160 + length body"
    by (simp add: wire_def combined_def checksummed_def raw_frame_def bss_ops_def Let_def)
  ultimately have "receive_task xxh3_64 ?ops (fst (send_task ?ops [] ([[?f]] @ replicate (Suc 1) []) writes)) UnexpectedEof chunks =
      (map (delivered ?ops) (concat [[?f]]), Ended (Inr ()))"
    using assms(2,3) by (intro bss.send_receive_all) simp_all
  then have "receive_task xxh3_64 ?ops (fst (send_task ?ops [] [[?f], [], []] writes)) UnexpectedEof chunks =
      ([?g], Ended (Inr ()))" by simp
  moreover have "request_of_frame ?g = \<lparr>pr_guid = guid, pr_block = block, pr_body = body, pr_checksum = xxh3_64 body,
      pr_version = version, pr_cohort = cohort\<rparr>"
  proof -
    have "data_cohort_tag (frame_header ?g) = cohort"
      unfolding fields(6) [symmetric]
      by (simp add: delivered_def raw_frame_def Let_def bss_ops_def mh_set_checksum_def mh_set_request_def data_cohort_tag_def)
    then show ?thesis
      by (simp add: request_of_frame_def Let_def)
        (simp add: delivered_def raw_frame_def Let_def bss_ops_def mh_set_checksum_def mh_set_request_def fields)
  qed
  moreover have "mh_command (frame_header ?g) = command_tag PutDataBlob"
    by (simp add: delivered_def raw_frame_def Let_def bss_ops_def mh_set_checksum_def mh_set_request_def)
  moreover have "fst (put_data_blob_inner transport guid block body (xxh3_64 body) version trace retry cohort p) =
      map_sum id (\<lambda>_. ()) (checked (transport idx ?f))"
    by (simp add: put_data_blob_inner_eq i idx h_def)
  ultimately show ?thesis by (metis command_roundtrip)
qed

theorem put_request_arrives_witness:
  "\<exists>idx frame g.
    fst (put_data_blob_inner (\<lambda>_ _. Inl NotFound) \<lparr>blob_id = 9, volume_id = 1\<rparr> 4 [1, 2] 7 3 0 0 5 new_from_address) =
      map_sum id (\<lambda>_. ()) (checked ((\<lambda>_ _. Inl NotFound) idx frame)) \<and>
    receive_task (\<lambda>_. 7) (bss_ops (\<lambda>_. 7))
      (fst (send_task (bss_ops (\<lambda>_. 7)) [] [[frame], [], []] (replicate 162 (Inr 1)))) UnexpectedEof [1] = ([g], Ended (Inr ())) \<and>
    command_try_from (mh_command (frame_header g)) = Inr PutDataBlob \<and>
    request_of_frame g = \<lparr>pr_guid = \<lparr>blob_id = 9, volume_id = 1\<rparr>, pr_block = 4, pr_body = [1, 2], pr_checksum = 7,
      pr_version = 3, pr_cohort = 5\<rparr>"
  using put_request_arrives [of "[1, 2]" "replicate 162 (Inr 1)" "\<lambda>_ _. Inl NotFound" "\<lparr>blob_id = 9, volume_id = 1\<rparr>" 4 "\<lambda>_. 7"
      3 0 0 5 new_from_address "[1]"]
  by (simp add: accepting_def)

section \<open>Pages of a listing\<close>

text \<open>
  The pages that start at a marker: a last page, or a page that names another marker followed by the
  pages that start there.
\<close>

inductive page_chain :: "(string \<Rightarrow> RpcError + Blocks) \<Rightarrow> string \<Rightarrow> BlobBlockEntry list \<Rightarrow> bool" for serve where
  last_page: "serve marker = Inr b \<Longrightarrow> \<not> blk_has_more b \<Longrightarrow> page_chain serve marker (blk_blocks b)"
| more_pages: "serve marker = Inr b \<Longrightarrow> blk_has_more b \<Longrightarrow> blk_next_marker b \<noteq> [] \<Longrightarrow> blk_next_marker b \<noteq> marker \<Longrightarrow>
    page_chain serve (blk_next_marker b) es \<Longrightarrow> page_chain serve marker (blk_blocks b @ es)"

lemma chain_list_pages:
  assumes "page_chain serve marker es" "\<And>m p. fst (page m p) = serve m"
  shows "\<exists>p'. list_pages page marker acc p = Some (Inr (acc @ es), p')"
  using assms(1)
proof (induction arbitrary: acc p rule: page_chain.induct)
  case (last_page marker b)
  then obtain p' where "page marker p = (Inr b, p')" using assms(2) by (metis prod.collapse)
  then show ?case using last_page by (subst list_pages.simps) simp
next
  case (more_pages marker b es)
  then obtain p' where "page marker p = (Inr b, p')" using assms(2) by (metis prod.collapse)
  then show ?case using more_pages(2-4) more_pages.IH [of "acc @ blk_blocks b" p']
    by (subst list_pages.simps) simp
qed

lemma list_pages_chain:
  assumes "list_pages page marker acc p = Some (Inr es, p')" "\<And>m p. fst (page m p) = serve m"
  shows "\<exists>es'. page_chain serve marker es' \<and> es = acc @ es'"
proof -
  have "page = page \<longrightarrow>
      (\<forall>es0 p0. (Inr es :: RpcError + _, p') = (Inr es0, p0) \<longrightarrow> (\<exists>es'. page_chain serve marker es' \<and> es0 = acc @ es'))"
  proof (rule list_pages.raw_induct [where P = "\<lambda>pg marker acc p r. pg = page \<longrightarrow>
      (\<forall>es p'. r = (Inr es, p') \<longrightarrow> (\<exists>es'. page_chain serve marker es' \<and> es = acc @ es'))", OF _ assms(1)], intro impI allI)
    fix rec pg m a q r es0 p0
    assume ih: "\<And>pg m a q r. rec pg m a q = Some r \<Longrightarrow> pg = page \<longrightarrow>
        (\<forall>es p'. r = (Inr es, p') \<longrightarrow> (\<exists>es'. page_chain serve m es' \<and> es = a @ es'))"
      and step: "(case pg m q of (Inl e, p') \<Rightarrow> Some (Inl e, p')
        | (Inr blocks, p') \<Rightarrow> (let entries' = a @ blk_blocks blocks
           in if \<not> blk_has_more blocks then Some (Inr entries', p')
              else if blk_next_marker blocks = [] \<or> blk_next_marker blocks = m
              then Some (Inl (InternalResponseError ''BSS ListBlobBlocks pagination made no progress''), p')
              else rec pg (blk_next_marker blocks) entries' p')) = Some r"
      and eqs: "pg = page" "r = (Inr es0, p0)"
    obtain b p1 where b: "pg m q = (Inr b, p1)"
      using step eqs by (cases "pg m q"; cases "fst (pg m q)") auto
    have serve: "serve m = Inr b" using assms(2) [of m q] b eqs(1) by simp
    show "\<exists>es'. page_chain serve m es' \<and> es0 = a @ es'"
    proof (cases "blk_has_more b")
      case False
      then show ?thesis using step b eqs(2) page_chain.last_page [of serve m b, OF serve False] by auto
    next
      case True
      then have go: "blk_next_marker b \<noteq> []" "blk_next_marker b \<noteq> m"
        "rec pg (blk_next_marker b) (a @ blk_blocks b) p1 = Some (Inr es0, p0)"
        using step b eqs(2) by (auto split: if_splits)
      obtain es' where "page_chain serve (blk_next_marker b) es'" "es0 = (a @ blk_blocks b) @ es'"
        using ih [OF go(3)] eqs(1) by blast
      then show ?thesis using page_chain.more_pages [of serve m b, OF serve True go(1,2)] by auto
    qed
  qed
  then show ?thesis by blast
qed

text \<open>The loop returns when every page that announces more moves its marker forward in some finite rank.\<close>

lemma list_pages_returns:
  assumes "\<And>m p. fst (page m p) = serve m"
    and "\<And>m b. serve m = Inr b \<Longrightarrow> blk_has_more b \<Longrightarrow> rank (blk_next_marker b) < (rank m :: nat)"
  shows "list_pages page m acc p \<noteq> None"
proof (induction "rank m" arbitrary: m acc p rule: less_induct)
  case less
  obtain r p' where r: "page m p = (r, p')" by fastforce
  show ?case
  proof (cases r)
    case (Inr b)
    then have "serve m = Inr b" using assms(1) [of m p] r by simp
    then have "blk_has_more b \<Longrightarrow> list_pages page (blk_next_marker b) (acc @ blk_blocks b) p' \<noteq> None"
      using less assms(2) by blast
    then show ?thesis using r Inr by (subst list_pages.simps) (simp add: Let_def)
  qed (use r in \<open>subst list_pages.simps, simp\<close>)
qed


definition sample_page :: "string \<Rightarrow> Blocks" where
  "sample_page m =
     (if m = [] then \<lparr>blk_blocks = [\<lparr>be_block_number = 0, be_version = 1, be_cohort_tag = 0\<rparr>], blk_has_more = True, blk_next_marker = ''a''\<rparr>
      else \<lparr>blk_blocks = [\<lparr>be_block_number = 2, be_version = 1, be_cohort_tag = 0\<rparr>], blk_has_more = False, blk_next_marker = []\<rparr>)"

definition sample_decode :: "bytes \<Rightarrow> string + ListBlobBlocksResponse" where
  "sample_decode bs = Inr (Some (Inl (sample_page (if bs = [0] then [] else ''a''))))"


section \<open>Ids and connections of the pool\<close>

text \<open>
  An id is drawn from the counter of one connection and the request is sent on the next one that the
  round robin yields. \<open>Draw c\<close> and \<open>Pick c\<close> are these two accesses of caller \<open>c\<close>; callers on several
  threads interleave them.
\<close>

datatype pool_event = Draw nat | Pick nat

record pool_run =
  pool :: bss_client
  drawn :: "nat \<Rightarrow> u32"
  picked :: "nat \<Rightarrow> nat"

fun pool_step :: "pool_event \<Rightarrow> pool_run \<Rightarrow> pool_run" where
  "pool_step (Draw c) s = (let (i, p) = pool_gen_request_id (pool s) in s\<lparr>pool := p, drawn := (drawn s)(c := i)\<rparr>)"
| "pool_step (Pick c) s = (let (idx, p) = get_connection (pool s) in s\<lparr>pool := p, picked := (picked s)(c := idx)\<rparr>)"

definition pool_start :: pool_run where
  "pool_start = \<lparr>pool = new_from_address, drawn = (\<lambda>_. 0), picked = (\<lambda>_. 0)\<rparr>"

lemma mod_two: "unat (k :: u64) mod Suc (Suc 0) = (if even (unat k) then 0 else 1)"
  by (simp add: numeral_2_eq_2 [symmetric] mod2_eq_if)

lemma pool_of_two:
  "get_connection \<lparr>pool_ids = [a, b], next_conn = k\<rparr> =
    (if even (unat k) then 0 else 1, \<lparr>pool_ids = [a, b], next_conn = k + 1\<rparr>)"
  "pool_gen_request_id \<lparr>pool_ids = [a, b], next_conn = k\<rparr> =
    (if even (unat k) then (a, \<lparr>pool_ids = [a + 1, b], next_conn = k + 1\<rparr>)
     else (b, \<lparr>pool_ids = [a, b + 1], next_conn = k + 1\<rparr>))"
  by (simp_all add: get_connection_def pool_gen_request_id_def gen_request_id_def mod_two)

lemma pool_start_eq: "pool_start = \<lparr>pool = \<lparr>pool_ids = [1, 1], next_conn = 0\<rparr>, drawn = (\<lambda>_. 0), picked = (\<lambda>_. 0)\<rparr>"
  by (simp add: pool_start_def new_from_address_def CONNS_PER_CORE_def eval_nat_numeral)

text \<open>Callers one after the other: everything goes through the second connection, with fresh ids.\<close>

definition call_once :: "nat \<Rightarrow> pool_run \<Rightarrow> pool_run" where
  "call_once c s = pool_step (Pick c) (pool_step (Draw c) s)"

lemma call_once_state:
  assumes "pool s = \<lparr>pool_ids = [1 + word_of_nat n, 1], next_conn = word_of_nat (2 * n)\<rparr>"
  shows "pool (call_once c s) = \<lparr>pool_ids = [1 + word_of_nat (Suc n), 1], next_conn = word_of_nat (2 * Suc n)\<rparr>"
    and "drawn (call_once c s) = (drawn s)(c := 1 + word_of_nat n)"
    and "picked (call_once c s) = (picked s)(c := 1)"
proof -
  have par: "even (unat (word_of_nat m :: u64)) \<longleftrightarrow> even m" for m
    by (simp add: unat_of_nat even_iff_mod_2_eq_zero mod_mod_cancel)
  have k: "even (unat (word_of_nat (2 * n) :: u64))" "odd (unat (word_of_nat (2 * n) + 1 :: u64))"
    using par [of "2 * n"] par [of "2 * n + 1"] by (simp_all add: add.commute)
  define k :: u64 where "k = word_of_nat (2 * n)"
  define a :: u32 where "a = 1 + word_of_nat n"
  obtain d e where s: "s = \<lparr>pool = \<lparr>pool_ids = [a, 1], next_conn = k\<rparr>, drawn = d, picked = e\<rparr>"
    using assms unfolding a_def k_def by (cases s) auto
  have "even (unat k)" "odd (unat (k + 1))" using k unfolding k_def by blast+
  then have step: "call_once c s = \<lparr>pool = \<lparr>pool_ids = [a + 1, 1], next_conn = k + 1 + 1\<rparr>, drawn = d(c := a), picked = e(c := 1)\<rparr>"
    by (simp add: call_once_def s pool_of_two)
  show "pool (call_once c s) = \<lparr>pool_ids = [1 + word_of_nat (Suc n), 1], next_conn = word_of_nat (2 * Suc n)\<rparr>"
    and "drawn (call_once c s) = (drawn s)(c := 1 + word_of_nat n)" and "picked (call_once c s) = (picked s)(c := 1)"
    unfolding step by (simp_all add: s a_def k_def add_ac)
qed

lemma call_once_many:
  "pool (fold call_once [0..<n] pool_start) = \<lparr>pool_ids = [1 + word_of_nat n, 1], next_conn = word_of_nat (2 * n)\<rparr> \<and>
   (\<forall>c < n. drawn (fold call_once [0..<n] pool_start) c = 1 + word_of_nat c \<and>
      picked (fold call_once [0..<n] pool_start) c = 1)"
proof (induction n)
  case 0
  show ?case by (simp add: pool_start_eq)
next
  case (Suc n)
  then show ?case using call_once_state [of "fold call_once [0..<n] pool_start" n n] by (auto simp: less_Suc_eq)
qed

text \<open>
  Requests that do not overlap get distinct ids, all on one connection: of any number of calls made
  one after the other, up to \<open>2 ^ 32\<close> of them, no two have the same id, and every one of them is sent on
  the second connection of the pool; the first one is never used.
\<close>

theorem pool_sequential_ids:
  assumes "n \<le> 2 ^ 32"
  shows "inj_on (drawn (fold call_once [0..<n] pool_start)) {..<n} \<and>
    (\<forall>c \<in> {..<n}. picked (fold call_once [0..<n] pool_start) c = 1)"
proof -
  have "c = d" if "c < n" "d < n" "(1 + word_of_nat c :: u32) = 1 + word_of_nat d" for c d
  proof -
    have "(word_of_nat c :: u32) = word_of_nat d" using that(3) by simp
    moreover have "c < 2 ^ 32" "d < 2 ^ 32" using that(1,2) assms by (blast intro: less_le_trans)+
    ultimately show ?thesis by (metis unat_of_size)
  qed
  then show ?thesis using call_once_many [of n] unfolding inj_on_def by (metis lessThan_iff)
qed

theorem pool_sequential_ids_witness:
  "inj_on (drawn (fold call_once [0..<5] pool_start)) {..<5} \<and> picked (fold call_once [0..<5] pool_start) 3 = 1"
  using pool_sequential_ids [of 5] by simp

lemma same_id_misdelivered:
  assumes "request_id ops req 0 = i" "request_id ops req 1 = i" "hdr_id ops (frame_header reply) = i"
  shows "\<exists>t. run_events ops req has_timeout
      [Begin 0, Insert 0, Enqueue 0, Begin 1, Insert 1, Enqueue 1, Receive reply, Wake 1] new_internal = Some t \<and>
    phase t 1 = Finished (Inr reply) \<and> phase t 0 = Waiting \<and> chan t 0 = Dropped"
  using assms by (simp add: new_internal_def goto_def insert_request_def handle_incoming_frame_def)


end
