(* ===== verification/Block_Stream.thy ===== *)
theory Block_Stream
  imports FB_Prelude
begin

text \<open>
  How an uploaded body is cut into blocks: \<open>split_chunks_into_blocks\<close> of
  \<open>s3_gateway/src/handler/put/put_object.rs\<close>, for a body that was buffered, and \<open>BlockDataStream\<close> of
  \<open>block_data_stream.rs\<close>, for a body that is streamed. Both meet the contract \<open>block_splitter\<close>: the
  blocks are the body cut every \<open>block_size\<close> bytes, however it arrived in chunks. A loop that does
  not end is \<open>None\<close>.
\<close>

section \<open>The reference\<close>

function blocks_of :: "nat \<Rightarrow> 'a list \<Rightarrow> 'a list list" where
  "blocks_of bs xs = (if xs = [] \<or> bs = 0 then [] else take bs xs # blocks_of bs (drop bs xs))"
  by pat_completeness auto
termination by (relation "measure (\<lambda>(bs, xs). length xs)") auto

declare blocks_of.simps [simp del]

section \<open>Buffered bodies\<close>

text \<open>The inner loop of \<open>split_chunks_into_blocks\<close>, over what remains of one chunk.\<close>

partial_function (option) split_chunk ::
    "nat \<Rightarrow> bytes \<Rightarrow> bytes list list \<Rightarrow> bytes list \<Rightarrow> nat \<Rightarrow> (bytes list list \<times> bytes list \<times> nat) option" where
  "split_chunk block_size chunk_remaining blocks current_block current_block_size =
     (if chunk_remaining = [] then Some (blocks, current_block, current_block_size)
      else let space_left = block_size - current_block_size
        in if length chunk_remaining \<le> space_left
           then Some (blocks, current_block @ [chunk_remaining], current_block_size + length chunk_remaining)
           else split_chunk block_size (drop space_left chunk_remaining)
                  (blocks @ [current_block @ [take space_left chunk_remaining]]) [] 0)"

fun split_all ::
    "nat \<Rightarrow> bytes list \<Rightarrow> bytes list list \<Rightarrow> bytes list \<Rightarrow> nat \<Rightarrow> (bytes list list \<times> bytes list) option" where
  "split_all block_size [] blocks current_block current_block_size = Some (blocks, current_block)"
| "split_all block_size (chunk # chunks) blocks current_block current_block_size =
     (case split_chunk block_size chunk blocks current_block current_block_size of
        None \<Rightarrow> None
      | Some (blocks', current', size') \<Rightarrow> split_all block_size chunks blocks' current' size')"

definition split_chunks_into_blocks :: "nat \<Rightarrow> bytes list \<Rightarrow> bytes list list option" where
  "split_chunks_into_blocks block_size chunks =
     (case split_all block_size chunks [] [] 0 of
        None \<Rightarrow> None
      | Some (blocks, current_block) \<Rightarrow>
          Some (if current_block = [] then blocks else blocks @ [current_block]))"

section \<open>Streamed bodies\<close>

datatype PayloadError = EncodingCorrupted | Incomplete | OtherPayload nat

record BlockDataStream =
  bd_chunks :: "bytes list"
  accumulated_size :: nat
  bd_block_size :: nat
  overflow :: "bytes option"

text \<open>\<open>BlockDataStream::new\<close>, which asserts a positive block size.\<close>

definition block_stream_new :: "nat \<Rightarrow> BlockDataStream option" where
  "block_stream_new block_size =
     (if 0 < block_size
      then Some \<lparr>bd_chunks = [], accumulated_size = 0, bd_block_size = block_size, overflow = None\<rparr>
      else None)"

text \<open>The next bytes, either left over or fresh from the inner stream, go into the current block as far as it has room.\<close>

definition absorb :: "bytes \<Rightarrow> BlockDataStream \<Rightarrow> BlockDataStream" where
  "absorb data st =
     (let remaining = bd_block_size st - accumulated_size st
      in if length data \<le> remaining
         then st\<lparr>accumulated_size := accumulated_size st + length data, bd_chunks := bd_chunks st @ [data]\<rparr>
         else st\<lparr>bd_chunks := bd_chunks st @ [take remaining data],
                accumulated_size := accumulated_size st + remaining, overflow := Some (drop remaining data)\<rparr>)"

definition absorb_overflow :: "BlockDataStream \<Rightarrow> BlockDataStream" where
  "absorb_overflow st =
     (case overflow st of None \<Rightarrow> st | Some data \<Rightarrow> absorb data (st\<lparr>overflow := None\<rparr>))"

definition take_block :: "BlockDataStream \<Rightarrow> bytes list \<times> BlockDataStream" where
  "take_block st = (bd_chunks st, st\<lparr>bd_chunks := [], accumulated_size := 0\<rparr>)"

text \<open>
  \<open>poll_next\<close>, over the items that the inner stream yields. While the inner stream is pending the
  state is kept, so a pending poll is not a step.
\<close>

fun poll_next ::
    "BlockDataStream \<Rightarrow> (PayloadError + bytes) list
      \<Rightarrow> (PayloadError + bytes list) option \<times> BlockDataStream \<times> (PayloadError + bytes) list" where
  "poll_next st [] =
     (let st' = absorb_overflow st
      in if accumulated_size st' = bd_block_size st' \<or> accumulated_size st' \<noteq> 0
         then let (block, st'') = take_block st' in (Some (Inr block), st'', [])
         else (None, st', []))"
| "poll_next st (item # rest) =
     (let st' = absorb_overflow st
      in if accumulated_size st' = bd_block_size st'
         then let (block, st'') = take_block st' in (Some (Inr block), st'', item # rest)
         else case item of
             Inl e \<Rightarrow> (Some (Inl e), st', rest)
           | Inr data \<Rightarrow> if data = [] then poll_next st' rest else poll_next (absorb data st') rest)"

text \<open>The blocks a consumer gets that polls until the end or the first error.\<close>

partial_function (option) stream_blocks ::
    "BlockDataStream \<Rightarrow> (PayloadError + bytes) list \<Rightarrow> bytes list list \<Rightarrow> (bytes list list \<times> PayloadError option) option" where
  "stream_blocks st input acc =
     (case poll_next st input of
        (None, _) \<Rightarrow> Some (acc, None)
      | (Some (Inl e), _) \<Rightarrow> Some (acc, Some e)
      | (Some (Inr block), st', input') \<Rightarrow> stream_blocks st' input' (acc @ [block]))"

definition block_stream :: "nat \<Rightarrow> (PayloadError + bytes) list \<Rightarrow> (bytes list list \<times> PayloadError option) option" where
  "block_stream block_size input =
     (case block_stream_new block_size of None \<Rightarrow> None | Some st \<Rightarrow> stream_blocks st input [])"

section \<open>Cutting a body\<close>

lemma blocks_of_simps [simp]:
  "blocks_of bs [] = []"
  "blocks_of 0 xs = []"
  by (simp_all add: blocks_of.simps [of bs "[]"] blocks_of.simps [of 0 xs])

lemma blocks_of_full: "0 < bs \<Longrightarrow> length b = bs \<Longrightarrow> blocks_of bs (b @ ys) = b # blocks_of bs ys"
  by (subst blocks_of.simps) auto

lemma blocks_of_short: "ys \<noteq> [] \<Longrightarrow> length ys \<le> bs \<Longrightarrow> blocks_of bs ys = [ys]"
  by (subst blocks_of.simps) (cases ys, auto)

lemma blocks_of_concat:
  "0 < bs \<Longrightarrow> \<forall>b \<in> set bls. length b = bs \<Longrightarrow> blocks_of bs (concat bls @ ys) = bls @ blocks_of bs ys"
  by (induction bls) (simp_all add: blocks_of_full)

lemma concat_blocks_of: "0 < bs \<Longrightarrow> concat (blocks_of bs xs) = xs"
proof (induction "length xs" arbitrary: xs rule: less_induct)
  case less
  then show ?case
  proof (cases "xs = []")
    case False
    then have "concat (blocks_of bs (drop bs xs)) = drop bs xs" using less by simp
    then show ?thesis using False less.prems by (subst blocks_of.simps) simp
  qed simp
qed

lemma blocks_of_nth:
  "0 < bs \<Longrightarrow> i * bs < length xs \<Longrightarrow> i < length (blocks_of bs xs) \<and> blocks_of bs xs ! i = take bs (drop (i * bs) xs)"
proof (induction i arbitrary: xs)
  case 0
  then show ?case by (subst (1 2) blocks_of.simps) auto
next
  case (Suc i)
  have "i * bs < length (drop bs xs)" using Suc.prems by simp
  from Suc.IH [OF Suc.prems(1) this] show ?case
    using Suc.prems by (subst (1 2) blocks_of.simps) (auto simp: add.commute)
qed

lemma length_blocks_of: "0 < bs \<Longrightarrow> length (blocks_of bs xs) = (length xs + bs - 1) div bs"
proof (induction "length xs" arbitrary: xs rule: less_induct)
  case less
  show ?case
  proof (cases "length xs \<le> bs")
    case True
    moreover have "(length xs + bs - 1) div bs = 1" if "xs \<noteq> []"
    proof -
      have "length xs + bs - 1 = bs + (length xs - 1)" "length xs - 1 < bs"
        using that True less.prems by (cases xs, auto)+
      then show ?thesis using less.prems by (simp only: div_add_self1) simp
    qed
    ultimately show ?thesis using less.prems by (cases "xs = []") (simp_all add: blocks_of_short)
  next
    case False
    have "(length xs + bs - 1) div bs = Suc ((length xs - bs + bs - 1) div bs)"
      using False less.prems by (simp add: le_div_geq)
    moreover have "length (blocks_of bs (drop bs xs)) = (length xs - bs + bs - 1) div bs"
      using less.hyps [of "drop bs xs"] less.prems False by auto
    moreover have "xs \<noteq> []" using False by auto
    ultimately show ?thesis using less.prems by (subst blocks_of.simps) simp
  qed
qed

section \<open>The contract of a splitter\<close>

text \<open>
  What the upload relies on, of either way of cutting a body: it ends, and the chunks of each block
  put together are the blocks of the body.
\<close>

locale block_splitter =
  fixes split :: "nat \<Rightarrow> bytes list \<Rightarrow> bytes list list option"
  assumes splits: "0 < bs \<Longrightarrow> \<exists>bls. split bs chunks = Some bls \<and> map concat bls = blocks_of bs (concat chunks)"
begin

lemma split_some:
  assumes "split bs chunks = Some bls" "0 < bs"
  shows "map concat bls = blocks_of bs (concat chunks)" "concat (concat bls) = concat chunks"
    "length bls = (length (concat chunks) + bs - 1) div bs"
proof -
  show *: "map concat bls = blocks_of bs (concat chunks)" using splits [of bs chunks] assms by auto
  have "concat (concat bls) = concat (map concat bls)" by (induction bls) simp_all
  then show "concat (concat bls) = concat chunks" using * concat_blocks_of [OF assms(2)] by simp
  show "length bls = (length (concat chunks) + bs - 1) div bs"
    using arg_cong [OF *, of length] length_blocks_of [OF assms(2)] by simp
qed

lemma split_nth:
  assumes "split bs chunks = Some bls" "0 < bs" "i * bs < length (concat chunks)"
  shows "i < length bls" "concat (bls ! i) = take bs (drop (i * bs) (concat chunks))"
proof -
  note m = split_some(1) [OF assms(1,2)] and nth = blocks_of_nth [OF assms(2,3)]
  have "length bls = length (blocks_of bs (concat chunks))" using arg_cong [OF m, of length] by simp
  then show "i < length bls" using nth by simp
  then show "concat (bls ! i) = take bs (drop (i * bs) (concat chunks))"
    using nth nth_map [of i bls concat] unfolding m by simp
qed

lemma split_rechunked:
  "0 < bs \<Longrightarrow> concat chunks = concat chunks' \<Longrightarrow>
    map_option (map concat) (split bs chunks) = map_option (map concat) (split bs chunks')"
  using splits [of bs chunks] splits [of bs chunks'] by auto

end

subsection \<open>Buffered bodies\<close>

definition split_ok :: "nat \<Rightarrow> bytes \<Rightarrow> bytes list list \<Rightarrow> bytes list \<Rightarrow> nat \<Rightarrow> bool" where
  "split_ok bs data blocks current sz \<longleftrightarrow>
     concat (map concat blocks) @ concat current = data \<and> (\<forall>b \<in> set blocks. length (concat b) = bs) \<and>
     sz = length (concat current) \<and> sz \<le> bs \<and> (concat current = [] \<longrightarrow> current = [])"

lemma split_chunk_ok:
  assumes "0 < bs" "split_ok bs data blocks current sz"
  shows "\<exists>blocks' current' sz'. split_chunk bs rem blocks current sz = Some (blocks', current', sz') \<and>
    split_ok bs (data @ rem) blocks' current' sz'"
  using assms(2)
proof (induction "2 * length rem + sz" arbitrary: rem blocks current sz data rule: less_induct)
  case less
  consider "rem = []" | "rem \<noteq> []" "length rem \<le> bs - sz" | "bs - sz < length rem" by linarith
  then show ?case
  proof cases
    case 1
    then show ?thesis using less.prems by (subst split_chunk.simps) simp
  next
    case 2
    then show ?thesis using less.prems by (subst split_chunk.simps) (auto simp: split_ok_def)
  next
    case 3
    let ?fit = "take (bs - sz) rem" and ?rest = "drop (bs - sz) rem"
    have le: "sz \<le> bs" using less.prems by (simp add: split_ok_def)
    have ok: "split_ok bs (data @ ?fit) (blocks @ [current @ [?fit]]) [] 0"
      using less.prems 3 by (auto simp: split_ok_def)
    have "2 * length ?rest + 0 < 2 * length rem + sz" using 3 assms(1) le by auto
    from less.hyps [OF this ok] 3 show ?thesis
      by (subst split_chunk.simps) auto
  qed
qed

lemma split_all_ok:
  assumes "0 < bs" "split_ok bs data blocks current sz"
  shows "\<exists>blocks' current' sz'. split_all bs chunks blocks current sz = Some (blocks', current') \<and>
    split_ok bs (data @ concat chunks) blocks' current' sz'"
  using assms(2)
proof (induction chunks arbitrary: data blocks current sz)
  case (Cons c cs)
  obtain b' c' s' where "split_chunk bs c blocks current sz = Some (b', c', s')" "split_ok bs (data @ c) b' c' s'"
    using split_chunk_ok [OF assms(1) Cons.prems] by blast
  then show ?case using Cons.IH [of "data @ c" b' c' s'] by simp
qed auto

interpretation buffered: block_splitter split_chunks_into_blocks
proof
  fix bs :: nat and chunks :: "bytes list"
  assume bs: "0 < bs"
  have "split_ok bs [] [] [] 0" by (simp add: split_ok_def)
  from split_all_ok [OF bs this, of chunks] obtain b c s where
    run: "split_all bs chunks [] [] 0 = Some (b, c)" and ok: "split_ok bs (concat chunks) b c s" by auto
  have "blocks_of bs (concat chunks) = map concat b @ blocks_of bs (concat c)"
    using blocks_of_concat [OF bs, of "map concat b" "concat c"] ok by (simp add: split_ok_def)
  then show "\<exists>bls. split_chunks_into_blocks bs chunks = Some bls \<and> map concat bls = blocks_of bs (concat chunks)"
    using run ok by (cases "concat c = []") (auto simp: split_chunks_into_blocks_def split_ok_def blocks_of_short simp del: concat_eq_Nil_conv)
qed

subsection \<open>Streamed bodies\<close>

definition pending_bytes :: "BlockDataStream \<Rightarrow> bytes" where
  "pending_bytes st = concat (bd_chunks st) @ (case overflow st of None \<Rightarrow> [] | Some d \<Rightarrow> d)"

definition stream_ok :: "nat \<Rightarrow> BlockDataStream \<Rightarrow> bool" where
  "stream_ok bs st \<longleftrightarrow> 0 < bs \<and> bd_block_size st = bs \<and> accumulated_size st = length (concat (bd_chunks st)) \<and>
     accumulated_size st \<le> bs"

lemma absorb_ok:
  assumes "stream_ok bs st" "overflow st = None"
  shows "stream_ok bs (absorb data st)" "pending_bytes (absorb data st) = pending_bytes st @ data"
    "overflow (absorb data st) = None \<or> accumulated_size (absorb data st) = bs"
proof -
  show "stream_ok bs (absorb data st)" using assms(1) by (simp add: stream_ok_def absorb_def Let_def) linarith
  show "pending_bytes (absorb data st) = pending_bytes st @ data"
    using assms(2) by (simp add: absorb_def pending_bytes_def Let_def)
  show "overflow (absorb data st) = None \<or> accumulated_size (absorb data st) = bs"
    using assms by (simp add: stream_ok_def absorb_def Let_def split: if_splits)
qed

lemma absorb_overflow_ok:
  assumes "stream_ok bs st"
  shows "stream_ok bs (absorb_overflow st)" "pending_bytes (absorb_overflow st) = pending_bytes st"
    "overflow (absorb_overflow st) = None \<or> accumulated_size (absorb_overflow st) = bs"
proof -
  define st0 where "st0 = st\<lparr>overflow := None\<rparr>"
  have st0: "stream_ok bs st0" "overflow st0 = None" "pending_bytes st0 = concat (bd_chunks st)"
    using assms by (simp_all add: st0_def stream_ok_def pending_bytes_def)
  show "stream_ok bs (absorb_overflow st)" "pending_bytes (absorb_overflow st) = pending_bytes st"
    "overflow (absorb_overflow st) = None \<or> accumulated_size (absorb_overflow st) = bs"
    using absorb_ok [OF st0(1,2)] assms st0(3)
    by (auto simp: absorb_overflow_def pending_bytes_def st0_def [symmetric] split: option.splits)
qed

lemma take_block_ok:
  assumes "stream_ok bs st" "take_block st = (block, st')"
  shows "stream_ok bs st'" "concat block @ pending_bytes st' = pending_bytes st" "length (concat block) = accumulated_size st"
  using assms by (auto simp: take_block_def stream_ok_def pending_bytes_def)

text \<open>What one poll yields, of the bytes it had pending and the chunks \<open>pre\<close> it consumed.\<close>

fun poll_yields ::
    "nat \<Rightarrow> bytes \<Rightarrow> (PayloadError + bytes) list \<Rightarrow> (PayloadError + bytes list) option \<Rightarrow> bytes
      \<Rightarrow> (PayloadError + bytes) list \<Rightarrow> bytes list \<Rightarrow> bool" where
  "poll_yields bs pend input None pend' rest pre \<longleftrightarrow>
     input = map Inr pre \<and> rest = [] \<and> pend @ concat pre = []"
| "poll_yields bs pend input (Some (Inl e)) pend' rest pre \<longleftrightarrow>
     input = map Inr pre @ Inl e # rest \<and> length (pend @ concat pre) < bs"
| "poll_yields bs pend input (Some (Inr block)) pend' rest pre \<longleftrightarrow>
     input = map Inr pre @ rest \<and> concat block @ pend' = pend @ concat pre \<and>
     0 < length (concat block) \<and> length (concat block) \<le> bs \<and>
     (length (concat block) = bs \<or> rest = [] \<and> pend' = [])"

lemma poll_yields_Cons:
  "poll_yields bs (pend @ data) input r pend' rest pre \<Longrightarrow> poll_yields bs pend (Inr data # input) r pend' rest (data # pre)"
  by (cases "(bs, pend @ data, input, r, pend', rest, pre)" rule: poll_yields.cases) simp_all

lemma poll_next_block:
  assumes "stream_ok bs st" "overflow st = None \<or> accumulated_size st = bs" "accumulated_size st = bs \<or> input = []"
    "accumulated_size st \<noteq> 0" "take_block st = (block, st')"
  shows "stream_ok bs st'" "poll_yields bs (pending_bytes st) input (Some (Inr block)) (pending_bytes st') input []"
proof -
  note tk = take_block_ok [OF assms(1,5)]
  show "stream_ok bs st'" by (rule tk(1))
  have "pending_bytes st' = []" if "accumulated_size st \<noteq> bs"
    using that assms(2,5) by (auto simp: take_block_def pending_bytes_def)
  moreover have "0 < length (concat block)" "length (concat block) \<le> bs"
    using tk(3) assms(1,4) by (simp_all add: stream_ok_def)
  ultimately show "poll_yields bs (pending_bytes st) input (Some (Inr block)) (pending_bytes st') input []"
    using tk(2,3) assms(3) by auto
qed

lemma poll_next_ok:
  assumes "stream_ok bs st" "poll_next st input = (r, st', rest)"
  shows "stream_ok bs st' \<and> (\<exists>pre. poll_yields bs (pending_bytes st) input r (pending_bytes st') rest pre)"
  using assms
proof (induction st input rule: poll_next.induct)
  case (1 st)
  let ?st = "absorb_overflow st"
  note ok = absorb_overflow_ok [OF 1(1)]
  have bs: "bd_block_size ?st = bs" "0 < bs" using ok(1) by (simp_all add: stream_ok_def)
  obtain block st'' where t: "take_block ?st = (block, st'')" by fastforce
  show ?case
  proof (cases "accumulated_size ?st = 0")
    case True
    then have "overflow ?st = None" "concat (bd_chunks ?st) = []" using ok(1,3) bs(2) by (auto simp: stream_ok_def)
    then have "pending_bytes st = []" unfolding ok(2) [symmetric] by (simp add: pending_bytes_def)
    moreover have "r = None" "st' = ?st" "rest = []" using 1(2) True bs by (simp_all add: Let_def)
    ultimately show ?thesis using ok(1) by simp
  next
    case False
    then have "r = Some (Inr block)" "st' = st''" "rest = []" using 1(2) t by (simp_all add: Let_def)
    then show ?thesis using poll_next_block [OF ok(1,3) _ False t, of "[]"] ok(2) by auto
  qed
next
  case (2 st item rest0)
  let ?st = "absorb_overflow st"
  note ok = absorb_overflow_ok [OF 2(3)]
  have bs: "bd_block_size ?st = bs" "0 < bs" using ok(1) by (simp_all add: stream_ok_def)
  obtain block st'' where t: "take_block ?st = (block, st'')" by fastforce
  show ?case
  proof (cases "accumulated_size ?st = bs")
    case True
    then have "r = Some (Inr block)" "st' = st''" "rest = item # rest0" using 2(4) t bs by (simp_all add: Let_def)
    then show ?thesis using poll_next_block [OF ok(1,3) _ _ t, of "item # rest0"] ok(2) True bs(2) by fastforce
  next
    case False
    then have none: "overflow ?st = None" using ok(3) by blast
    then have "length (pending_bytes st) < bs"
      using ok(1) False unfolding ok(2) [symmetric] by (simp add: stream_ok_def pending_bytes_def)
    show ?thesis
    proof (cases item)
      case (Inl e)
      then have "r = Some (Inl e)" "st' = ?st" "rest = rest0" using 2(4) False bs by (simp_all add: Let_def)
      then show ?thesis using ok(1) \<open>length (pending_bytes st) < bs\<close> Inl by (auto intro!: exI [of _ "[]"])
    next
      case (Inr data)
      define st1 where "st1 = (if data = [] then ?st else absorb data ?st)"
      have run: "poll_next st1 rest0 = (r, st', rest)"
        using 2(4) False bs Inr by (cases "data = []") (simp_all add: Let_def st1_def)
      have st1: "stream_ok bs st1" "pending_bytes st1 = pending_bytes st @ data"
        using absorb_ok [OF ok(1) none] ok by (simp_all add: st1_def)
      have "stream_ok bs st' \<and> (\<exists>pre. poll_yields bs (pending_bytes st1) rest0 r (pending_bytes st') rest pre)"
      proof (cases "data = []")
        case True
        show ?thesis using 2(1) [OF refl _ Inr True] run st1(1) False bs(1) True by (simp add: st1_def)
      next
        case d: False
        show ?thesis using 2(2) [OF refl _ Inr d] run st1(1) False bs(1) d by (simp add: st1_def)
      qed
      then show ?thesis unfolding Inr st1(2) using poll_yields_Cons by blast
    qed
  qed
qed

lemma map_Inr_prefix:
  assumes "map Inr pre @ rest = map Inr chunks @ tail" "tail = [] \<or> (\<exists>e r. tail = Inl e # r)"
  shows "\<exists>chunks'. chunks = pre @ chunks' \<and> rest = map Inr chunks' @ tail"
  using assms(1)
proof (induction pre arbitrary: chunks)
  case (Cons x pre)
  then show ?case using assms(2) by (cases chunks) auto
qed simp

lemma map_Inr_Inl:
  "map Inr pre @ Inl e # rest = map Inr chunks @ tail \<Longrightarrow> tail = [] \<or> (\<exists>e r. tail = Inl e # r) \<Longrightarrow>
    pre = chunks \<and> tail = Inl e # rest"
proof (induction pre arbitrary: chunks)
  case Nil
  then show ?case by (cases chunks) auto
next
  case (Cons x pre)
  then show ?case by (cases chunks) auto
qed

text \<open>The blocks of \<open>data\<close> that are complete when the stream fails, all of them when it ends.\<close>

definition complete_blocks :: "nat \<Rightarrow> bytes \<Rightarrow> PayloadError option \<Rightarrow> bytes list" where
  "complete_blocks bs data err =
     (case err of None \<Rightarrow> blocks_of bs data | Some _ \<Rightarrow> take (length data div bs) (blocks_of bs data))"

lemma complete_blocks_full:
  "0 < bs \<Longrightarrow> length b = bs \<Longrightarrow> complete_blocks bs (b @ data) err = b # complete_blocks bs data err"
  by (cases err) (auto simp: complete_blocks_def blocks_of_full div_add_self1)

lemma stream_blocks_ok:
  assumes "stream_ok bs st" "tail = (case err of None \<Rightarrow> [] | Some e \<Rightarrow> Inl e # r)"
  shows "\<exists>bls. stream_blocks st (map Inr chunks @ tail) acc = Some (acc @ bls, err) \<and>
    map concat bls = complete_blocks bs (pending_bytes st @ concat chunks) err"
  using assms(1)
proof (induction "length (pending_bytes st @ concat chunks)" arbitrary: st chunks acc rule: less_induct)
  case less
  have bs: "0 < bs" using less.prems by (simp add: stream_ok_def)
  have tl: "tail = [] \<or> (\<exists>e r. tail = Inl e # r)" using assms(2) by (cases err) auto
  obtain y st' rest where poll: "poll_next st (map Inr chunks @ tail) = (y, st', rest)" by (metis prod_cases3)
  then obtain pre where ok: "stream_ok bs st'"
    and yields: "poll_yields bs (pending_bytes st) (map Inr chunks @ tail) y (pending_bytes st') rest pre"
    using poll_next_ok [OF less.prems] by blast
  consider "y = None" | e where "y = Some (Inl e)" | block where "y = Some (Inr block)" by (cases y) (auto elim: sum.exhaust)
  then show ?case
  proof cases
    case 1
    then have "pending_bytes st @ concat pre = []" "map Inr pre @ [] = map Inr chunks @ tail" using yields by simp_all
    moreover from map_Inr_prefix [OF this(2) tl] have "pre = chunks" "tail = []" by auto
    ultimately have nil: "pending_bytes st @ concat chunks = []" "err = None" "tail = []"
      using assms(2) by (simp_all split: option.splits)
    have "complete_blocks bs (pending_bytes st @ concat chunks) err = []" unfolding nil by (simp add: complete_blocks_def)
    then show ?thesis using poll 1 nil(2) by (subst stream_blocks.simps) simp
  next
    case (2 e)
    then have "pre = chunks" "tail = Inl e # rest" "length (pending_bytes st @ concat chunks) < bs"
      using yields map_Inr_Inl [OF _ tl] by (metis poll_yields.simps(2))+
    then show ?thesis
      using poll 2 assms(2) by (subst stream_blocks.simps) (auto simp: complete_blocks_def split: option.splits)
  next
    case (3 block)
    then have b: "map Inr pre @ rest = map Inr chunks @ tail" "concat block @ pending_bytes st' = pending_bytes st @ concat pre"
      "0 < length (concat block)" "length (concat block) \<le> bs" "length (concat block) = bs \<or> rest = [] \<and> pending_bytes st' = []"
      using yields by simp_all
    obtain chunks' where c: "chunks = pre @ chunks'" "rest = map Inr chunks' @ tail" using map_Inr_prefix [OF b(1) tl] by blast
    let ?data' = "pending_bytes st' @ concat chunks'"
    have data: "pending_bytes st @ concat chunks = concat block @ ?data'" using b(2) c(1) by simp
    then have "length ?data' < length (pending_bytes st @ concat chunks)" using b(3) by simp
    from less.hyps [OF this ok, of "acc @ [block]"] obtain bls where
      bls: "stream_blocks st' rest (acc @ [block]) = Some ((acc @ [block]) @ bls, err)"
        "map concat bls = complete_blocks bs ?data' err" unfolding c(2) by blast
    have "complete_blocks bs (concat block @ ?data') err = concat block # complete_blocks bs ?data' err"
    proof (cases "length (concat block) = bs")
      case False
      then have "?data' = []" "err = None" using b(5) c(2) assms(2) by (auto split: option.splits)
      moreover have "concat block \<noteq> []" using b(3) by simp
      ultimately show ?thesis using b(4) by (simp add: complete_blocks_def blocks_of_short del: concat_eq_Nil_conv)
    qed (rule complete_blocks_full [OF bs])
    then show ?thesis
      using bls poll 3 data by (subst stream_blocks.simps) (auto intro!: exI [of _ "block # bls"])
  qed
qed

lemma block_stream_ok:
  assumes "0 < bs"
  shows "\<exists>bls. block_stream bs (map Inr chunks @ (case err of None \<Rightarrow> [] | Some e \<Rightarrow> Inl e # r)) = Some (bls, err) \<and>
    map concat bls = complete_blocks bs (concat chunks) err"
proof -
  have "stream_ok bs \<lparr>bd_chunks = [], accumulated_size = 0, bd_block_size = bs, overflow = None\<rparr>"
    using assms by (simp add: stream_ok_def)
  from stream_blocks_ok [OF this refl, where acc = "[]" and r = r and chunks = chunks and err = err] show ?thesis
    using assms by (simp add: block_stream_def block_stream_new_def pending_bytes_def)
qed

definition streamed_blocks :: "nat \<Rightarrow> bytes list \<Rightarrow> bytes list list option" where
  "streamed_blocks bs chunks = map_option fst (block_stream bs (map Inr chunks))"

interpretation streamed: block_splitter streamed_blocks
proof
  fix bs :: nat and chunks :: "bytes list"
  assume "0 < bs"
  from block_stream_ok [OF this, where chunks = chunks and err = None]
  show "\<exists>bls. streamed_blocks bs chunks = Some bls \<and> map concat bls = blocks_of bs (concat chunks)"
    by (auto simp: streamed_blocks_def complete_blocks_def)
qed

text \<open>
  C25. The blocks of an upload do not depend on how it arrived. A buffered body and a streamed one
  with the same bytes, cut by the network into any chunks, are stored as the same blocks: the
  bytes \<open>[i * block_size, (i + 1) * block_size)\<close> as block \<open>i\<close>, and both loops end. A stream that fails
  after some bytes has yielded the blocks that those bytes complete and nothing else.
\<close>

theorem upload_blocks_agree:
  assumes "0 < bs" "concat chunks = body" "concat chunks' = body"
  shows "\<exists>bls bls' part.
    split_chunks_into_blocks bs chunks = Some bls \<and> block_stream bs (map Inr chunks') = Some (bls', None) \<and>
    map concat bls = map concat bls' \<and> length bls = (length body + bs - 1) div bs \<and>
    (\<forall>i < length bls. concat (bls ! i) = take bs (drop (i * bs) body)) \<and>
    block_stream bs (map Inr chunks' @ Inl e # rest) = Some (part, Some e) \<and>
    map concat part = take (length body div bs) (map concat bls)"
proof -
  obtain bls where bls: "split_chunks_into_blocks bs chunks = Some bls" "map concat bls = blocks_of bs body"
    using buffered.splits [OF assms(1), of chunks] assms(2) by blast
  obtain bls' where "block_stream bs (map Inr chunks') = Some (bls', None)" "map concat bls' = blocks_of bs body"
    using block_stream_ok [OF assms(1), where chunks = chunks' and err = None] assms(3) by (auto simp: complete_blocks_def)
  moreover obtain part where "block_stream bs (map Inr chunks' @ Inl e # rest) = Some (part, Some e)"
    "map concat part = take (length body div bs) (blocks_of bs body)"
    using block_stream_ok [OF assms(1), where chunks = chunks' and err = "Some e" and r = rest] assms(3) by (auto simp: complete_blocks_def)
  moreover have len: "length bls = (length body + bs - 1) div bs" using buffered.split_some(3) [OF bls(1) assms(1)] assms(2) by simp
  moreover have "concat (bls ! i) = take bs (drop (i * bs) body)" if "i < length bls" for i
  proof -
    have "i \<le> (length body + bs - 1) div bs - 1" "0 < (length body + bs - 1) div bs" using that len by simp_all
    then have "Suc i * bs \<le> length body + bs - 1"
      using div_times_less_eq_dividend [of "length body + bs - 1" bs] that len
      by (metis Suc_leI le_trans mult_le_mono1)
    then have "i * bs < length body" using assms(1) by simp
    then show ?thesis using buffered.split_nth(2) [OF bls(1) assms(1)] assms(2) by simp
  qed
  ultimately show ?thesis using bls by (metis (no_types, lifting))
qed

theorem upload_blocks_agree_witness:
  "\<exists>bls bls' part.
    split_chunks_into_blocks 2 [[1], [2, 3, 4, 5]] = Some bls \<and> block_stream 2 (map Inr [[1, 2, 3], [], [4, 5]]) = Some (bls', None) \<and>
    map concat bls = map concat bls' \<and> length bls = 3 \<and> concat (bls ! 2) = [5] \<and>
    block_stream 2 (map Inr [[1, 2, 3], [], [4, 5]] @ [Inl Incomplete]) = Some (part, Some Incomplete) \<and>
    map concat part = take 2 (map concat bls)"
proof -
  have "concat [[1], [2, 3, 4, 5]] = [1, 2, 3, 4, 5 :: u8]" "concat [[1, 2, 3], [], [4, 5]] = [1, 2, 3, 4, 5 :: u8]" by simp_all
  from upload_blocks_agree [OF zero_less_numeral this, where e = Incomplete and rest = "[]"] obtain bls bls' part where h:
    "split_chunks_into_blocks 2 [[1], [2, 3, 4, 5]] = Some bls" "block_stream 2 (map Inr [[1, 2, 3], [], [4, 5]]) = Some (bls', None)"
    "map concat bls = map concat bls'" "length bls = (length [1, 2, 3, 4, 5 :: u8] + 2 - 1) div 2"
    "\<forall>i < length bls. concat (bls ! i) = take 2 (drop (i * 2) [1, 2, 3, 4, 5 :: u8])"
    "block_stream 2 (map Inr [[1, 2, 3], [], [4, 5]] @ [Inl Incomplete]) = Some (part, Some Incomplete)"
    "map concat part = take (length [1, 2, 3, 4, 5 :: u8] div 2) (map concat bls)" by blast
  have len: "length bls = 3" using h(4) by simp
  moreover have "concat (bls ! 2) = [5]" using spec [OF h(5), of 2] len by simp
  moreover have "map concat part = take 2 (map concat bls)" unfolding h(7) by simp (simp add: numeral_2_eq_2)
  ultimately show ?thesis using h(1-3,6) by (intro exI conjI)
qed

end
