(* ===== verification/Aws_Streaming.thy ===== *)
theory Aws_Streaming
  imports Block_Stream
begin

text \<open>
  The aws-chunked upload encoding: chunk signatures of \<open>common/aws_signature/src/streaming.rs\<close> and the
  decoder \<open>S3StreamingPayload\<close> of \<open>s3_gateway/src/handler/put/s3_streaming.rs\<close>, a state machine over the
  segments that the HTTP payload yields. SHA-256, HMAC and the hex codec are the fields of \<open>crypto\<close>; a
  date is given as it is formatted. Strings are their UTF-8 bytes. Of the error texts that are only
  logged, the formatted error is left out.
\<close>

section \<open>Text\<close>

definition as_str :: "bytes \<Rightarrow> string" where
  "as_str bs = map (\<lambda>b. char_of (unat b)) bs"

definition as_bytes :: "string \<Rightarrow> bytes" where
  "as_bytes s = map of_char s"

text \<open>\<open>std::str::from_utf8\<close>: the well-formed byte sequences, as the standard defines them.\<close>

definition cont :: "nat \<Rightarrow> bool" where "cont b \<longleftrightarrow> 128 \<le> b \<and> b \<le> 191"

fun utf8_seq :: "nat list \<Rightarrow> bool" where
  "utf8_seq [] = True"
| "utf8_seq (a # bs) =
     (if a < 128 then utf8_seq bs
      else if 194 \<le> a \<and> a \<le> 223 then (case bs of b # r \<Rightarrow> cont b \<and> utf8_seq r | _ \<Rightarrow> False)
      else if 224 \<le> a \<and> a \<le> 239 then
        (case bs of b # c # r \<Rightarrow> cont b \<and> cont c \<and> (a = 224 \<longrightarrow> 160 \<le> b) \<and> (a = 237 \<longrightarrow> b \<le> 159) \<and> utf8_seq r | _ \<Rightarrow> False)
      else if 240 \<le> a \<and> a \<le> 244 then
        (case bs of b # c # d # r \<Rightarrow> cont b \<and> cont c \<and> cont d \<and> (a = 240 \<longrightarrow> 144 \<le> b) \<and> (a = 244 \<longrightarrow> b \<le> 143) \<and> utf8_seq r
         | _ \<Rightarrow> False)
      else False)"

definition from_utf8 :: "bytes \<Rightarrow> string option" where
  "from_utf8 bs = (if utf8_seq (map unat bs) then Some (as_str bs) else None)"

text \<open>\<open>str::trim\<close>: the characters with the property White_Space, in UTF-8.\<close>

definition white_space :: "string list" where
  "white_space =
    [[CHR 0x09], [CHR 0x0A], [CHR 0x0B], [CHR 0x0C], [CHR 0x0D], [CHR 0x20], [CHR 0xC2, CHR 0x85],
     [CHR 0xC2, CHR 0xA0], [CHR 0xE1, CHR 0x9A, CHR 0x80], [CHR 0xE2, CHR 0x80, CHR 0x80],
     [CHR 0xE2, CHR 0x80, CHR 0x81], [CHR 0xE2, CHR 0x80, CHR 0x82], [CHR 0xE2, CHR 0x80, CHR 0x83],
     [CHR 0xE2, CHR 0x80, CHR 0x84], [CHR 0xE2, CHR 0x80, CHR 0x85], [CHR 0xE2, CHR 0x80, CHR 0x86],
     [CHR 0xE2, CHR 0x80, CHR 0x87], [CHR 0xE2, CHR 0x80, CHR 0x88], [CHR 0xE2, CHR 0x80, CHR 0x89],
     [CHR 0xE2, CHR 0x80, CHR 0x8A], [CHR 0xE2, CHR 0x80, CHR 0xA8], [CHR 0xE2, CHR 0x80, CHR 0xA9],
     [CHR 0xE2, CHR 0x80, CHR 0xAF], [CHR 0xE2, CHR 0x81, CHR 0x9F], [CHR 0xE3, CHR 0x80, CHR 0x80]]"

function trim_from :: "string list \<Rightarrow> string \<Rightarrow> string" where
  "trim_from ws s =
     (case find (\<lambda>w. w \<noteq> [] \<and> strip_prefix w s \<noteq> None) ws of
        None \<Rightarrow> s
      | Some w \<Rightarrow> trim_from ws (drop (length w) s))"
  by pat_completeness auto
termination
proof (relation "measure (\<lambda>(ws, s). length s)")
  show "((ws, drop (length w) s), ws, s) \<in> measure (\<lambda>(ws, s). length s)"
    if "find (\<lambda>w. w \<noteq> [] \<and> strip_prefix w s \<noteq> None) ws = Some w" for ws s w
  proof -
    have "w \<noteq> [] \<and> strip_prefix w s \<noteq> None" using that unfolding find_Some_iff by (elim exE conjE) simp
    then obtain r where "w \<noteq> []" "strip_prefix w s = Some r" by blast
    then show ?thesis by (cases w) (auto simp: strip_prefix_Some)
  qed
qed simp

declare trim_from.simps [simp del]

definition trim :: "string \<Rightarrow> string" where
  "trim s = rev (trim_from (map rev white_space) (rev (trim_from white_space s)))"

text \<open>The position of the first window equal to \<open>pat\<close>.\<close>

fun window_position :: "'a list \<Rightarrow> 'a list \<Rightarrow> nat option" where
  "window_position pat [] = None"
| "window_position pat (x # xs) =
     (if take (length pat) (x # xs) = pat then Some 0 else map_option Suc (window_position pat xs))"

definition CRLF :: bytes where "CRLF = [13, 10]"

section \<open>Chunk signatures\<close>

record crypto =
  sha256 :: "bytes \<Rightarrow> bytes"
  hmac_key_ok :: "bytes \<Rightarrow> bool"
  hmac_sha256 :: "bytes \<Rightarrow> bytes \<Rightarrow> bytes"
  hex_encode :: "bytes \<Rightarrow> string"
  hex_decode :: "string \<Rightarrow> string + bytes"

record ChunkSignatureContext =
  signing_key :: bytes
  ctx_datetime :: string
  scope_string :: string

record ChunkSignature =
  cs_signature :: string

datatype SignatureError = InvalidFormat string | CryptoError string | ValidationError string

definition parse_chunk_signature :: "string \<Rightarrow> ChunkSignature option" where
  "parse_chunk_signature chunk_line =
     (case split_once (CHR '';'') chunk_line of
        None \<Rightarrow> None
      | Some (_, extensions) \<Rightarrow>
          (case List.map_filter (strip_prefix ''chunk-signature='') (split_on (CHR '';'') extensions) of
             [] \<Rightarrow> None
           | signature # _ \<Rightarrow> Some \<lparr>cs_signature = trim signature\<rparr>))"

definition AWS4_HMAC_SHA256_PAYLOAD :: string where "AWS4_HMAC_SHA256_PAYLOAD = ''AWS4-HMAC-SHA256-PAYLOAD''"

fun join_lines :: "string list \<Rightarrow> string" where
  "join_lines [] = []"
| "join_lines [s] = s"
| "join_lines (s # ss) = s @ CHR 0x0A # join_lines ss"

definition chunk_string_to_sign :: "crypto \<Rightarrow> string \<Rightarrow> string \<Rightarrow> string \<Rightarrow> bytes \<Rightarrow> string" where
  "chunk_string_to_sign cr datetime scope previous_signature chunk_data =
     join_lines [AWS4_HMAC_SHA256_PAYLOAD, datetime, scope, previous_signature,
       ''e3b0c44298fc1c149afbf4c8996fb92427ae41e4649b934ca495991b7852b855'', hex_encode cr (sha256 cr chunk_data)]"

definition verify_chunk_signature ::
    "crypto \<Rightarrow> ChunkSignatureContext \<Rightarrow> ChunkSignature \<Rightarrow> string \<Rightarrow> bytes \<Rightarrow> SignatureError + unit" where
  "verify_chunk_signature cr ctx chunk_signature previous_signature chunk_data =
     (let string_to_sign = chunk_string_to_sign cr (ctx_datetime ctx) (scope_string ctx) previous_signature chunk_data
      in if \<not> hmac_key_ok cr (signing_key ctx) then Inl (CryptoError ''HMAC key length error'')
         else case hex_decode cr (cs_signature chunk_signature) of
             Inl e \<Rightarrow> Inl (CryptoError (''Hex decode error: '' @ e))
           | Inr expected \<Rightarrow>
               if hmac_sha256 cr (signing_key ctx) (as_bytes string_to_sign) = expected then Inr ()
               else Inl (ValidationError ''chunk signature mismatch''))"

definition calculate_chunk_signature ::
    "crypto \<Rightarrow> ChunkSignatureContext \<Rightarrow> string \<Rightarrow> bytes \<Rightarrow> SignatureError + string" where
  "calculate_chunk_signature cr ctx previous_signature chunk_data =
     (if \<not> hmac_key_ok cr (signing_key ctx) then Inl (CryptoError ''HMAC key length error'')
      else Inr (hex_encode cr (hmac_sha256 cr (signing_key ctx)
        (as_bytes (chunk_string_to_sign cr (ctx_datetime ctx) (scope_string ctx) previous_signature chunk_data)))))"

text \<open>\<open>format!("{:x}", n)\<close>.\<close>

fun hex_str :: "nat \<Rightarrow> string" where
  "hex_str n = (if n < 16 then [hex_digit n] else hex_str (n div 16) @ [hex_digit (n mod 16)])"

declare hex_str.simps [simp del]

definition chunk_header :: "nat \<Rightarrow> string \<Rightarrow> bytes" where
  "chunk_header n signature = as_bytes (hex_str n @ '';chunk-signature='' @ signature)"

text \<open>\<open>create_streaming_body\<close>; \<open>chunks\<close> panics on a chunk size of zero.\<close>

fun streaming_chunks ::
    "crypto \<Rightarrow> ChunkSignatureContext \<Rightarrow> string \<Rightarrow> bytes list \<Rightarrow> SignatureError + (bytes \<times> string)" where
  "streaming_chunks cr ctx current [] = Inr ([], current)"
| "streaming_chunks cr ctx current (chunk # chunks) =
     (case calculate_chunk_signature cr ctx current chunk of
        Inl e \<Rightarrow> Inl e
      | Inr signature \<Rightarrow>
          (case streaming_chunks cr ctx signature chunks of
             Inl e \<Rightarrow> Inl e
           | Inr (encoded, last_signature) \<Rightarrow>
               Inr (chunk_header (length chunk) signature @ CRLF @ chunk @ CRLF @ encoded, last_signature)))"

definition create_streaming_body ::
    "crypto \<Rightarrow> bytes \<Rightarrow> nat \<Rightarrow> ChunkSignatureContext \<Rightarrow> string \<Rightarrow> (SignatureError + bytes) option" where
  "create_streaming_body cr body chunk_size ctx seed_signature =
     (if chunk_size = 0 then None
      else Some (case streaming_chunks cr ctx seed_signature (blocks_of chunk_size body) of
          Inl e \<Rightarrow> Inl e
        | Inr (result, current_signature) \<Rightarrow>
            (case calculate_chunk_signature cr ctx current_signature [] of
               Inl e \<Rightarrow> Inl e
             | Inr signature \<Rightarrow> Inr (result @ chunk_header 0 signature @ CRLF @ CRLF))))"

section \<open>The decoder\<close>

record S3Trailers =
  checksum_value :: "string option"
  trailer_signature :: "string option"

datatype ChecksumMessage = Data bytes | Trailers S3Trailers | StreamError string

datatype S3ChunkState =
    ReadingChunkSize
  | ReadingChunkData nat "ChunkSignature option"
  | ReadingChunkEnd
  | ReadingTrailers
  | Finished

text \<open>The checksum channel is what was sent on it and whether the sender is still there.\<close>

record S3StreamingPayload =
  sp_state :: S3ChunkState
  trailer_buffer :: bytes
  checksum_sender :: bool
  checksum_sent :: "ChecksumMessage list"
  signature_context :: "ChunkSignatureContext option"
  previous_signature :: "string option"
  current_chunk_buffer :: bytes

definition usize_MAX :: nat where "usize_MAX = 2 ^ 64 - 1"

definition send_error :: "string \<Rightarrow> S3StreamingPayload \<Rightarrow> S3StreamingPayload" where
  "send_error err p =
     (if checksum_sender p then p\<lparr>checksum_sent := checksum_sent p @ [StreamError err], checksum_sender := False\<rparr> else p)"

definition send_message :: "ChecksumMessage \<Rightarrow> S3StreamingPayload \<Rightarrow> S3StreamingPayload" where
  "send_message m p = (if checksum_sender p then p\<lparr>checksum_sent := checksum_sent p @ [m]\<rparr> else p)"

definition finish :: "S3StreamingPayload \<Rightarrow> S3StreamingPayload" where
  "finish p = p\<lparr>checksum_sender := False, sp_state := Finished\<rparr>"

text \<open>
  One round of the loop of \<open>poll_next\<close>: it goes on, or it returns an item, an error or the end. The
  items that the HTTP payload has still to yield are an argument and a result; at their end it
  yields \<open>None\<close> every time it is polled.
\<close>

datatype round =
    Continue S3StreamingPayload "(PayloadError + bytes) list"
  | Ready "(PayloadError + bytes) option" S3StreamingPayload "(PayloadError + bytes) list"

definition fail_with :: "PayloadError \<Rightarrow> string \<Rightarrow> S3StreamingPayload \<Rightarrow> (PayloadError + bytes) list \<Rightarrow> round" where
  "fail_with e err p input = Ready (Some (Inl e)) (send_error err p) input"

text \<open>A complete line of the buffer, up to \<open>line_end\<close>, is the header of the next chunk. The message to the
  checksum task names the place, \<open>which\<close>; the debug text of the cause that the code appends is left out.\<close>

definition take_chunk_header :: "string \<Rightarrow> nat \<Rightarrow> S3StreamingPayload \<Rightarrow> (PayloadError + bytes) list \<Rightarrow> round" where
  "take_chunk_header which line_end p input =
     (let chunk_line = take line_end (trailer_buffer p);
          p' = p\<lparr>trailer_buffer := drop (line_end + 2) (trailer_buffer p)\<rparr>
      in case from_utf8 chunk_line of
           None \<Rightarrow> fail_with EncodingCorrupted (''Invalid UTF-8 in '' @ which @ '' size line'') p' input
         | Some chunk_line_str \<Rightarrow>
             (case from_str_radix16 64 (trim (hd (split_on (CHR '';'') chunk_line_str))) of
                None \<Rightarrow> fail_with EncodingCorrupted (''Failed to parse '' @ which @ '' size'') p' input
              | Some n \<Rightarrow>
                  if n = 0 then Continue (p'\<lparr>sp_state := ReadingTrailers\<rparr>) input
                  else Continue (p'\<lparr>sp_state := ReadingChunkData n (parse_chunk_signature chunk_line_str)\<rparr>) input))"

fun reading_chunk_size :: "S3StreamingPayload \<Rightarrow> (PayloadError + bytes) list \<Rightarrow> round" where
  "reading_chunk_size p (Inr data # input) =
     (let p' = p\<lparr>trailer_buffer := trailer_buffer p @ data\<rparr>
      in case window_position CRLF (trailer_buffer p') of
           Some line_end \<Rightarrow> take_chunk_header ''chunk'' line_end p' input
         | None \<Rightarrow> Continue p' input)"
| "reading_chunk_size p (Inl e # input) = fail_with e ''Payload error'' p input"
| "reading_chunk_size p [] =
     (if trailer_buffer p \<noteq> []
      then case window_position CRLF (trailer_buffer p) of
          Some line_end \<Rightarrow> take_chunk_header ''final chunk'' line_end p []
        | None \<Rightarrow> Continue (p\<lparr>sp_state := ReadingTrailers\<rparr>) []
      else Ready None (finish p) [])"

fun pass_through :: "S3StreamingPayload \<Rightarrow> (PayloadError + bytes) list \<Rightarrow> round" where
  "pass_through p (Inr data # input) = Ready (Some (Inr data)) (send_message (Data data) p) input"
| "pass_through p (Inl e # input) = fail_with e ''Payload error in pass-through mode'' p input"
| "pass_through p [] = Ready None (finish p) []"

definition chunk_done :: "crypto \<Rightarrow> ChunkSignature option \<Rightarrow> S3StreamingPayload \<Rightarrow> (PayloadError + bytes) list \<Rightarrow> round" where
  "chunk_done cr chunk_signature p input =
     (let go_on = (\<lambda>p. Continue (p\<lparr>current_chunk_buffer := [], sp_state := ReadingChunkEnd\<rparr>) input)
      in case (signature_context p, chunk_signature, previous_signature p) of
           (Some ctx, Some chunk_sig, Some prev_sig) \<Rightarrow>
             (case verify_chunk_signature cr ctx chunk_sig prev_sig (current_chunk_buffer p) of
                Inl _ \<Rightarrow> fail_with EncodingCorrupted ''Chunk signature verification failed'' p input
              | Inr _ \<Rightarrow> go_on (p\<lparr>previous_signature := Some (cs_signature chunk_sig)\<rparr>))
         | _ \<Rightarrow> go_on p)"

text \<open>Bytes of the current chunk are buffered for its signature, sent to the checksum task and yielded.\<close>

definition yield_data ::
    "bytes \<Rightarrow> nat \<Rightarrow> ChunkSignature option \<Rightarrow> S3StreamingPayload \<Rightarrow> (PayloadError + bytes) list \<Rightarrow> round" where
  "yield_data chunk_data remaining chunk_signature p input =
     (let p1 = (if signature_context p \<noteq> None
                then p\<lparr>current_chunk_buffer := current_chunk_buffer p @ chunk_data\<rparr> else p);
          p2 = send_message (Data chunk_data) p1
      in Ready (Some (Inr chunk_data))
           (p2\<lparr>sp_state := ReadingChunkData (remaining - length chunk_data) chunk_signature\<rparr>) input)"

definition reading_chunk_data ::
    "crypto \<Rightarrow> nat \<Rightarrow> ChunkSignature option \<Rightarrow> S3StreamingPayload \<Rightarrow> (PayloadError + bytes) list \<Rightarrow> round" where
  "reading_chunk_data cr remaining chunk_signature p input =
     (if remaining = usize_MAX then pass_through p input
      else if remaining = 0 then chunk_done cr chunk_signature p input
      else if trailer_buffer p \<noteq> [] then
        yield_data (take remaining (trailer_buffer p)) remaining chunk_signature
          (p\<lparr>trailer_buffer := drop remaining (trailer_buffer p)\<rparr>) input
      else case input of
          Inr data # input' \<Rightarrow>
            yield_data (take remaining data) remaining chunk_signature
              (p\<lparr>trailer_buffer := trailer_buffer p @ drop remaining data\<rparr>) input'
        | Inl e # input' \<Rightarrow> fail_with e ''Payload error while reading chunk data'' p input'
        | [] \<Rightarrow> fail_with Incomplete ''Unexpected end of stream while reading chunk data'' p [])"

definition take_chunk_end :: "S3StreamingPayload \<Rightarrow> (PayloadError + bytes) list \<Rightarrow> round" where
  "take_chunk_end p input =
     (if 2 \<le> length (trailer_buffer p)
      then let p' = p\<lparr>trailer_buffer := drop 2 (trailer_buffer p)\<rparr>
        in if take 2 (trailer_buffer p) \<noteq> CRLF
           then fail_with EncodingCorrupted (''Expected '' @ [CHR 0x5C, CHR ''r'', CHR 0x5C, CHR ''n''] @ '' after chunk data'') p' input
           else Continue (p'\<lparr>sp_state := ReadingChunkSize\<rparr>) input
      else Continue p input)"

definition reading_chunk_end :: "S3StreamingPayload \<Rightarrow> (PayloadError + bytes) list \<Rightarrow> round" where
  "reading_chunk_end p input =
     (if length (trailer_buffer p) < 2
      then case input of
          Inr data # input' \<Rightarrow> take_chunk_end (p\<lparr>trailer_buffer := trailer_buffer p @ data\<rparr>) input'
        | Inl e # input' \<Rightarrow> fail_with e ''Payload error while reading chunk end'' p input'
        | [] \<Rightarrow> fail_with Incomplete ''Unexpected end of stream while reading chunk end'' p []
      else take_chunk_end p input)"

text \<open>The trailer section, up to an empty line.\<close>

text \<open>\<open>str::to_lowercase\<close>, up to characters whose lower case is not ASCII: the Kelvin sign becomes a \<open>k\<close>.\<close>

fun to_lowercase :: "string \<Rightarrow> string" where
  "to_lowercase [] = []"
| "to_lowercase (c # s) =
     (if take 3 (c # s) = [CHR 0xE2, CHR 0x84, CHR 0xAA] then CHR ''k'' # to_lowercase (drop 2 s)
      else (let n = (of_char c :: nat) in if 65 \<le> n \<and> n \<le> 90 then char_of (n + 32) else c) # to_lowercase s)"

text \<open>\<open>str::lines\<close>: at line feeds, without a carriage return before them, and without an empty last line.\<close>

definition str_lines :: "string \<Rightarrow> string list" where
  "str_lines s =
     (let ls = split_on (CHR 0x0A) s;
          chomp = (\<lambda>l. if l \<noteq> [] \<and> last l = CHR 0x0D then butlast l else l)
      in if last ls = [] then map chomp (butlast ls) else map chomp (butlast ls) @ [last ls])"

definition checksum_names :: "string list" where
  "checksum_names = [''x-amz-checksum-crc32'', ''x-amz-checksum-crc32c'', ''x-amz-checksum-crc64nvme'',
     ''x-amz-checksum-sha1'', ''x-amz-checksum-sha256'']"

definition trailer_line :: "string \<Rightarrow> S3Trailers \<Rightarrow> S3Trailers" where
  "trailer_line l trailers =
     (case split_once (CHR '':'') (trim l) of
        None \<Rightarrow> trailers
      | Some (name, val) \<Rightarrow>
          (let name = to_lowercase (trim name)
           in if name \<in> set checksum_names
              then (if checksum_value trailers = None then trailers\<lparr>checksum_value := Some (trim val)\<rparr> else trailers)
              else if name = ''x-amz-trailer-signature'' then trailers\<lparr>trailer_signature := Some (trim val)\<rparr>
              else trailers))"

definition parse_s3_trailers :: "bytes \<Rightarrow> S3Trailers" where
  "parse_s3_trailers trailer_data =
     (let none = \<lparr>checksum_value = None, trailer_signature = None\<rparr>
      in case from_utf8 trailer_data of
           None \<Rightarrow> none
         | Some s \<Rightarrow> fold trailer_line (str_lines s) none)"

fun reading_trailers :: "S3StreamingPayload \<Rightarrow> (PayloadError + bytes) list \<Rightarrow> round" where
  "reading_trailers p (Inr data # input) =
     (let p' = p\<lparr>trailer_buffer := trailer_buffer p @ data\<rparr>
      in case window_position (CRLF @ CRLF) (trailer_buffer p') of
           Some end_pos \<Rightarrow>
             Ready None
               (finish (send_message (Trailers (parse_s3_trailers (take end_pos (trailer_buffer p'))))
                 (p'\<lparr>trailer_buffer := drop (end_pos + 4) (trailer_buffer p')\<rparr>))) input
         | None \<Rightarrow> Continue p' input)"
| "reading_trailers p (Inl e # input) = fail_with e ''Payload error while reading trailers'' p input"
| "reading_trailers p [] = Ready None (finish p) []"

definition round_of :: "crypto \<Rightarrow> S3StreamingPayload \<Rightarrow> (PayloadError + bytes) list \<Rightarrow> round" where
  "round_of cr p input =
     (case sp_state p of
        ReadingChunkSize \<Rightarrow> reading_chunk_size p input
      | ReadingChunkData remaining chunk_signature \<Rightarrow> reading_chunk_data cr remaining chunk_signature p input
      | ReadingChunkEnd \<Rightarrow> reading_chunk_end p input
      | ReadingTrailers \<Rightarrow> reading_trailers p input
      | Finished \<Rightarrow> Ready None p input)"

text \<open>Every round consumes input or buffered bytes, or moves on to a later part of the chunk.\<close>

definition progress_rank :: "S3StreamingPayload \<Rightarrow> nat" where
  "progress_rank p = 2 * length (trailer_buffer p) +
     (case sp_state p of ReadingChunkSize \<Rightarrow> 1 | ReadingChunkData _ _ \<Rightarrow> 1 | _ \<Rightarrow> 0)"

fun round_input :: "round \<Rightarrow> (PayloadError + bytes) list" where
  "round_input (Continue p input) = input"
| "round_input (Ready item p input) = input"

fun round_payload :: "round \<Rightarrow> S3StreamingPayload" where
  "round_payload (Continue p input) = p"
| "round_payload (Ready item p input) = p"

lemma send_simps [simp]:
  "trailer_buffer (send_error e p) = trailer_buffer p" "trailer_buffer (send_message m p) = trailer_buffer p"
  "sp_state (send_error e p) = sp_state p" "sp_state (send_message m p) = sp_state p"
  "trailer_buffer (finish p) = trailer_buffer p" "sp_state (finish p) = Finished"
  by (simp_all add: send_error_def send_message_def finish_def)

lemma window_position_bound: "window_position pat xs = Some i \<Longrightarrow> take (length pat) (drop i xs) = pat \<and> i < length xs"
  by (induction xs arbitrary: i) (auto split: if_splits)

lemma window_end: "window_position pat xs = Some i \<Longrightarrow> i + length pat \<le> length xs"
  by (drule window_position_bound) (metis add.commute append_take_drop_id length_append length_drop le_diff_conv2 less_imp_le min.absorb_iff2 length_take)

lemma window_CRLF: "window_position CRLF xs = Some i \<Longrightarrow> i + 2 \<le> length xs"
  by (drule window_end) (simp add: CRLF_def)

lemma header_advanced:
  assumes "window_position CRLF (trailer_buffer p) = Some i" "sp_state p = ReadingChunkSize" "take_chunk_header which i p input = Continue p' input'"
  shows "input' = input \<and> progress_rank p' < progress_rank p"
  using assms window_CRLF [OF assms(1)]
  by (auto simp: take_chunk_header_def fail_with_def progress_rank_def Let_def split: option.splits if_splits)

lemma round_advanced:
  assumes "round_of cr p input = Continue p' input' \<or> round_of cr p input = Ready (Some (Inr d)) p' input'"
  shows "length input' < length input \<or> length input' = length input \<and> progress_rank p' < progress_rank p"
proof (cases "sp_state p")
  case ReadingChunkSize
  then show ?thesis
  proof (cases "(p, input)" rule: reading_chunk_size.cases)
    case (1 q data rest)
    then show ?thesis
      using assms ReadingChunkSize
      by (auto simp: round_of_def take_chunk_header_def fail_with_def Let_def split: option.splits if_splits)
  next
    case (3 q)
    then show ?thesis
      using assms ReadingChunkSize header_advanced [of p _ _ "[]" p' input']
      by (auto simp: round_of_def progress_rank_def take_chunk_header_def fail_with_def Let_def
          split: option.splits if_splits dest: window_CRLF)
  qed (use assms ReadingChunkSize in \<open>auto simp: round_of_def fail_with_def\<close>)
next
  case (ReadingChunkData n sg)
  then show ?thesis
    using assms
    by (cases input; cases "hd input")
      (auto simp: round_of_def reading_chunk_data_def chunk_done_def yield_data_def fail_with_def progress_rank_def Let_def
        split: option.splits if_splits sum.splits)
next
  case ReadingChunkEnd
  then show ?thesis
    using assms
    by (cases input; cases "hd input")
      (auto simp: round_of_def reading_chunk_end_def take_chunk_end_def fail_with_def progress_rank_def Let_def split: if_splits)
next
  case ReadingTrailers
  then show ?thesis
    using assms
    by (cases "(p, input)" rule: reading_trailers.cases) (auto simp: round_of_def fail_with_def Let_def split: option.splits)
qed (use assms in \<open>auto simp: round_of_def\<close>)

function payload_poll ::
    "crypto \<Rightarrow> S3StreamingPayload \<Rightarrow> (PayloadError + bytes) list
      \<Rightarrow> (PayloadError + bytes) option \<times> S3StreamingPayload \<times> (PayloadError + bytes) list" where
  "payload_poll cr p input =
     (case round_of cr p input of
        Continue p' input' \<Rightarrow> payload_poll cr p' input'
      | Ready item p' input' \<Rightarrow> (item, p', input'))"
  by pat_completeness auto
termination
  by (relation "inv_image (less_than <*lex*> less_than) (\<lambda>(cr, p, input). (length input, progress_rank p))")
    (auto dest: round_advanced [OF disjI1])

declare payload_poll.simps [simp del]

lemma poll_advanced:
  "payload_poll cr p input = (Some (Inr d), p', input') \<Longrightarrow>
    length input' < length input \<or> length input' = length input \<and> progress_rank p' < progress_rank p"
proof (induction cr p input rule: payload_poll.induct)
  case (1 cr p input)
  show ?case
  proof (cases "round_of cr p input")
    case (Continue q i)
    then have "length input' < length i \<or> length input' = length i \<and> progress_rank p' < progress_rank q"
      using 1 by (subst (asm) payload_poll.simps) simp
    then show ?thesis using round_advanced [OF disjI1, OF Continue] by linarith
  next
    case (Ready item q i)
    then have "item = Some (Inr d)" "q = p'" "i = input'" using 1(2) by (subst (asm) payload_poll.simps, simp)+
    then show ?thesis using round_advanced [OF disjI2] Ready by blast
  qed
qed

text \<open>What a consumer gets that polls until the end or the first error: the data, the error, and the payload left.\<close>

function payload_run ::
    "crypto \<Rightarrow> S3StreamingPayload \<Rightarrow> (PayloadError + bytes) list \<Rightarrow> bytes list \<times> PayloadError option \<times> S3StreamingPayload" where
  "payload_run cr p input =
     (case payload_poll cr p input of
        (None, p', _) \<Rightarrow> ([], None, p')
      | (Some (Inl e), p', _) \<Rightarrow> ([], Some e, p')
      | (Some (Inr data), p', input') \<Rightarrow> apfst ((#) data) (payload_run cr p' input'))"
  by pat_completeness auto
termination
  by (relation "inv_image (less_than <*lex*> less_than) (\<lambda>(cr, p, input). (length input, progress_rank p))")
    (auto dest!: poll_advanced [OF sym])

declare payload_run.simps [simp del]

lemma payload_run_round:
  "payload_run cr p input =
     (case round_of cr p input of
        Continue p' input' \<Rightarrow> payload_run cr p' input'
      | Ready None p' _ \<Rightarrow> ([], None, p')
      | Ready (Some (Inl e)) p' _ \<Rightarrow> ([], Some e, p')
      | Ready (Some (Inr data)) p' input' \<Rightarrow> apfst ((#) data) (payload_run cr p' input'))"
proof (cases "round_of cr p input")
  case (Continue p' input')
  then have "payload_poll cr p input = payload_poll cr p' input'" by (subst payload_poll.simps) simp
  then show ?thesis using Continue by (simp add: payload_run.simps [of cr p] payload_run.simps [of cr p'])
next
  case (Ready item p' input')
  then have "payload_poll cr p input = (item, p', input')" by (subst payload_poll.simps) simp
  then show ?thesis using Ready by (subst payload_run.simps) (simp split: option.split sum.split)
qed

section \<open>Checksums of a streamed body\<close>

text \<open>The headers of a request, by lower-case name; a value is text if its bytes are printable ASCII or tabs.\<close>

type_synonym header_map = "string \<Rightarrow> bytes option"

definition to_str :: "bytes \<Rightarrow> string option" where
  "to_str v = (if list_all (\<lambda>b. b = 9 \<or> 32 \<le> b \<and> b < 127) v then Some (as_str v) else None)"

definition is_streaming_request :: "header_map \<Rightarrow> bool" where
  "is_streaming_request h =
     (if h ''x-amz-decoded-content-length'' \<noteq> None then True
      else if h ''x-amz-trailer'' \<noteq> None then True
      else case Option.bind (h ''x-amz-content-sha256'') to_str of
          Some v \<Rightarrow> v = ''STREAMING-UNSIGNED-PAYLOAD-TRAILER'' \<or> strip_prefix ''STREAMING-'' v \<noteq> None
        | None \<Rightarrow> False)"

definition new_payload ::
    "bool \<Rightarrow> (ChunkSignatureContext \<times> string option) option \<Rightarrow> S3StreamingPayload" where
  "new_payload is_streaming signature_info =
     \<lparr>sp_state = (if is_streaming then ReadingChunkSize else ReadingChunkData usize_MAX None),
      trailer_buffer = [], checksum_sender = True, checksum_sent = [],
      signature_context = map_option fst signature_info,
      previous_signature = Option.bind signature_info snd, current_chunk_buffer = []\<rparr>"

end
