(* ===== verification/Aws_Roundtrip.thy ===== *)
theory Aws_Roundtrip
  imports Aws_Streaming
begin

text \<open>
  What the decoder of aws-chunked uploads promises and what it does not: every body encoded by
  \<open>create_streaming_body\<close> is decoded intact, however the network cuts it, and the ways in which parts
  of an upload escape its checks.
\<close>

section \<open>Text of a chunk header\<close>

lemma as_str_as_bytes [simp]: "as_str (as_bytes s) = s"
proof -
  have "unat (of_char c :: u8) = of_char c" for c
  proof -
    have "(of_char c :: u8) = word_of_nat (of_char c)" by (simp add: of_nat_of_char)
    moreover have "(of_char c :: nat) < 256" by simp
    ultimately show ?thesis by (simp add: unat_of_nat)
  qed
  then show ?thesis by (simp add: as_str_def as_bytes_def comp_def)
qed

lemma length_as_bytes [simp]: "length (as_bytes s) = length s"
  by (simp add: as_bytes_def)

lemma utf8_ascii: "list_all (\<lambda>b. b < 128) bs \<Longrightarrow> utf8_seq bs"
  by (induction bs) simp_all

definition hex_chars :: "char set" where
  "hex_chars = set ''0123456789abcdef''"

lemma ascii_from_utf8:
  assumes "\<forall>c \<in> set s. (of_char c :: nat) < 128"
  shows "from_utf8 (as_bytes s) = Some s"
proof -
  have "unat (of_char c :: u8) < 128" if "c \<in> set s" for c
  proof -
    have "(of_char c :: u8) = word_of_nat (of_char c)" by (simp add: of_nat_of_char)
    then show ?thesis using assms that by (simp add: unat_of_nat)
  qed
  then have "utf8_seq (map unat (as_bytes s))"
    by (intro utf8_ascii) (simp add: as_bytes_def list_all_iff)
  then show ?thesis by (simp add: from_utf8_def)
qed

lemma trim_from_id:
  assumes "s = [] \<or> (\<forall>w \<in> set ws. w = [] \<or> hd w \<noteq> hd s)"
  shows "trim_from ws s = s"
proof -
  have "\<not> (w \<noteq> [] \<and> strip_prefix w s \<noteq> None)" if "w \<in> set ws" for w
    using assms that by (cases w) (auto simp: strip_prefix_Some)
  then have "find (\<lambda>w. w \<noteq> [] \<and> strip_prefix w s \<noteq> None) ws = None" by (simp add: find_None_iff)
  then show ?thesis by (subst trim_from.simps) simp
qed

lemma white_space_not_hex:
  "\<forall>w \<in> set white_space. w \<noteq> [] \<and> hd w \<notin> hex_chars" "\<forall>w \<in> set (map rev white_space). w \<noteq> [] \<and> hd w \<notin> hex_chars"
  by (code_simp, code_simp)

lemma trim_hex:
  assumes "set s \<subseteq> hex_chars" shows "trim s = s"
proof -
  have no_ws: "trim_from ws t = t" if "\<forall>w \<in> set ws. w \<noteq> [] \<and> hd w \<notin> hex_chars" "set t \<subseteq> hex_chars" for ws t
  proof (rule trim_from_id)
    show "t = [] \<or> (\<forall>w \<in> set ws. w = [] \<or> hd w \<noteq> hd t)" using that by (cases t) auto
  qed
  have "trim_from white_space s = s" "trim_from (map rev white_space) (rev s) = rev s"
    using no_ws [OF white_space_not_hex(1) assms] no_ws [OF white_space_not_hex(2), of "rev s"] assms by simp_all
  then show ?thesis by (simp add: trim_def)
qed

lemma hex_digit_char: "hex_digit n \<in> hex_chars"
  using hex_digit_set by (simp add: hex_chars_def)

lemma set_hex_str: "set (hex_str n) \<subseteq> hex_chars"
proof (induction n rule: hex_str.induct)
  case (1 n)
  then show ?case by (subst hex_str.simps) (simp add: hex_digit_char)
qed

lemma hex_str_nonempty [simp]: "hex_str n \<noteq> []"
  by (subst hex_str.simps) simp

lemma parse_hex_str: "parse_hex 0 (hex_str n) = Some n"
proof (induction n rule: hex_str.induct)
  case (1 n)
  show ?case
  proof (cases "n < 16")
    case True
    then show ?thesis by (subst hex_str.simps) (simp add: to_digit16_hex_digit)
  next
    case False
    then have "parse_hex 0 (hex_str n) = parse_hex (n div 16) [hex_digit (n mod 16)]"
      using 1 by (subst hex_str.simps) (simp add: parse_hex_append)
    then show ?thesis by (simp add: to_digit16_hex_digit)
  qed
qed

lemma punctuation_not_hex: "CHR '';'' \<notin> hex_chars" "CHR ''+'' \<notin> hex_chars" "CHR ''-'' \<notin> hex_chars"
  unfolding hex_chars_def by code_simp+

lemma from_str_hex_str:
  assumes "n < 2 ^ 64" shows "from_str_radix16 64 (hex_str n) = Some n"
proof -
  have "hd (hex_str n) \<in> hex_chars" using set_hex_str [of n] by (meson hd_in_set hex_str_nonempty subsetD)
  then have "hd (hex_str n) \<noteq> CHR ''+''" "hd (hex_str n) \<noteq> CHR ''-''" using punctuation_not_hex by metis+
  then have "hex_str n \<noteq> ''+''" "hex_str n \<noteq> ''-''" by auto
  then show ?thesis
    using assms \<open>hd (hex_str n) \<noteq> CHR ''+''\<close> by (simp add: from_str_radix16_def parse_hex_str)
qed

lemma semicolon_not_hex: "set s \<subseteq> hex_chars \<Longrightarrow> CHR '';'' \<notin> set s"
  using punctuation_not_hex(1) by blast

lemma header_chars:
  "\<forall>c \<in> set ''0123456789abcdef;chunk-signature=''. (of_char c :: nat) < 128 \<and> (of_char c :: u8) \<noteq> 13"
  by code_simp

lemma parse_chunk_signature_ext:
  assumes "CHR '';'' \<notin> set a" "CHR '';'' \<notin> set ext" "strip_prefix ''chunk-signature='' ext = Some sg"
  shows "parse_chunk_signature (a @ CHR '';'' # ext) = Some \<lparr>cs_signature = trim sg\<rparr>"
  unfolding parse_chunk_signature_def split_once_append [OF assms(1)] option.case prod.case split_on_notin [OF assms(2)]
  by (simp add: List.map_filter_def assms(3))

lemma header_char_sets:
  "hex_chars \<subseteq> set ''0123456789abcdef;chunk-signature=''" "set '';chunk-signature='' \<subseteq> set ''0123456789abcdef;chunk-signature=''"
  unfolding hex_chars_def by code_simp+

lemma header_text:
  assumes "n < 2 ^ 64" "set sg \<subseteq> hex_chars"
  shows "from_utf8 (chunk_header n sg) = Some (hex_str n @ '';chunk-signature='' @ sg)"
    "from_str_radix16 64 (trim (hd (split_on (CHR '';'') (hex_str n @ '';chunk-signature='' @ sg)))) = Some n"
    "parse_chunk_signature (hex_str n @ '';chunk-signature='' @ sg) = Some \<lparr>cs_signature = sg\<rparr>"
    "13 \<notin> set (chunk_header n sg)"
proof -
  let ?text = "hex_str n @ '';chunk-signature='' @ sg"
  have chars: "set ?text \<subseteq> set ''0123456789abcdef;chunk-signature=''"
    unfolding set_append using header_char_sets subset_trans [OF set_hex_str [of n]] subset_trans [OF assms(2)]
    by (intro Un_least) blast+
  have ascii: "\<forall>c \<in> set ?text. (of_char c :: nat) < 128" "\<forall>c \<in> set ?text. (of_char c :: u8) \<noteq> 13"
    using header_chars subsetD [OF chars] by blast+
  show "from_utf8 (chunk_header n sg) = Some ?text" unfolding chunk_header_def by (rule ascii_from_utf8 [OF ascii(1)])
  have "(13 :: u8) \<notin> of_char ` S" if "\<forall>c \<in> S. (of_char c :: u8) \<noteq> 13" for S :: "char set" using that by auto
  from this [OF ascii(2)] show "13 \<notin> set (chunk_header n sg)" unfolding chunk_header_def as_bytes_def set_map .
  have semi: "CHR '';'' \<notin> set (hex_str n)" "CHR '';'' \<notin> set (''chunk-signature='' @ sg)"
    using semicolon_not_hex [OF set_hex_str [of n]] semicolon_not_hex [OF assms(2)] by simp_all
  have form: "?text = hex_str n @ CHR '';'' # (''chunk-signature='' @ sg)" by simp
  show "from_str_radix16 64 (trim (hd (split_on (CHR '';'') ?text))) = Some n"
    unfolding form split_on_append [OF semi(1)] list.sel trim_hex [OF set_hex_str] by (rule from_str_hex_str [OF assms(1)])
  show "parse_chunk_signature ?text = Some \<lparr>cs_signature = sg\<rparr>"
    unfolding form parse_chunk_signature_ext [OF semi strip_prefix_append] trim_hex [OF assms(2)] ..
qed

section \<open>The stages of a chunk\<close>

lemma window_append: "window_position pat xs = Some i \<Longrightarrow> window_position pat (xs @ ys) = Some i"
proof (induction xs arbitrary: i)
  case (Cons x xs)
  have "length pat \<le> length (x # xs)" using window_end [OF Cons.prems] by simp
  then have "take (length pat) ((x # xs) @ ys) = take (length pat) (x # xs)" unfolding take_append by simp
  then show ?case using Cons by (auto split: if_splits)
qed simp

lemma window_first:
  assumes "c \<notin> set xs"
  shows "window_position (c # pat) (xs @ (c # pat) @ ys) = Some (length xs)"
  using assms by (induction xs) auto

lemma window_CRLF_first: "13 \<notin> set line \<Longrightarrow> window_position CRLF (line @ CRLF @ rest) = Some (length line)"
  unfolding CRLF_def by (rule window_first)

lemma window_short: "length xs < length pat \<Longrightarrow> window_position pat xs = None"
  using window_end [of pat xs] by (cases "window_position pat xs") auto

text \<open>
  In each stage the bytes still to be read, buffered or in segments \<open>segs\<close> of the payload, start with
  what the stage is waiting for; it ends in the next state, with the rest still to be read.
\<close>

lemma append_longer:
  assumes "xs @ ys = as @ bs" "length as \<le> length xs"
  shows "\<exists>t. xs = as @ t \<and> t @ ys = bs"
proof -
  have "take (length as) xs = as" "drop (length as) xs @ ys = bs"
    using arg_cong [OF assms(1), of "take (length as)"] arg_cong [OF assms(1), of "drop (length as)"] assms(2) by simp_all
  then show ?thesis by (metis append_take_drop_id)
qed

lemma size_stage:
  assumes "13 \<notin> set line" "from_utf8 line = Some l" "from_str_radix16 64 (trim (hd (split_on (CHR '';'') l))) = Some n"
    and "sp_state p = ReadingChunkSize" "trailer_buffer p @ concat segs = line @ CRLF @ rest"
  shows "\<exists>buf segs'. buf @ concat segs' = rest \<and> payload_run cr p (map Inr segs) =
    payload_run cr (p\<lparr>trailer_buffer := buf,
      sp_state := if n = 0 then ReadingTrailers else ReadingChunkData n (parse_chunk_signature l)\<rparr>) (map Inr segs')"
  using assms(4,5)
proof (induction segs arbitrary: p)
  case Nil
  then have b: "trailer_buffer p = line @ CRLF @ rest" "window_position CRLF (trailer_buffer p) = Some (length line)"
    using window_CRLF_first [OF assms(1)] by simp_all
  then have "round_of cr p [] = Continue (p\<lparr>trailer_buffer := rest,
      sp_state := if n = 0 then ReadingTrailers else ReadingChunkData n (parse_chunk_signature l)\<rparr>) []"
    using Nil assms(2,3) by (simp add: round_of_def take_chunk_header_def CRLF_def)
  then show ?case by (intro exI [of _ rest] exI [of _ "[]"]) (subst payload_run_round, simp)
next
  case (Cons d segs)
  let ?buf = "trailer_buffer p @ d"
  let ?p = "p\<lparr>trailer_buffer := ?buf\<rparr>"
  show ?case
  proof (cases "window_position CRLF ?buf")
    case None
    then have "round_of cr p (map Inr (d # segs)) = Continue ?p (map Inr segs)"
      using Cons.prems by (simp add: round_of_def Let_def)
    then show ?thesis using Cons.IH [of ?p] Cons.prems by (subst payload_run_round) simp
  next
    case (Some i)
    have total: "?buf @ concat segs = line @ CRLF @ rest" using Cons.prems(2) by simp
    have i: "i = length line"
      using window_append [OF Some, of "concat segs"] window_CRLF_first [OF assms(1), of rest] unfolding total by simp
    have "length line + 2 \<le> length ?buf" using window_CRLF [OF Some] i by simp
    then obtain tl where tl: "?buf = line @ CRLF @ tl" "tl @ concat segs = rest"
      using append_longer [of ?buf "concat segs" "line @ CRLF" rest] total by (auto simp: CRLF_def)
    have "round_of cr p (map Inr (d # segs)) = Continue (p\<lparr>trailer_buffer := tl,
        sp_state := if n = 0 then ReadingTrailers else ReadingChunkData n (parse_chunk_signature l)\<rparr>) (map Inr segs)"
      using Cons.prems(1) assms(2,3) Some i by (simp add: round_of_def take_chunk_header_def Let_def tl(1) CRLF_def)
    then show ?thesis using tl(2) by (intro exI [of _ tl] exI [of _ segs]) (subst payload_run_round, simp)
  qed
qed

lemma take_across:
  assumes "b @ c = d @ rest"
  shows "take (length d) b = take (length (take (length d) b)) d"
    "drop (length d) b @ c = drop (length (take (length d) b)) d @ rest"
  using arg_cong [OF assms, of "take (min (length d) (length b))"] arg_cong [OF assms, of "drop (min (length d) (length b))"]
  by (auto simp: min_def split: if_splits)

text \<open>The next bytes of a chunk come from the buffer, or from the next segment.\<close>

lemma data_round:
  assumes "sp_state p = ReadingChunkData (length d) sg" "length d < usize_MAX" "trailer_buffer p @ concat segs = d @ rest" "d \<noteq> []"
  shows "\<exists>now buf segs1. buf @ concat segs1 = drop (length now) d @ rest \<and> now = take (length now) d \<and>
    length d - length now + length segs1 < length d + length segs \<and>
    round_of cr p (map Inr segs) = yield_data now (length d) sg (p\<lparr>trailer_buffer := buf\<rparr>) (map Inr segs1)"
proof (cases "trailer_buffer p = []")
  case True
  then obtain x xs where segs: "segs = x # xs" using assms(3,4) by (cases segs) auto
  have "round_of cr p (map Inr segs) =
      yield_data (take (length d) x) (length d) sg (p\<lparr>trailer_buffer := drop (length d) x\<rparr>) (map Inr xs)"
    using assms(1,2,4) True segs by (simp add: round_of_def reading_chunk_data_def)
  moreover have "x @ concat xs = d @ rest" using assms(3) True segs by simp
  moreover have "length d - length (take (length d) x) + length xs < length d + length segs" using segs by simp
  ultimately show ?thesis using take_across [of x "concat xs" d rest] by blast
next
  case False
  let ?b = "trailer_buffer p"
  have "round_of cr p (map Inr segs) =
      yield_data (take (length d) ?b) (length d) sg (p\<lparr>trailer_buffer := drop (length d) ?b\<rparr>) (map Inr segs)"
    using assms(1,2,4) False by (simp add: round_of_def reading_chunk_data_def)
  moreover have "length d - length (take (length d) ?b) + length segs < length d + length segs"
    using False assms(4) by (cases ?b; cases d) (auto simp: min_def)
  ultimately show ?thesis using take_across [OF assms(3)] by blast
qed

lemma data_stage:
  assumes "sp_state p = ReadingChunkData (length d) sg" "length d < usize_MAX" "trailer_buffer p @ concat segs = d @ rest"
  shows "\<exists>buf segs' items. buf @ concat segs' = rest \<and> concat items = d \<and> payload_run cr p (map Inr segs) =
    apfst ((@) items) (payload_run cr (p\<lparr>trailer_buffer := buf, sp_state := ReadingChunkData 0 sg,
      current_chunk_buffer := current_chunk_buffer p @ (if signature_context p = None then [] else d),
      checksum_sent := checksum_sent p @ (if checksum_sender p then map Data items else [])\<rparr>) (map Inr segs'))"
  using assms
proof (induction "length d + length segs" arbitrary: d p segs rule: less_induct)
  case less
  show ?case
  proof (cases "d = []")
    case True
    have same: "p\<lparr>trailer_buffer := trailer_buffer p, sp_state := ReadingChunkData 0 sg,
        current_chunk_buffer := current_chunk_buffer p @ (if signature_context p = None then [] else d),
        checksum_sent := checksum_sent p @ (if checksum_sender p then map Data [] else [])\<rparr> = p"
      using less.prems(1) True by (cases p) simp
    have "apfst ((@) []) x = x" for x :: "bytes list \<times> PayloadError option \<times> S3StreamingPayload" by (cases x) simp
    then have "payload_run cr p (map Inr segs) =
      apfst ((@) []) (payload_run cr (p\<lparr>trailer_buffer := trailer_buffer p, sp_state := ReadingChunkData 0 sg,
        current_chunk_buffer := current_chunk_buffer p @ (if signature_context p = None then [] else d),
        checksum_sent := checksum_sent p @ (if checksum_sender p then map Data [] else [])\<rparr>) (map Inr segs))"
      unfolding same by simp
    moreover have "trailer_buffer p @ concat segs = rest" "concat [] = d" using less.prems True by simp_all
    ultimately show ?thesis by blast
  next
    case False
    then obtain now buf segs1 where now: "buf @ concat segs1 = drop (length now) d @ rest" "now = take (length now) d"
      "length d - length now + length segs1 < length d + length segs"
      "round_of cr p (map Inr segs) = yield_data now (length d) sg (p\<lparr>trailer_buffer := buf\<rparr>) (map Inr segs1)"
      using data_round [OF less.prems False, of cr] by blast
    let ?rest = "drop (length now) d"
    define p1 where "p1 = p\<lparr>trailer_buffer := buf,
      current_chunk_buffer := current_chunk_buffer p @ (if signature_context p = None then [] else now),
      checksum_sent := checksum_sent p @ (if checksum_sender p then [Data now] else []), sp_state := ReadingChunkData (length ?rest) sg\<rparr>"
    have prems: "length ?rest + length segs1 < length d + length segs" "sp_state p1 = ReadingChunkData (length ?rest) sg"
      "length ?rest < usize_MAX" "trailer_buffer p1 @ concat segs1 = ?rest @ rest"
      using now(1,3) less.prems(2) by (simp_all add: p1_def)
    have "payload_run cr p (map Inr segs) = apfst ((#) now) (payload_run cr p1 (map Inr segs1))"
      unfolding payload_run_round [of cr p] now(4) by (simp add: yield_data_def p1_def send_message_def Let_def)
    moreover obtain buf' segs' items where "buf' @ concat segs' = rest" "concat items = ?rest"
      "payload_run cr p1 (map Inr segs1) =
        apfst ((@) items) (payload_run cr (p1\<lparr>trailer_buffer := buf', sp_state := ReadingChunkData 0 sg,
          current_chunk_buffer := current_chunk_buffer p1 @ (if signature_context p1 = None then [] else ?rest),
          checksum_sent := checksum_sent p1 @ (if checksum_sender p1 then map Data items else [])\<rparr>) (map Inr segs'))"
      using less.hyps [OF prems] by blast
    moreover have "now @ ?rest = d" using now(2) by (metis append_take_drop_id)
    ultimately have "payload_run cr p (map Inr segs) =
      apfst ((@) (now # items)) (payload_run cr (p\<lparr>trailer_buffer := buf', sp_state := ReadingChunkData 0 sg,
        current_chunk_buffer := current_chunk_buffer p @ (if signature_context p = None then [] else d),
        checksum_sent := checksum_sent p @ (if checksum_sender p then map Data (now # items) else [])\<rparr>) (map Inr segs'))"
      "buf' @ concat segs' = rest" "concat (now # items) = d"
      by (auto simp: p1_def apfst_def map_prod_def split: prod.split)
    then show ?thesis by blast
  qed
qed

lemma end_stage:
  assumes "sp_state p = ReadingChunkEnd" "trailer_buffer p @ concat segs = CRLF @ rest"
  shows "\<exists>buf segs'. buf @ concat segs' = rest \<and> payload_run cr p (map Inr segs) =
    payload_run cr (p\<lparr>trailer_buffer := buf, sp_state := ReadingChunkSize\<rparr>) (map Inr segs')"
  using assms
proof (induction segs arbitrary: p)
  case Nil
  then have "round_of cr p [] = Continue (p\<lparr>trailer_buffer := rest, sp_state := ReadingChunkSize\<rparr>) []"
    by (simp add: round_of_def reading_chunk_end_def take_chunk_end_def CRLF_def)
  then show ?case by (intro exI [of _ rest] exI [of _ "[]"]) (subst payload_run_round, simp)
next
  case (Cons d segs)
  have found: ?case if h: "2 \<le> length b" "b @ concat segs' = CRLF @ rest"
    "round_of cr p (map Inr (d # segs)) = take_chunk_end (p\<lparr>trailer_buffer := b\<rparr>) (map Inr segs')" for b segs'
  proof -
    have "length CRLF \<le> length b" using h(1) by (simp add: CRLF_def)
    then obtain t where "b = CRLF @ t" "t @ concat segs' = rest" using append_longer [OF h(2)] by blast
    moreover from this have "round_of cr p (map Inr (d # segs)) =
        Continue (p\<lparr>trailer_buffer := t, sp_state := ReadingChunkSize\<rparr>) (map Inr segs')"
      using h(3) by (simp add: take_chunk_end_def CRLF_def)
    ultimately show ?thesis by (intro exI [of _ t] exI [of _ segs']) (subst payload_run_round, simp)
  qed
  consider "2 \<le> length (trailer_buffer p)" | "length (trailer_buffer p) < 2" "2 \<le> length (trailer_buffer p @ d)"
    | "length (trailer_buffer p @ d) < 2" by fastforce
  then show ?case
  proof cases
    case 1
    then show ?thesis using found [of "trailer_buffer p" "d # segs"] Cons.prems by (simp add: round_of_def reading_chunk_end_def)
  next
    case 2
    then show ?thesis
      using found [of "trailer_buffer p @ d" segs] Cons.prems by (simp add: round_of_def reading_chunk_end_def)
  next
    case 3
    then have "round_of cr p (map Inr (d # segs)) = Continue (p\<lparr>trailer_buffer := trailer_buffer p @ d\<rparr>) (map Inr segs)"
      using Cons.prems by (simp add: round_of_def reading_chunk_end_def take_chunk_end_def)
    then show ?thesis
      using Cons.IH [of "p\<lparr>trailer_buffer := trailer_buffer p @ d\<rparr>"] Cons.prems by (subst payload_run_round) simp
  qed
qed

lemma trailer_stage:
  assumes "sp_state p = ReadingTrailers" "length (trailer_buffer p @ concat segs) < 4"
  shows "\<exists>buf. payload_run cr p (map Inr segs) = ([], None, finish (p\<lparr>trailer_buffer := buf\<rparr>))"
  using assms
proof (induction segs arbitrary: p)
  case Nil
  then show ?case by (subst payload_run_round) (auto simp: round_of_def intro: exI [of _ "trailer_buffer p"])
next
  case (Cons d segs)
  have "window_position (CRLF @ CRLF) (trailer_buffer p @ d) = None"
    using Cons.prems(2) by (intro window_short) (simp add: CRLF_def)
  then have "round_of cr p (map Inr (d # segs)) = Continue (p\<lparr>trailer_buffer := trailer_buffer p @ d\<rparr>) (map Inr segs)"
    using Cons.prems(1) by (simp add: round_of_def Let_def)
  then show ?case
    using Cons.IH [of "p\<lparr>trailer_buffer := trailer_buffer p @ d\<rparr>"] Cons.prems by (subst payload_run_round) simp
qed

section \<open>One chunk\<close>

text \<open>The bytes of a chunk with header \<open>line\<close> and data \<open>d\<close> are consumed; its header asks for signature \<open>sg\<close>.\<close>

definition chunk_text :: "bytes \<Rightarrow> bytes \<Rightarrow> ChunkSignature option \<Rightarrow> bool" where
  "chunk_text line d sg \<longleftrightarrow>
     13 \<notin> set line \<and> d \<noteq> [] \<and> length d < usize_MAX \<and>
     (\<exists>l. from_utf8 line = Some l \<and> from_str_radix16 64 (trim (hd (split_on (CHR '';'') l))) = Some (length d) \<and>
        parse_chunk_signature l = sg)"

definition sent_data :: "bytes list \<Rightarrow> S3StreamingPayload \<Rightarrow> S3StreamingPayload" where
  "sent_data items p = p\<lparr>checksum_sent := checksum_sent p @ (if checksum_sender p then map Data items else [])\<rparr>"

lemma chunk_read:
  assumes "chunk_text line d sg" "sp_state p = ReadingChunkSize" "current_chunk_buffer p = []"
    and "trailer_buffer p @ concat segs = line @ CRLF @ d @ rest"
  shows "\<exists>buf segs' items. buf @ concat segs' = rest \<and> concat items = d \<and> payload_run cr p (map Inr segs) =
    apfst ((@) items) (payload_run cr (sent_data items (p\<lparr>trailer_buffer := buf, sp_state := ReadingChunkData 0 sg,
      current_chunk_buffer := (if signature_context p = None then [] else d)\<rparr>)) (map Inr segs'))"
proof -
  obtain l where l: "13 \<notin> set line" "d \<noteq> []" "length d < usize_MAX" "from_utf8 line = Some l"
    "from_str_radix16 64 (trim (hd (split_on (CHR '';'') l))) = Some (length d)" "parse_chunk_signature l = sg"
    using assms(1) unfolding chunk_text_def by blast
  obtain buf1 segs1 where s1: "buf1 @ concat segs1 = d @ rest" "payload_run cr p (map Inr segs) =
      payload_run cr (p\<lparr>trailer_buffer := buf1, sp_state := ReadingChunkData (length d) sg\<rparr>) (map Inr segs1)"
    using size_stage [OF l(1,4,5) assms(2,4), of cr] l(2,6) by auto
  define p1 where "p1 = p\<lparr>trailer_buffer := buf1, sp_state := ReadingChunkData (length d) sg\<rparr>"
  have p1: "sp_state p1 = ReadingChunkData (length d) sg" "trailer_buffer p1 @ concat segs1 = d @ rest"
    using s1(1) by (simp_all add: p1_def)
  obtain buf segs' items where "buf @ concat segs' = rest" "concat items = d" "payload_run cr p1 (map Inr segs1) =
      apfst ((@) items) (payload_run cr (p1\<lparr>trailer_buffer := buf, sp_state := ReadingChunkData 0 sg,
        current_chunk_buffer := current_chunk_buffer p1 @ (if signature_context p1 = None then [] else d),
        checksum_sent := checksum_sent p1 @ (if checksum_sender p1 then map Data items else [])\<rparr>) (map Inr segs'))"
    using data_stage [OF p1(1) l(3) p1(2), of cr] by blast
  moreover have "p1\<lparr>trailer_buffer := buf, sp_state := ReadingChunkData 0 sg,
      current_chunk_buffer := current_chunk_buffer p1 @ (if signature_context p1 = None then [] else d),
      checksum_sent := checksum_sent p1 @ (if checksum_sender p1 then map Data items else [])\<rparr> =
    sent_data items (p\<lparr>trailer_buffer := buf, sp_state := ReadingChunkData 0 sg,
      current_chunk_buffer := (if signature_context p = None then [] else d)\<rparr>)"
    using assms(3) by (simp add: p1_def sent_data_def)
  ultimately show ?thesis unfolding s1(2) p1_def [symmetric] by metis
qed

text \<open>The signature of a chunk is checked where the request is signed and the header carries one.\<close>

definition signature_checked ::
    "crypto \<Rightarrow> S3StreamingPayload \<Rightarrow> ChunkSignature option \<Rightarrow> bytes \<Rightarrow> SignatureError + string option" where
  "signature_checked cr p sg d =
     (case (signature_context p, sg, previous_signature p) of
        (Some ctx, Some c, Some prev) \<Rightarrow> map_sum id (\<lambda>_. Some (cs_signature c)) (verify_chunk_signature cr ctx c prev d)
      | _ \<Rightarrow> Inr (previous_signature p))"

lemma chunk_accepted:
  assumes "chunk_text line d sg" "sp_state p = ReadingChunkSize" "current_chunk_buffer p = []"
    and "trailer_buffer p @ concat segs = line @ CRLF @ d @ CRLF @ rest" "signature_checked cr p sg d = Inr prev"
  shows "\<exists>buf segs' items. buf @ concat segs' = rest \<and> concat items = d \<and> payload_run cr p (map Inr segs) =
    apfst ((@) items) (payload_run cr (sent_data items (p\<lparr>trailer_buffer := buf, previous_signature := prev\<rparr>)) (map Inr segs'))"
proof -
  obtain buf1 segs1 items where s1: "buf1 @ concat segs1 = CRLF @ rest" "concat items = d" "payload_run cr p (map Inr segs) =
      apfst ((@) items) (payload_run cr (sent_data items (p\<lparr>trailer_buffer := buf1, sp_state := ReadingChunkData 0 sg,
        current_chunk_buffer := (if signature_context p = None then [] else d)\<rparr>)) (map Inr segs1))"
    using chunk_read [OF assms(1-4), of cr] by blast
  define p1 where "p1 = sent_data items (p\<lparr>trailer_buffer := buf1, sp_state := ReadingChunkData 0 sg,
    current_chunk_buffer := (if signature_context p = None then [] else d)\<rparr>)"
  define p2 where "p2 = sent_data items (p\<lparr>trailer_buffer := buf1, previous_signature := prev, sp_state := ReadingChunkEnd\<rparr>)"
  have "0 \<noteq> usize_MAX" using assms(1) by (auto simp: chunk_text_def)
  then have "round_of cr p1 (map Inr segs1) = Continue p2 (map Inr segs1)"
    using assms(3,5)
    by (auto simp: round_of_def reading_chunk_data_def chunk_done_def p1_def p2_def sent_data_def signature_checked_def Let_def
        map_sum_def split: option.splits sum.splits)
  then have r: "payload_run cr p1 (map Inr segs1) = payload_run cr p2 (map Inr segs1)" by (subst payload_run_round) simp
  have "sp_state p2 = ReadingChunkEnd" "trailer_buffer p2 @ concat segs1 = CRLF @ rest"
    using s1(1) by (simp_all add: p2_def sent_data_def)
  from end_stage [OF this, of cr] obtain buf segs' where "buf @ concat segs' = rest"
    "payload_run cr p2 (map Inr segs1) = payload_run cr (p2\<lparr>trailer_buffer := buf, sp_state := ReadingChunkSize\<rparr>) (map Inr segs')"
    by blast
  moreover have "p2\<lparr>trailer_buffer := buf, sp_state := ReadingChunkSize\<rparr> = sent_data items (p\<lparr>trailer_buffer := buf, previous_signature := prev\<rparr>)"
    using assms(2) by (cases p) (simp add: p2_def sent_data_def)
  ultimately show ?thesis using s1(2,3) r unfolding p1_def [symmetric] by metis
qed

lemma chunk_rejected:
  assumes "chunk_text line d sg" "sp_state p = ReadingChunkSize" "current_chunk_buffer p = []"
    and "trailer_buffer p @ concat segs = line @ CRLF @ d @ rest" "signature_checked cr p sg d = Inl e"
  shows "\<exists>items p'. concat items = d \<and> payload_run cr p (map Inr segs) = (items, Some EncodingCorrupted, p') \<and>
    (checksum_sender p \<longrightarrow> checksum_sent p' = checksum_sent p @ map Data items @ [StreamError ''Chunk signature verification failed''])"
proof -
  obtain buf1 segs1 items where s1: "concat items = d" "payload_run cr p (map Inr segs) =
      apfst ((@) items) (payload_run cr (sent_data items (p\<lparr>trailer_buffer := buf1, sp_state := ReadingChunkData 0 sg,
        current_chunk_buffer := (if signature_context p = None then [] else d)\<rparr>)) (map Inr segs1))"
    using chunk_read [OF assms(1-4), of cr] by blast
  define p1 where "p1 = sent_data items (p\<lparr>trailer_buffer := buf1, sp_state := ReadingChunkData 0 sg,
    current_chunk_buffer := (if signature_context p = None then [] else d)\<rparr>)"
  have "0 \<noteq> usize_MAX" using assms(1) by (auto simp: chunk_text_def)
  then have "round_of cr p1 (map Inr segs1) =
      fail_with EncodingCorrupted ''Chunk signature verification failed'' p1 (map Inr segs1)"
    using assms(5)
    by (auto simp: round_of_def reading_chunk_data_def chunk_done_def p1_def sent_data_def signature_checked_def Let_def
        map_sum_def split: option.splits sum.splits)
  then have "payload_run cr p1 (map Inr segs1) = ([], Some EncodingCorrupted, send_error ''Chunk signature verification failed'' p1)"
    by (subst payload_run_round) (simp add: fail_with_def)
  then show ?thesis using s1 unfolding p1_def [symmetric] by (auto simp: p1_def sent_data_def send_error_def)
qed

section \<open>A whole upload\<close>

text \<open>What the \<open>hex\<close> crate documents: lower-case digits, and decoding undoes encoding.\<close>

definition hex_codec :: "crypto \<Rightarrow> bool" where
  "hex_codec cr \<longleftrightarrow> (\<forall>b. set (hex_encode cr b) \<subseteq> hex_chars \<and> hex_decode cr (hex_encode cr b) = Inr b)"

lemma signed_chunk_text:
  assumes "d \<noteq> []" "length d < usize_MAX" "set sg \<subseteq> hex_chars"
  shows "chunk_text (chunk_header (length d) sg) d (Some \<lparr>cs_signature = sg\<rparr>)"
proof -
  have "length d < 2 ^ 64" using assms(2) by (simp add: usize_MAX_def)
  from header_text [OF this assms(3)] show ?thesis unfolding chunk_text_def using assms(1,2) by blast
qed

lemma own_signature_checked:
  assumes "hex_codec cr" "calculate_chunk_signature cr ctx prev d = Inr sg"
  shows "set sg \<subseteq> hex_chars" "verify_chunk_signature cr ctx \<lparr>cs_signature = sg\<rparr> prev d = Inr ()"
proof -
  have "hmac_key_ok cr (signing_key ctx)" and sg: "sg = hex_encode cr (hmac_sha256 cr (signing_key ctx)
      (as_bytes (chunk_string_to_sign cr (ctx_datetime ctx) (scope_string ctx) prev d)))"
    using assms(2) by (simp_all add: calculate_chunk_signature_def split: if_splits)
  then show "set sg \<subseteq> hex_chars" "verify_chunk_signature cr ctx \<lparr>cs_signature = sg\<rparr> prev d = Inr ()"
    using assms(1) by (simp_all add: hex_codec_def verify_chunk_signature_def)
qed

lemma sent_data_append: "sent_data ys (sent_data xs p) = sent_data (xs @ ys) p"
  by (cases p) (simp add: sent_data_def)

lemma sent_data_simps [simp]:
  "sp_state (sent_data xs p) = sp_state p" "trailer_buffer (sent_data xs p) = trailer_buffer p"
  "current_chunk_buffer (sent_data xs p) = current_chunk_buffer p" "signature_context (sent_data xs p) = signature_context p"
  "previous_signature (sent_data xs p) = previous_signature p" "checksum_sender (sent_data xs p) = checksum_sender p"
  "checksum_sent (sent_data xs p) = checksum_sent p @ (if checksum_sender p then map Data xs else [])"
  by (simp_all add: sent_data_def)

text \<open>The decoder before a chunk of a signed upload whose last verified signature is \<open>prev\<close>.\<close>

definition between_chunks :: "ChunkSignatureContext \<Rightarrow> string \<Rightarrow> S3StreamingPayload \<Rightarrow> bool" where
  "between_chunks ctx prev p \<longleftrightarrow>
     sp_state p = ReadingChunkSize \<and> current_chunk_buffer p = [] \<and> checksum_sender p \<and>
     signature_context p = Some ctx \<and> previous_signature p = Some prev"

lemma signed_chunks_decoded:
  assumes "hex_codec cr" "streaming_chunks cr ctx prev chunks = Inr (encoded, final)"
    and "\<forall>c \<in> set chunks. c \<noteq> [] \<and> length c < usize_MAX" "between_chunks ctx prev p"
    and "trailer_buffer p @ concat segs = encoded @ rest"
  shows "\<exists>buf segs' items p'. buf @ concat segs' = rest \<and> concat items = concat chunks \<and> between_chunks ctx final p' \<and>
    trailer_buffer p' = buf \<and> checksum_sent p' = checksum_sent p @ map Data items \<and>
    payload_run cr p (map Inr segs) = apfst ((@) items) (payload_run cr p' (map Inr segs'))"
  using assms(2-)
proof (induction chunks arbitrary: prev encoded p segs)
  case Nil
  then have "trailer_buffer p @ concat segs = rest" "between_chunks ctx final p" by simp_all
  moreover have "payload_run cr p (map Inr segs) = apfst ((@) []) (payload_run cr p (map Inr segs))"
    by (simp add: apfst_def map_prod_def split: prod.splits)
  ultimately show ?case by (intro exI conjI) (assumption | rule refl | simp)+
next
  case (Cons d chunks)
  obtain sg more_encoded where sg: "calculate_chunk_signature cr ctx prev d = Inr sg"
    and rec: "streaming_chunks cr ctx sg chunks = Inr (more_encoded, final)"
    and enc: "encoded = chunk_header (length d) sg @ CRLF @ d @ CRLF @ more_encoded"
    using Cons.prems(1) by (auto split: sum.splits)
  have htxt: "chunk_text (chunk_header (length d) sg) d (Some \<lparr>cs_signature = sg\<rparr>)"
    using Cons.prems(2) own_signature_checked(1) [OF assms(1) sg] by (intro signed_chunk_text) auto
  have checked: "signature_checked cr p (Some \<lparr>cs_signature = sg\<rparr>) d = Inr (Some sg)"
    using Cons.prems(3) own_signature_checked(2) [OF assms(1) sg] by (simp add: signature_checked_def between_chunks_def)
  have p: "sp_state p = ReadingChunkSize" "current_chunk_buffer p = []" using Cons.prems(3) by (simp_all add: between_chunks_def)
  have "trailer_buffer p @ concat segs = chunk_header (length d) sg @ CRLF @ d @ CRLF @ (more_encoded @ rest)"
    using Cons.prems(4) unfolding enc append_assoc .
  from chunk_accepted [OF htxt p this checked] obtain buf segs1 xs where one: "buf @ concat segs1 = more_encoded @ rest"
    "concat xs = d" "payload_run cr p (map Inr segs) = apfst ((@) xs)
      (payload_run cr (sent_data xs (p\<lparr>trailer_buffer := buf, previous_signature := Some sg\<rparr>)) (map Inr segs1))"
    by blast
  define p1 where "p1 = sent_data xs (p\<lparr>trailer_buffer := buf, previous_signature := Some sg\<rparr>)"
  have "between_chunks ctx sg p1" "trailer_buffer p1 @ concat segs1 = more_encoded @ rest" "checksum_sent p1 = checksum_sent p @ map Data xs"
    using Cons.prems(3) one(1) by (simp_all add: between_chunks_def p1_def)
  from Cons.IH [OF rec _ this(1,2)] this(3) Cons.prems(2) obtain buf' segs' items p' where
    "buf' @ concat segs' = rest" "concat items = concat chunks" "between_chunks ctx final p'" "trailer_buffer p' = buf'"
    "checksum_sent p' = checksum_sent p @ map Data (xs @ items)"
    "payload_run cr p1 (map Inr segs1) = apfst ((@) items) (payload_run cr p' (map Inr segs'))"
    by auto
  moreover have "apfst ((@) xs) (apfst ((@) items) r) = apfst ((@) (xs @ items)) r" for r :: "bytes list \<times> PayloadError option \<times> S3StreamingPayload"
    by (cases r) simp
  ultimately have "concat (xs @ items) = concat (d # chunks)"
    "payload_run cr p (map Inr segs) = apfst ((@) (xs @ items)) (payload_run cr p' (map Inr segs'))"
    using one(2,3) unfolding p1_def [symmetric] by simp_all
  then show ?case
    using \<open>buf' @ concat segs' = rest\<close> \<open>between_chunks ctx final p'\<close> \<open>trailer_buffer p' = buf'\<close>
      \<open>checksum_sent p' = checksum_sent p @ map Data (xs @ items)\<close> by blast
qed

lemma blocks_of_bounds: "c \<in> set (blocks_of n xs) \<Longrightarrow> c \<noteq> [] \<and> length c \<le> length xs"
proof (induction xs rule: length_induct)
  case (1 xs)
  show ?case
  proof (cases "xs = [] \<or> n = 0")
    case False
    then have "c = take n xs \<or> c \<in> set (blocks_of n (drop n xs))" using "1.prems" by (subst (asm) blocks_of.simps) auto
    then show ?thesis using "1.IH" [rule_format, of "drop n xs"] False by auto
  qed (use "1.prems" in auto)
qed

lemma streaming_chunks_total:
  "hmac_key_ok cr (signing_key ctx) \<Longrightarrow> \<exists>encoded final. streaming_chunks cr ctx prev chunks = Inr (encoded, final)"
proof (induction chunks arbitrary: prev)
  case (Cons d chunks)
  then obtain sg where "calculate_chunk_signature cr ctx prev d = Inr sg" by (simp add: calculate_chunk_signature_def)
  moreover obtain encoded final where "streaming_chunks cr ctx sg chunks = Inr (encoded, final)" using Cons by blast
  ultimately show ?case by simp
qed simp

lemma between_new_payload: "between_chunks ctx seed (new_payload True (Some (ctx, Some seed)))"
  by (simp add: between_chunks_def new_payload_def)

lemma new_payload_simps [simp]:
  "trailer_buffer (new_payload b i) = []" "checksum_sent (new_payload b i) = []" "checksum_sender (new_payload b i)"
  by (simp_all add: new_payload_def)

text \<open>The zero-sized chunk and an empty line end the upload.\<close>

lemma end_decoded:
  assumes "set sg \<subseteq> hex_chars" "sp_state p = ReadingChunkSize" "trailer_buffer p @ concat segs = chunk_header 0 sg @ CRLF @ CRLF"
  shows "\<exists>buf. payload_run cr p (map Inr segs) = ([], None, finish (p\<lparr>trailer_buffer := buf\<rparr>))"
proof -
  have h: "13 \<notin> set (chunk_header 0 sg)" "from_utf8 (chunk_header 0 sg) = Some (hex_str 0 @ '';chunk-signature='' @ sg)"
    "from_str_radix16 64 (trim (hd (split_on (CHR '';'') (hex_str 0 @ '';chunk-signature='' @ sg)))) = Some 0"
    using header_text [of 0, OF _ assms(1)] by auto
  obtain buf1 segs1 where s1: "buf1 @ concat segs1 = CRLF" "payload_run cr p (map Inr segs) =
      payload_run cr (p\<lparr>trailer_buffer := buf1, sp_state := ReadingTrailers\<rparr>) (map Inr segs1)"
    using size_stage [OF h assms(2,3), of cr] by auto
  define p1 where "p1 = p\<lparr>trailer_buffer := buf1, sp_state := ReadingTrailers\<rparr>"
  have "sp_state p1 = ReadingTrailers" "trailer_buffer p1 @ concat segs1 = CRLF" using s1(1) by (simp_all add: p1_def)
  then obtain buf where "payload_run cr p1 (map Inr segs1) = ([], None, finish (p1\<lparr>trailer_buffer := buf\<rparr>))"
    using trailer_stage [of p1 segs1 cr] by (auto simp: CRLF_def)
  moreover have "finish (p1\<lparr>trailer_buffer := buf\<rparr>) = finish (p\<lparr>trailer_buffer := buf\<rparr>)" by (simp add: p1_def finish_def)
  ultimately show ?thesis unfolding s1(2) p1_def [symmetric] by auto
qed

lemma upload_decoded:
  assumes "hex_codec cr" "streaming_chunks cr ctx seed chunks = Inr (encoded, final)" "set sg \<subseteq> hex_chars"
    and "\<forall>c \<in> set chunks. c \<noteq> [] \<and> length c < usize_MAX" "concat segs = encoded @ chunk_header 0 sg @ CRLF @ CRLF"
  shows "\<exists>items p'. payload_run cr (new_payload True (Some (ctx, Some seed))) (map Inr segs) = (items, None, p') \<and>
    concat items = concat chunks \<and> checksum_sent p' = map Data items \<and> sp_state p' = Finished"
proof -
  let ?p = "new_payload True (Some (ctx, Some seed))"
  obtain buf segs1 items p1 where one: "buf @ concat segs1 = chunk_header 0 sg @ CRLF @ CRLF" "concat items = concat chunks"
    "between_chunks ctx final p1" "trailer_buffer p1 = buf" "checksum_sent p1 = map Data items"
    "payload_run cr ?p (map Inr segs) = apfst ((@) items) (payload_run cr p1 (map Inr segs1))"
    using signed_chunks_decoded [OF assms(1,2,4) between_new_payload, of segs "chunk_header 0 sg @ CRLF @ CRLF"] assms(5) by auto
  have "sp_state p1 = ReadingChunkSize" using one(3) by (simp add: between_chunks_def)
  from end_decoded [OF assms(3) this, of segs1] one(1,4) obtain buf' where
    "payload_run cr p1 (map Inr segs1) = ([], None, finish (p1\<lparr>trailer_buffer := buf'\<rparr>))" by blast
  then show ?thesis using one(2,5,6) by (simp add: finish_def)
qed

text \<open>C23. A signed streaming body made by \<open>create_streaming_body\<close> is decoded to the bytes it encodes, without
  an error, however the network cuts it into segments: every chunk signature is accepted, all the
  bytes reach the checksum task in order, and the decoder ends in its final state.\<close>

theorem streaming_roundtrip:
  assumes "hex_codec cr" "hmac_key_ok cr (signing_key ctx)" "0 < chunk_size" "length body < usize_MAX"
  shows "\<exists>encoded. create_streaming_body cr body chunk_size ctx seed = Some (Inr encoded) \<and>
    (\<forall>segs. concat segs = encoded \<longrightarrow>
      (\<exists>items p'. payload_run cr (new_payload True (Some (ctx, Some seed))) (map Inr segs) = (items, None, p') \<and>
         concat items = body \<and> checksum_sent p' = map Data items \<and> sp_state p' = Finished))"
proof -
  obtain encoded final where chunks: "streaming_chunks cr ctx seed (blocks_of chunk_size body) = Inr (encoded, final)"
    using streaming_chunks_total [of cr ctx seed "blocks_of chunk_size body"] assms(2) by blast
  obtain sg where sg: "calculate_chunk_signature cr ctx final [] = Inr sg"
    using assms(2) by (simp add: calculate_chunk_signature_def)
  have "create_streaming_body cr body chunk_size ctx seed = Some (Inr (encoded @ chunk_header 0 sg @ CRLF @ CRLF))"
    using assms(3) chunks sg by (simp add: create_streaming_body_def)
  moreover have "\<forall>c \<in> set (blocks_of chunk_size body). c \<noteq> [] \<and> length c < usize_MAX"
    using blocks_of_bounds [of _ chunk_size body] assms(4) by fastforce
  ultimately show ?thesis
    using upload_decoded [OF assms(1) chunks own_signature_checked(1) [OF assms(1) sg]] concat_blocks_of [OF assms(3), of body]
    by auto
qed

text \<open>Concrete code for the hash and hexadecimal crates.\<close>

definition sample_encode :: "bytes \<Rightarrow> string" where
  "sample_encode bs = concat (map (\<lambda>b. hex_fixed 2 (unat b)) bs)"

fun sample_decode :: "string \<Rightarrow> string + bytes" where
  "sample_decode [] = Inr []"
| "sample_decode [c] = Inl ''Odd number of digits''"
| "sample_decode (c # d # s) =
     (case (to_digit16 c, to_digit16 d, sample_decode s) of
        (Some x, Some y, Inr bs) \<Rightarrow> Inr (word_of_nat (16 * x + y) # bs)
      | (Some x, Some y, Inl e) \<Rightarrow> Inl e
      | _ \<Rightarrow> Inl ''Invalid character'')"

definition sample_crypto :: crypto where
  "sample_crypto =
     \<lparr>sha256 = id, hmac_key_ok = (\<lambda>_. True), hmac_sha256 = (\<lambda>k m. [fold (XOR) m (fold (XOR) k 0)]),
      hex_encode = sample_encode, hex_decode = sample_decode\<rparr>"

lemma hex_codec_sample: "hex_codec sample_crypto"
proof -
  have "set (sample_encode bs) \<subseteq> hex_chars" for bs
    using set_hex_fixed hex_digit_char by (induction bs) (auto simp: sample_encode_def numeral_2_eq_2)
  moreover have "sample_decode (sample_encode bs) = Inr bs" for bs
  proof (induction bs)
    case (Cons b bs)
    have "unat b < 256" using unsigned_less [of b, where ?'a = nat] by simp
    then have "unat b div 16 mod 16 = unat b div 16" by simp
    then have "16 * (unat b div 16 mod 16) + unat b mod 16 = unat b" by simp
    then show ?case using Cons by (simp add: sample_encode_def numeral_2_eq_2 to_digit16_hex_digit)
  qed (simp add: sample_encode_def)
  ultimately show ?thesis by (simp add: hex_codec_def sample_crypto_def)
qed

definition sample_context :: ChunkSignatureContext where
  "sample_context = \<lparr>signing_key = [7, 9], ctx_datetime = ''20250101T000000Z'', scope_string = ''20250101/r/s3/aws4_request''\<rparr>"

theorem streaming_roundtrip_witness:
  "\<exists>encoded. create_streaming_body sample_crypto [1, 2, 3] 2 sample_context ''ab'' = Some (Inr encoded) \<and>
    (\<forall>segs. concat segs = encoded \<longrightarrow>
      (\<exists>items p'. payload_run sample_crypto (new_payload True (Some (sample_context, Some ''ab''))) (map Inr segs) = (items, None, p') \<and>
         concat items = [1, 2, 3] \<and> checksum_sent p' = map Data items \<and> sp_state p' = Finished))"
  by (rule streaming_roundtrip [OF hex_codec_sample]) (simp_all add: sample_crypto_def usize_MAX_def)

text \<open>C26. A chunk whose signature does not verify ends the upload with an error: the chunks before it have
  been delivered, the checksum task is told to fail, and nothing after the chunk is looked at.
  The bytes of the rejected chunk themselves have been handed on before the check.\<close>

theorem tampered_chunk_detected:
  assumes "hex_codec cr" "streaming_chunks cr ctx seed chunks = Inr (encoded, final)"
    and "\<forall>c \<in> set chunks. c \<noteq> [] \<and> length c < usize_MAX" "d \<noteq> []" "length d < usize_MAX" "set sg \<subseteq> hex_chars"
    and "verify_chunk_signature cr ctx \<lparr>cs_signature = sg\<rparr> final d = Inl e"
    and "concat segs = encoded @ chunk_header (length d) sg @ CRLF @ d @ rest"
  shows "\<exists>items p'. payload_run cr (new_payload True (Some (ctx, Some seed))) (map Inr segs) = (items, Some EncodingCorrupted, p') \<and>
    concat items = concat chunks @ d \<and>
    checksum_sent p' = map Data items @ [StreamError ''Chunk signature verification failed'']"
proof -
  let ?p = "new_payload True (Some (ctx, Some seed))" and ?rest = "chunk_header (length d) sg @ CRLF @ d @ rest"
  have "trailer_buffer ?p @ concat segs = encoded @ ?rest" using assms(8) by simp
  from signed_chunks_decoded [OF assms(1-3) between_new_payload this]
  obtain segs1 items p1 where one: "trailer_buffer p1 @ concat segs1 = ?rest" "concat items = concat chunks"
    "between_chunks ctx final p1" "checksum_sent p1 = map Data items"
    "payload_run cr ?p (map Inr segs) = apfst ((@) items) (payload_run cr p1 (map Inr segs1))"
    by auto
  have p1: "sp_state p1 = ReadingChunkSize" "current_chunk_buffer p1 = []" "checksum_sender p1"
    and bad: "signature_checked cr p1 (Some \<lparr>cs_signature = sg\<rparr>) d = Inl e"
    using one(3) assms(7) by (simp_all add: between_chunks_def signature_checked_def)
  from chunk_rejected [OF signed_chunk_text [OF assms(4-6)] p1(1,2) one(1) bad] p1(3)
  obtain xs p' where "concat xs = d" "payload_run cr p1 (map Inr segs1) = (xs, Some EncodingCorrupted, p')"
    "checksum_sent p' = checksum_sent p1 @ map Data xs @ [StreamError ''Chunk signature verification failed'']"
    by blast
  then show ?thesis using one(2,4,5) by simp
qed

theorem tampered_chunk_detected_witness:
  "\<exists>items p'. payload_run sample_crypto (new_payload True (Some (sample_context, Some ''ab'')))
      (map Inr [chunk_header 2 ''00'' @ CRLF @ [1], [2, 13]]) = (items, Some EncodingCorrupted, p') \<and>
    concat items = concat [] @ [1, 2] \<and>
    checksum_sent p' = map Data items @ [StreamError ''Chunk signature verification failed'']"
proof (rule tampered_chunk_detected [OF hex_codec_sample, where chunks = "[]" and encoded = "[]" and sg = "''00''" and rest = "[13]"])
  show "verify_chunk_signature sample_crypto sample_context \<lparr>cs_signature = ''00''\<rparr> ''ab'' [1, 2] =
      Inl (ValidationError ''chunk signature mismatch'')"
    by code_simp
  show "set ''00'' \<subseteq> hex_chars" unfolding hex_chars_def by simp
  show "length [1, 2 :: u8] < usize_MAX" by (simp add: usize_MAX_def)
qed (simp_all add: numeral_2_eq_2)

section \<open>What escapes the checks\<close>

lemma bare_header:
  assumes "n < 2 ^ 64"
  shows "from_utf8 (as_bytes (hex_str n)) = Some (hex_str n)"
    "from_str_radix16 64 (trim (hd (split_on (CHR '';'') (hex_str n)))) = Some n"
    "parse_chunk_signature (hex_str n) = None"
    "13 \<notin> set (as_bytes (hex_str n))"
proof -
  have chars: "set (hex_str n) \<subseteq> set ''0123456789abcdef;chunk-signature=''"
    using header_char_sets subset_trans [OF set_hex_str [of n]] by blast
  then have ascii: "\<forall>c \<in> set (hex_str n). (of_char c :: nat) < 128" "\<forall>c \<in> set (hex_str n). (of_char c :: u8) \<noteq> 13"
    using header_chars by blast+
  show "from_utf8 (as_bytes (hex_str n)) = Some (hex_str n)" by (rule ascii_from_utf8 [OF ascii(1)])
  show "13 \<notin> set (as_bytes (hex_str n))" using ascii(2) by (auto simp: as_bytes_def)
  have semi: "CHR '';'' \<notin> set (hex_str n)" by (rule semicolon_not_hex [OF set_hex_str])
  then have "split_on (CHR '';'') (hex_str n) = [hex_str n]" "split_once (CHR '';'') (hex_str n) = None"
    by (simp_all add: split_on_notin split_once_None)
  then show "from_str_radix16 64 (trim (hd (split_on (CHR '';'') (hex_str n)))) = Some n" "parse_chunk_signature (hex_str n) = None"
    using trim_hex [OF set_hex_str] from_str_hex_str [OF assms] by (simp_all add: parse_chunk_signature_def)
qed

lemma bare_chunk_text:
  assumes "d \<noteq> []" "length d < usize_MAX"
  shows "chunk_text (as_bytes (hex_str (length d))) d None"
proof -
  have "length d < 2 ^ 64" using assms(2) by (simp add: usize_MAX_def)
  from bare_header [OF this] show ?thesis unfolding chunk_text_def using assms by blast
qed

lemma end_of_stream:
  assumes "sp_state p = ReadingChunkSize" "trailer_buffer p = []" "concat segs = []"
  shows "payload_run cr p (map Inr segs) = ([], None, finish p)"
  using assms(3)
proof (induction segs)
  case Nil
  then show ?case using assms by (subst payload_run_round) (simp add: round_of_def)
next
  case (Cons d segs)
  have same: "p\<lparr>trailer_buffer := []\<rparr> = p" using assms(2) by (cases p) simp
  have "round_of cr p (map Inr (d # segs)) = Continue p (map Inr segs)"
    using assms Cons.prems same by (simp add: round_of_def CRLF_def Let_def)
  then show ?case using Cons by (subst payload_run_round) simp
qed

text \<open>C27. A signed upload is accepted although nothing in it is signed: a chunk whose header carries no
  \<open>chunk-signature\<close> is delivered unchecked, and an upload that stops at the end of a chunk, without
  the final empty chunk, ends like a complete one.\<close>

theorem unsigned_truncated_upload_accepted:
  assumes "d \<noteq> []" "length d < usize_MAX" "concat segs = as_bytes (hex_str (length d)) @ CRLF @ d @ CRLF"
  shows "\<exists>items p'. payload_run cr (new_payload True (Some (ctx, Some seed))) (map Inr segs) = (items, None, p') \<and>
    concat items = d \<and> checksum_sent p' = map Data items \<and> sp_state p' = Finished"
proof -
  let ?p = "new_payload True (Some (ctx, Some seed))"
  have p: "sp_state ?p = ReadingChunkSize" "current_chunk_buffer ?p = []" "signature_checked cr ?p None d = Inr (Some seed)"
    "trailer_buffer ?p @ concat segs = as_bytes (hex_str (length d)) @ CRLF @ d @ CRLF @ []"
    using assms(3) by (simp_all add: new_payload_def signature_checked_def)
  obtain buf segs' items where r: "buf @ concat segs' = []" "concat items = d" "payload_run cr ?p (map Inr segs) =
      apfst ((@) items) (payload_run cr (sent_data items (?p\<lparr>trailer_buffer := buf, previous_signature := Some seed\<rparr>)) (map Inr segs'))"
    using chunk_accepted [OF bare_chunk_text [OF assms(1,2)] p(1,2,4,3)] by blast
  let ?q = "sent_data items (?p\<lparr>trailer_buffer := buf, previous_signature := Some seed\<rparr>)"
  have "payload_run cr ?q (map Inr segs') = ([], None, finish ?q)"
    using r(1) p(1) by (intro end_of_stream) simp_all
  then show ?thesis using r(2,3) by (simp add: finish_def)
qed

theorem unsigned_truncated_upload_accepted_witness:
  "\<exists>items p'. payload_run sample_crypto (new_payload True (Some (sample_context, Some ''ab'')))
      (map Inr [as_bytes ''2'' @ [13], [10, 1, 2, 13], [10]]) = (items, None, p') \<and>
    concat items = [1, 2] \<and> checksum_sent p' = map Data items \<and> sp_state p' = Finished"
proof (rule unsigned_truncated_upload_accepted)
  have "hex_str 2 = ''2''" by (subst hex_str.simps) (simp add: hex_digit_def)
  then show "concat [as_bytes ''2'' @ [13], [10, 1, 2, 13], [10]] = as_bytes (hex_str (length [1, 2 :: u8])) @ CRLF @ [1, 2] @ CRLF"
    by (simp add: CRLF_def numeral_2_eq_2)
qed (simp_all add: usize_MAX_def)

lemma header_round:
  assumes "13 \<notin> set line" "from_utf8 line = Some l" "from_str_radix16 64 (trim (hd (split_on (CHR '';'') l))) = Some n"
    and "trailer_buffer p = line @ CRLF @ rest" "sp_state p = ReadingChunkSize"
  shows "round_of cr p [] = Continue (p\<lparr>trailer_buffer := rest,
      sp_state := if n = 0 then ReadingTrailers else ReadingChunkData n (parse_chunk_signature l)\<rparr>) []"
    "trailer_buffer q = [] \<Longrightarrow> sp_state q = ReadingChunkSize \<Longrightarrow>
      round_of cr q [Inr (line @ CRLF @ rest)] = Continue (q\<lparr>trailer_buffer := rest,
        sp_state := if n = 0 then ReadingTrailers else ReadingChunkData n (parse_chunk_signature l)\<rparr>) []"
  using assms window_CRLF_first [OF assms(1), of rest]
  by (simp_all add: round_of_def take_chunk_header_def CRLF_def Let_def)



text \<open>A chunk size of \<open>usize::MAX\<close> is the mark of an upload that is not chunked: the rest of the segment that
  announces it is dropped, and what follows is delivered as it is, headers and signatures included.\<close>

lemma pass_through_run:
  "sp_state p = ReadingChunkData usize_MAX sg \<Longrightarrow>
    fst (payload_run cr p (map Inr segs)) = segs \<and> fst (snd (payload_run cr p (map Inr segs))) = None"
proof (induction segs arbitrary: p)
  case Nil
  then show ?case by (subst (1 2) payload_run_round) (simp add: round_of_def reading_chunk_data_def)
next
  case (Cons d segs)
  then have "round_of cr p (map Inr (d # segs)) = Ready (Some (Inr d)) (send_message (Data d) p) (map Inr segs)"
    by (simp add: round_of_def reading_chunk_data_def)
  then show ?case using Cons.IH [of "send_message (Data d) p"] Cons.prems by (subst (1 2) payload_run_round) simp
qed

theorem maximal_chunk_size_passes_through:
  "fst (payload_run cr (new_payload True signature) (Inr (as_bytes (hex_str usize_MAX) @ CRLF @ dropped) # map Inr segs)) = segs \<and>
   fst (snd (payload_run cr (new_payload True signature) (Inr (as_bytes (hex_str usize_MAX) @ CRLF @ dropped) # map Inr segs))) = None"
proof -
  let ?p = "new_payload True signature" and ?line = "as_bytes (hex_str usize_MAX)"
  have "usize_MAX < 2 ^ 64" "usize_MAX \<noteq> 0" by (simp_all add: usize_MAX_def)
  note line = bare_header [OF this(1)] and nonzero = this(2)
  have "round_of cr ?p (Inr (?line @ CRLF @ dropped) # map Inr segs) =
      Continue (?p\<lparr>trailer_buffer := dropped, sp_state := ReadingChunkData usize_MAX None\<rparr>) (map Inr segs)"
    using line nonzero window_CRLF_first [OF line(4), of dropped]
    by (simp add: round_of_def new_payload_def take_chunk_header_def CRLF_def Let_def)
  then show ?thesis
    using pass_through_run [of "?p\<lparr>trailer_buffer := dropped, sp_state := ReadingChunkData usize_MAX None\<rparr>"]
    by (subst (1 2) payload_run_round) simp
qed

end
