(* ===== verification/File_Ops.thy ===== *)
theory File_Ops
  imports Ovr_Map Vg_Types
begin

text \<open>
  The metadata side of the gateway: the response parsers and multipart keys of
  \<open>crates/common/file_ops/src/lib.rs\<close>, the helpers of \<open>s3_gateway/src/handler/common.rs\<close> and the error
  conversions of \<open>handler/common/s3_error.rs\<close>.

  A response message is its \<open>oneof\<close>, absent if the server left it out; \<open>unwrap\<close> panics on an absent one.
  The \<open>rkyv\<close> archive of a layout is the parameter \<open>from_bytes\<close>, the text of a UUID \<open>as_simple\<close>. What the
  name server answers, after the retries of \<open>Rpc_Retry\<close>, is an argument.
\<close>

section \<open>Results\<close>

text \<open>A result of fallible code that may also panic.\<close>

type_synonym ('e, 'a) outcome = "('e + 'a) option"

definition and_then :: "('e, 'a) outcome \<Rightarrow> ('a \<Rightarrow> ('e, 'b) outcome) \<Rightarrow> ('e, 'b) outcome" where
  "and_then r f = (case r of None \<Rightarrow> None | Some (Inl e) \<Rightarrow> Some (Inl e) | Some (Inr a) \<Rightarrow> f a)"

definition map_err :: "('e \<Rightarrow> 'f) \<Rightarrow> 'e + 'a \<Rightarrow> 'f + 'a" where
  "map_err f r = map_sum f id r"

lemma and_then_simps [simp]:
  "and_then None f = None" "and_then (Some (Inl e)) f = Some (Inl e)" "and_then (Some (Inr a)) f = f a"
  by (simp_all add: and_then_def)

lemma and_then_ok: "and_then r f = Some (Inr b) \<longleftrightarrow> (\<exists>a. r = Some (Inr a) \<and> f a = Some (Inr b))"
  by (auto simp: and_then_def split: option.splits sum.splits)

lemma map_err_simps [simp]: "map_err f (Inl e) = Inl (f e)" "map_err f (Inr a) = Inr a"
  by (simp_all add: map_err_def)

section \<open>Name server responses\<close>

datatype NssError =
    NssNotFound
  | NssAlreadyExists
  | NssNoSuchRootBlob
  | NssInternal string
  | NssDeserialization string
  | CasConflict bytes

datatype GetInodeResult = GetOk bytes | GetErrNotFound | GetErrNoSuchRootBlob | GetErrOther string
datatype PutInodeResult = PutOk bytes | PutErrNoSuchRootBlob | PutErrOther string
datatype PutInodeCasResult = CasOk bytes | Conflict bytes | CasErr string
datatype DeleteInodeResult =
  DeleteOk bytes | DeleteErrNotFound | DeleteErrAlreadyDeleted | DeleteErrNoSuchRootBlob | DeleteErrOther string

record Inode =
  inode_key :: string
  inode_bytes :: bytes

datatype ListInodesResponse = ListOk "Inode list" bool | ListErrNoSuchRootBlob | ListErrOther string

record ListEntry =
  ent_key :: string
  ent_layout :: "ObjectLayout option"

record ListInodesResult =
  entries :: "ListEntry list"
  has_more :: bool

definition parse_get_inode ::
    "(bytes \<Rightarrow> string + ObjectLayout) \<Rightarrow> GetInodeResult option \<Rightarrow> (NssError, ObjectLayout) outcome" where
  "parse_get_inode from_bytes resp =
     (case resp of
        None \<Rightarrow> None
      | Some GetErrNotFound \<Rightarrow> Some (Inl NssNotFound)
      | Some GetErrNoSuchRootBlob \<Rightarrow> Some (Inl NssNoSuchRootBlob)
      | Some (GetErrOther e) \<Rightarrow> Some (Inl (NssInternal e))
      | Some (GetOk object_bytes) \<Rightarrow> Some (map_err NssDeserialization (from_bytes object_bytes)))"

definition list_response :: "ListInodesResponse option \<Rightarrow> (NssError, Inode list \<times> bool) outcome" where
  "list_response resp =
     (case resp of
        None \<Rightarrow> None
      | Some ListErrNoSuchRootBlob \<Rightarrow> Some (Inl NssNoSuchRootBlob)
      | Some (ListErrOther e) \<Rightarrow> Some (Inl (NssInternal e))
      | Some (ListOk inodes following) \<Rightarrow> Some (Inr (inodes, following)))"

fun parse_entries :: "(bytes \<Rightarrow> string + ObjectLayout) \<Rightarrow> Inode list \<Rightarrow> NssError + ListEntry list" where
  "parse_entries from_bytes [] = Inr []"
| "parse_entries from_bytes (inode # inodes) =
     (if inode_bytes inode = []
      then map_sum id ((#) \<lparr>ent_key = inode_key inode, ent_layout = None\<rparr>) (parse_entries from_bytes inodes)
      else case from_bytes (inode_bytes inode) of
          Inl e \<Rightarrow> Inl (NssDeserialization e)
        | Inr object \<Rightarrow>
            map_sum id ((#) \<lparr>ent_key = trim_end_matches nul (inode_key inode), ent_layout = Some object\<rparr>)
              (parse_entries from_bytes inodes))"

definition parse_list_inodes ::
    "(bytes \<Rightarrow> string + ObjectLayout) \<Rightarrow> ListInodesResponse option \<Rightarrow> (NssError, ListInodesResult) outcome" where
  "parse_list_inodes from_bytes resp =
     and_then (list_response resp) (\<lambda>(inodes, following).
       Some (map_sum id (\<lambda>es. \<lparr>entries = es, has_more = following\<rparr>) (parse_entries from_bytes inodes)))"

definition parse_list_inodes_raw ::
    "ListInodesResponse option \<Rightarrow> (NssError, (string \<times> bytes) list \<times> bool) outcome" where
  "parse_list_inodes_raw resp =
     and_then (list_response resp) (\<lambda>(inodes, following).
       Some (Inr (map (\<lambda>inode. (trim_end_matches nul (inode_key inode), inode_bytes inode)) inodes, following)))"

definition parse_put_inode :: "PutInodeResult option \<Rightarrow> (NssError, bytes) outcome" where
  "parse_put_inode resp =
     (case resp of
        None \<Rightarrow> None
      | Some (PutOk res) \<Rightarrow> Some (Inr res)
      | Some PutErrNoSuchRootBlob \<Rightarrow> Some (Inl NssNoSuchRootBlob)
      | Some (PutErrOther e) \<Rightarrow> Some (Inl (NssInternal e)))"

definition parse_put_inode_cas :: "PutInodeCasResult option \<Rightarrow> (NssError, bytes) outcome" where
  "parse_put_inode_cas resp =
     (case resp of
        None \<Rightarrow> None
      | Some (CasOk res) \<Rightarrow> Some (Inr res)
      | Some (Conflict current) \<Rightarrow> Some (Inl (CasConflict current))
      | Some (CasErr e) \<Rightarrow> Some (Inl (NssInternal e)))"

definition parse_delete_inode :: "DeleteInodeResult option \<Rightarrow> (NssError, bytes option) outcome" where
  "parse_delete_inode resp =
     (case resp of
        None \<Rightarrow> None
      | Some (DeleteOk res) \<Rightarrow> Some (Inr (Some res))
      | Some DeleteErrNotFound \<Rightarrow> Some (Inr None)
      | Some DeleteErrAlreadyDeleted \<Rightarrow> Some (Inr None)
      | Some DeleteErrNoSuchRootBlob \<Rightarrow> Some (Inl NssNoSuchRootBlob)
      | Some (DeleteErrOther e) \<Rightarrow> Some (Inl (NssInternal e)))"

section \<open>Multipart keys\<close>

definition mpu_get_uploads_prefix :: "string \<Rightarrow> string" where
  "mpu_get_uploads_prefix key = key @ ''#''"

text \<open>\<open>format!("{:04}", n)\<close>.\<close>

definition zero_padded :: "nat \<Rightarrow> string \<Rightarrow> string" where
  "zero_padded w s = replicate (w - length s) (CHR ''0'') @ s"

definition mpu_get_part_prefix :: "(Uuid \<Rightarrow> string) \<Rightarrow> string \<Rightarrow> Uuid \<Rightarrow> u64 \<Rightarrow> string" where
  "mpu_get_part_prefix as_simple key upload_id part_number =
     key @ ''#'' @ as_simple upload_id @ ''/'' @
       (if part_number \<noteq> 0 then zero_padded 4 (decimal (unat (part_number - 1))) else [])"

fun parse_mpu_parts :: "ListEntry list \<Rightarrow> NssError + (string \<times> ObjectLayout) list" where
  "parse_mpu_parts [] = Inr []"
| "parse_mpu_parts (entry # rest) =
     (case ent_layout entry of
        None \<Rightarrow> Inl (NssInternal ''MPU part has empty inode data'')
      | Some layout \<Rightarrow> map_sum id ((#) (ent_key entry, layout)) (parse_mpu_parts rest))"

definition create_dir_marker_layout :: "u64 \<Rightarrow> Uuid \<Rightarrow> ObjectLayout" where
  "create_dir_marker_layout now fresh =
     \<lparr>timestamp = now, version_id = fresh, block_size = DEFAULT_BLOCK_SIZE, blob_version = 1, fs_ext = None,
      state = Normal \<lparr>meta_blob_guid = \<lparr>blob_id = 0, volume_id = 0\<rparr>,
        meta_core = \<lparr>core_size = 0, core_etag = [], core_headers = [], core_checksum = None\<rparr>\<rparr>\<rparr>"

definition blob_blocks_to_delete :: "ObjectLayout \<Rightarrow> (DataBlobGuid \<times> u32) list option" where
  "blob_blocks_to_delete layout =
     (case blob_guid layout of
        Inl _ \<Rightarrow> Some []
      | Inr g \<Rightarrow>
          (case num_blocks layout of
             None \<Rightarrow> None
           | Some (Inl _) \<Rightarrow> Some []
           | Some (Inr n) \<Rightarrow> Some (map (\<lambda>i. (g, word_of_nat i)) [0..<n])))"

section \<open>Errors of the S3 interface\<close>

text \<open>The codes of \<open>S3Error\<close> that the modelled code returns.\<close>

datatype S3Error =
    NoSuchKey | NoSuchBucket | NoSuchUpload | NoSuchVersion | BucketAlreadyExists | InternalError | ServiceUnavailable
  | InvalidObjectState | InvalidRange | InvalidArgument1 | InvalidPart | InvalidDigest | InvalidSignature | SignatureDoesNotMatch
  | InvalidAccessKeyId | KeyUnsupported | UnexpectedContent | UnsupportedArgument

definition s3_from_rpc :: "RpcError \<Rightarrow> S3Error" where
  "s3_from_rpc e = (if retryable e then ServiceUnavailable else InternalError)"

fun s3_from_nss :: "NssError \<Rightarrow> S3Error" where
  "s3_from_nss NssNotFound = NoSuchKey"
| "s3_from_nss NssNoSuchRootBlob = NoSuchBucket"
| "s3_from_nss NssAlreadyExists = BucketAlreadyExists"
| "s3_from_nss (NssInternal _) = InternalError"
| "s3_from_nss (NssDeserialization _) = InternalError"
| "s3_from_nss (CasConflict _) = InternalError"

definition s3_from_layout :: "ObjectLayoutError \<Rightarrow> S3Error" where
  "s3_from_layout e = InvalidObjectState"

section \<open>Helpers of the handlers\<close>

text \<open>What \<open>get_raw_object\<close> makes of the answer to \<open>get_inode\<close>; it also drops the bucket from the cache when the
  tree is gone, which is the flag of the result.\<close>

definition get_raw_object ::
    "(bytes \<Rightarrow> string + ObjectLayout) \<Rightarrow> RpcError + GetInodeResult option \<Rightarrow> (S3Error, ObjectLayout) outcome \<times> bool" where
  "get_raw_object from_bytes answer =
     (case answer of
        Inl e \<Rightarrow> (Some (Inl (s3_from_rpc e)), False)
      | Inr resp \<Rightarrow>
          (case parse_get_inode from_bytes resp of
             None \<Rightarrow> (None, False)
           | Some (Inr layout) \<Rightarrow> (Some (Inr layout), False)
           | Some (Inl NssNoSuchRootBlob) \<Rightarrow> (Some (Inl NoSuchBucket), True)
           | Some (Inl e) \<Rightarrow> (Some (Inl (s3_from_nss e)), False)))"

definition list_raw_objects ::
    "(bytes \<Rightarrow> string + ObjectLayout) \<Rightarrow> RpcError + ListInodesResponse option \<Rightarrow> (S3Error, (string \<times> ObjectLayout) list) outcome" where
  "list_raw_objects from_bytes answer =
     (case answer of
        Inl e \<Rightarrow> Some (Inl (s3_from_rpc e))
      | Inr resp \<Rightarrow>
          and_then (map_option (map_err s3_from_nss) (parse_list_inodes from_bytes resp)) (\<lambda>result.
            Some (Inr (List.map_filter (\<lambda>entry. map_option (\<lambda>layout. (ent_key entry, layout)) (ent_layout entry))
              (entries result)))))"

definition reject_trailing_slash_key :: "string \<Rightarrow> S3Error + unit" where
  "reject_trailing_slash_key key = (if key \<noteq> [] \<and> last key = CHR ''/'' then Inl KeyUnsupported else Inr ())"

text \<open>\<open>str::parse\<close> for an unsigned type of \<open>bits\<close> bits.\<close>

definition to_digit10 :: "char \<Rightarrow> nat option" where
  "to_digit10 c = (let n = (of_char c :: nat) in if 48 \<le> n \<and> n \<le> 57 then Some (n - 48) else None)"

fun parse_dec :: "nat \<Rightarrow> string \<Rightarrow> nat option" where
  "parse_dec acc [] = Some acc"
| "parse_dec acc (c # cs) = (case to_digit10 c of None \<Rightarrow> None | Some d \<Rightarrow> parse_dec (acc * 10 + d) cs)"

definition parse_unsigned :: "nat \<Rightarrow> string \<Rightarrow> nat option" where
  "parse_unsigned bits s =
     (if s = [] \<or> s = ''+'' \<or> s = ''-'' then None
      else case parse_dec 0 (if hd s = CHR ''+'' then tl s else s) of
        None \<Rightarrow> None
      | Some n \<Rightarrow> if n < 2 ^ bits then Some n else None)"

text \<open>The addition wraps in a release build.\<close>

definition mpu_parse_part_number :: "string \<Rightarrow> S3Error + u32" where
  "mpu_parse_part_number mpu_key =
     (case parse_unsigned 32 (last (split_on (CHR ''/'') mpu_key)) of
        None \<Rightarrow> Inl InternalError
      | Some n \<Rightarrow> Inr (word_of_nat n + 1))"

definition merge_chunks :: "bytes list \<Rightarrow> bytes" where
  "merge_chunks chunks =
     (case chunks of [] \<Rightarrow> [] | [c] \<Rightarrow> c | _ \<Rightarrow> fold (\<lambda>chunk merged. merged @ chunk) chunks [])"

section \<open>The order of parts\<close>

text \<open>Numbers with leading zeros to a fixed width.\<close>

fun dec_fixed :: "nat \<Rightarrow> nat \<Rightarrow> string" where
  "dec_fixed 0 n = []"
| "dec_fixed (Suc w) n = dec_fixed w (n div 10) @ [char_of (48 + n mod 10)]"

lemma length_dec_fixed [simp]: "length (dec_fixed w n) = w"
  by (induction w arbitrary: n) auto

lemma digit_char: "of_char (char_of (48 + n mod 10) :: char) = (48 + n mod 10 :: nat)"
proof -
  have "n mod 10 < 10" by simp
  then have "48 + n mod 10 < 256" by linarith
  then show ?thesis by simp
qed

lemma to_digit10_digit [simp]: "to_digit10 (char_of (48 + n mod 10)) = Some (n mod 10)"
  by (simp add: to_digit10_def digit_char Let_def del: of_char_of)

lemma dec_fixed_zero: "dec_fixed w 0 = replicate w (CHR ''0'')"
proof (induction w)
  case (Suc w)
  have "char_of (48 :: nat) = CHR ''0''" by code_simp
  then show ?case using Suc by (simp add: replicate_append_same)
qed simp

lemma zero_padded_decimal: "0 < w \<Longrightarrow> n < 10 ^ w \<Longrightarrow> zero_padded w (decimal n) = dec_fixed w n"
proof (induction w arbitrary: n rule: nat_induct_non_zero)
  case 1
  then show ?case by (simp add: decimal.simps [of n] zero_padded_def)
next
  case (Suc w)
  show ?case
  proof (cases "n < 10")
    case True
    then show ?thesis by (simp add: decimal.simps [of n] zero_padded_def dec_fixed_zero replicate_append_same)
  next
    case False
    have "n div 10 < 10 ^ w" using Suc.prems by (simp add: less_mult_imp_div_less mult.commute)
    then have "zero_padded w (decimal (n div 10)) = dec_fixed w (n div 10)" using Suc.IH by simp
    then show ?thesis using False by (subst decimal.simps) (simp add: zero_padded_def)
  qed
qed

lemma parse_dec_append: "parse_dec acc (xs @ ys) = (case parse_dec acc xs of None \<Rightarrow> None | Some a \<Rightarrow> parse_dec a ys)"
  by (induction xs arbitrary: acc) (auto split: option.splits)

lemma parse_dec_fixed: "n < 10 ^ w \<Longrightarrow> parse_dec acc (dec_fixed w n) = Some (acc * 10 ^ w + n)"
proof (induction w arbitrary: n)
  case (Suc w)
  then have "n div 10 < 10 ^ w" by (simp add: less_mult_imp_div_less mult.commute)
  then show ?case by (simp add: Suc.IH parse_dec_append algebra_simps)
qed simp

lemma dec_fixed_inj: "n < 10 ^ w \<Longrightarrow> m < 10 ^ w \<Longrightarrow> dec_fixed w n = dec_fixed w m \<longleftrightarrow> n = m"
proof
  assume "n < 10 ^ w" "m < 10 ^ w" "dec_fixed w n = dec_fixed w m"
  then have "Some (0 * 10 ^ w + n) = Some (0 * 10 ^ w + m)" using parse_dec_fixed [of n w 0] parse_dec_fixed [of m w 0] by metis
  then show "n = m" by (simp only: mult_0 add_0 option.inject)
qed simp

lemma set_dec_fixed: "c \<in> set (dec_fixed w n) \<Longrightarrow> \<exists>d < 10. c = char_of (48 + d :: nat)"
proof (induction w arbitrary: n)
  case (Suc w)
  have "n mod 10 < 10" by simp
  then show ?case using Suc by (simp only: dec_fixed.simps set_append list.set Un_iff insert_iff empty_iff) blast
qed simp

lemma digit_less: "(char_of (48 + a mod 10) :: char) < char_of (48 + b mod 10) \<longleftrightarrow> a mod 10 < b mod (10 :: nat)"
  unfolding less_char_def digit_char by simp

lemma div_mod_10_less: "n div 10 < m div 10 \<or> n div 10 = m div 10 \<and> n mod 10 < m mod 10 \<longleftrightarrow> n < (m :: nat)"
proof -
  define q r q' r' where "q = n div 10" and "r = n mod 10" and "q' = m div 10" and "r' = m mod 10"
  have "n = q * 10 + r" "m = q' * 10 + r'" "r < 10" "r' < 10" by (simp_all add: q_def r_def q'_def r'_def)
  then have "q < q' \<or> q = q' \<and> r < r' \<longleftrightarrow> n < m" by linarith
  then show ?thesis by (simp only: q_def r_def q'_def r'_def)
qed

lemma dec_fixed_less: "n < 10 ^ w \<Longrightarrow> m < 10 ^ w \<Longrightarrow> dec_fixed w n < dec_fixed w m \<longleftrightarrow> n < m"
proof (induction w arbitrary: n m)
  case (Suc w)
  then have "n div 10 < 10 ^ w" "m div 10 < 10 ^ w" by (simp_all add: less_mult_imp_div_less mult.commute)
  then have "dec_fixed (Suc w) n < dec_fixed (Suc w) m \<longleftrightarrow> n div 10 < m div 10 \<or> n div 10 = m div 10 \<and> n mod 10 < m mod 10"
    by (simp add: append_less_append Suc.IH dec_fixed_inj digit_less)
  then show ?case unfolding div_mod_10_less .
qed simp

lemma digit_not: "c \<in> set (dec_fixed w n) \<Longrightarrow> c \<noteq> CHR ''/'' \<and> c \<noteq> CHR ''+'' \<and> c \<noteq> CHR ''-''"
proof -
  assume "c \<in> set (dec_fixed w n)"
  then obtain d :: nat where "d < 10" "c = char_of (48 + d)" using set_dec_fixed by blast
  then have "of_char c = (48 + d :: nat)" using digit_char [of d] by simp
  moreover have "of_char (CHR ''/'') = (47 :: nat)" "of_char (CHR ''+'') = (43 :: nat)" "of_char (CHR ''-'') = (45 :: nat)" by simp_all
  ultimately show ?thesis by (metis add_leD1 le_numeral_extra(4) numeral_le_iff semiring_norm(68-79) le_add1)
qed

lemma parse_unsigned_fixed:
  assumes "0 < w" "n < 10 ^ w" "n < 2 ^ bits" shows "parse_unsigned bits (dec_fixed w n) = Some n"
proof -
  have ne: "dec_fixed w n \<noteq> []" using assms(1) by (cases w) auto
  then have "hd (dec_fixed w n) \<in> set (dec_fixed w n)" by simp
  from digit_not [OF this] have hd: "hd (dec_fixed w n) \<noteq> CHR ''+''" "hd (dec_fixed w n) \<noteq> CHR ''-''" by blast+
  then have "dec_fixed w n \<noteq> ''+''" "dec_fixed w n \<noteq> ''-''" by auto
  then show ?thesis using ne hd assms parse_dec_fixed [of n w 0] by (simp add: parse_unsigned_def)
qed

lemma split_on_snoc: "c \<notin> set t \<Longrightarrow> split_on c (s @ c # t) = split_on c s @ [t]"
proof (induction s)
  case Nil
  then show ?case by (simp add: split_on_notin)
next
  case (Cons x s)
  then show ?case by (cases "split_on c s") auto
qed

lemma part_key:
  assumes "1 \<le> n" "n \<le> (10000 :: u64)"
  shows "mpu_get_part_prefix as_simple key upload n = (key @ ''#'' @ as_simple upload @ ''/'') @ dec_fixed 4 (unat n - 1)" "unat n - 1 < 10 ^ 4"
proof -
  have n: "unat (n - 1) = unat n - 1" "unat n \<le> 10000" "n \<noteq> 0"
    using assms by (auto simp: unat_sub word_le_nat_alt)
  show "unat n - 1 < 10 ^ 4" using n(2,3) by (simp add: unat_eq_zero)
  then show "mpu_get_part_prefix as_simple key upload n = (key @ ''#'' @ as_simple upload @ ''/'') @ dec_fixed 4 (unat n - 1)"
    using n(1,3) zero_padded_decimal [of 4 "unat n - 1"] by (simp add: mpu_get_part_prefix_def)
qed

text \<open>C40. The parts of an upload are listed in the order of their numbers: for the part numbers that uploads
  accept, 1 to 10000, the key of a part lies under the prefix of its upload, gives the number back, and
  part keys sort as their numbers, whatever the object key contains.\<close>

theorem mpu_part_keys_ordered:
  assumes "1 \<le> a" "a \<le> 10000" "1 \<le> b" "b \<le> (10000 :: u64)"
  shows "(mpu_get_part_prefix as_simple key upload a < mpu_get_part_prefix as_simple key upload b \<longleftrightarrow> a < b) \<and>
    mpu_parse_part_number (mpu_get_part_prefix as_simple key upload a) = Inr (ucast a) \<and>
    strip_prefix (mpu_get_part_prefix as_simple key upload 0) (mpu_get_part_prefix as_simple key upload a) \<noteq> None"
proof (intro conjI)
  note a = part_key [OF assms(1,2)] and b = part_key [OF assms(3,4)]
  show "mpu_get_part_prefix as_simple key upload a < mpu_get_part_prefix as_simple key upload b \<longleftrightarrow> a < b"
    unfolding a(1) b(1) append_less_append [OF refl] dec_fixed_less [OF a(2) b(2)]
    using assms by (simp add: word_le_nat_alt word_less_nat_alt) linarith
  show "mpu_parse_part_number (mpu_get_part_prefix as_simple key upload a) = Inr (ucast a)"
  proof -
    have "last (split_on (CHR ''/'') ((key @ ''#'' @ as_simple upload) @ CHR ''/'' # dec_fixed 4 (unat a - 1))) = dec_fixed 4 (unat a - 1)"
      using digit_not by (subst split_on_snoc) auto
    then show ?thesis
      unfolding a(1) mpu_parse_part_number_def using parse_unsigned_fixed [OF _ a(2), of 32] a(2) assms(1)
      by (simp add: word_le_nat_alt)
  qed
  show "strip_prefix (mpu_get_part_prefix as_simple key upload 0) (mpu_get_part_prefix as_simple key upload a) \<noteq> None"
    unfolding a(1) by (simp add: mpu_get_part_prefix_def strip_prefix_def)
qed

theorem mpu_part_keys_ordered_witness:
  "(mpu_get_part_prefix (\<lambda>_. ''ab'') ''/k#9/1'' 7 9 < mpu_get_part_prefix (\<lambda>_. ''ab'') ''/k#9/1'' 7 10 \<longleftrightarrow> (9 :: u64) < 10) \<and>
    mpu_parse_part_number (mpu_get_part_prefix (\<lambda>_. ''ab'') ''/k#9/1'' 7 9) = Inr (ucast (9 :: u64)) \<and>
    strip_prefix (mpu_get_part_prefix (\<lambda>_. ''ab'') ''/k#9/1'' 7 0) (mpu_get_part_prefix (\<lambda>_. ''ab'') ''/k#9/1'' 7 9) \<noteq> None"
  by (rule mpu_part_keys_ordered) simp_all

end
