(* ===== verification/Blob_Storage.thy ===== *)
theory Blob_Storage
  imports Data_Vg_Proxy File_Ops Block_Stream
begin

text \<open>
  Where the gateway keeps blocks: the S3 block store of \<open>crates/common/s3_blob_store/src/lib.rs\<close>, the two
  storage back ends and their dispatch (\<open>s3_gateway/src/blob_storage\<close>), the block operations of
  \<open>blob_client.rs\<close> and the volume that \<open>put_object.rs\<close> writes into the layout.

  The S3 service is the record \<open>s3_client\<close> of its answers; the hyphenated text of a UUID is the
  parameter \<open>hyphenated\<close>. Histograms are left out.
\<close>

section \<open>The S3 block store\<close>

datatype S3BlobError = S3NotFound | S3AlreadyExists | S3Other string

definition blob_key :: "(Uuid \<Rightarrow> string) \<Rightarrow> Uuid \<Rightarrow> u32 \<Rightarrow> u64 \<Rightarrow> string" where
  "blob_key hyphenated blob block_number version =
     hyphenated blob @ ''-p'' @ decimal (unat block_number) @ ''-v'' @ hex_fixed 16 (unat version)"

definition blob_prefix :: "(Uuid \<Rightarrow> string) \<Rightarrow> Uuid \<Rightarrow> string" where
  "blob_prefix hyphenated blob = hyphenated blob @ ''-p''"

text \<open>\<open>str::split_once\<close> at a string.\<close>

fun split_once_at :: "string \<Rightarrow> string \<Rightarrow> (string \<times> string) option" where
  "split_once_at pat [] = (if pat = [] then Some ([], []) else None)"
| "split_once_at pat (c # s) =
     (case strip_prefix pat (c # s) of
        Some r \<Rightarrow> Some ([], r)
      | None \<Rightarrow> map_option (apfst ((#) c)) (split_once_at pat s))"

definition parse_blob_key :: "(Uuid \<Rightarrow> string) \<Rightarrow> string \<Rightarrow> Uuid \<Rightarrow> (u32 \<times> u64) option" where
  "parse_blob_key hyphenated key blob =
     (case strip_prefix (blob_prefix hyphenated blob) key of
        None \<Rightarrow> None
      | Some r \<Rightarrow>
          (case split_once_at ''-v'' r of
             None \<Rightarrow> None
           | Some (block, version) \<Rightarrow>
               (case (parse_unsigned 32 block, from_str_radix16 64 version) of
                  (Some b, Some v) \<Rightarrow> Some (word_of_nat b, word_of_nat v)
                | _ \<Rightarrow> None)))"

text \<open>What the service answers: an object whose body may fail to arrive, and the errors the code tells apart.\<close>

datatype S3GetAnswer = GotObject "string + bytes" | GetNoSuchKey | GetFailed string
datatype S3PutAnswer = PutDone | PutPreconditionFailed | PutFailed string

record S3Page =
  page_keys :: "string option list"
  next_continuation_token :: "string option"
  is_truncated :: "bool option"

record s3_client =
  s3_get_object :: "string \<Rightarrow> S3GetAnswer"
  s3_put_object :: "string \<Rightarrow> bytes \<Rightarrow> bool \<Rightarrow> S3PutAnswer"
  s3_delete_object :: "string \<Rightarrow> string + unit"
  s3_list_objects :: "string \<Rightarrow> string option \<Rightarrow> string + S3Page"

definition store_get :: "(Uuid \<Rightarrow> string) \<Rightarrow> s3_client \<Rightarrow> Uuid \<Rightarrow> u32 \<Rightarrow> u64 \<Rightarrow> S3BlobError + bytes" where
  "store_get hyphenated client blob block_number version =
     (case s3_get_object client (blob_key hyphenated blob block_number version) of
        GetNoSuchKey \<Rightarrow> Inl S3NotFound
      | GetFailed e \<Rightarrow> Inl (S3Other e)
      | GotObject (Inl e) \<Rightarrow> Inl (S3Other e)
      | GotObject (Inr body) \<Rightarrow> Inr body)"

definition put_inner ::
    "(Uuid \<Rightarrow> string) \<Rightarrow> s3_client \<Rightarrow> Uuid \<Rightarrow> u32 \<Rightarrow> u64 \<Rightarrow> bytes \<Rightarrow> bool \<Rightarrow> S3BlobError + unit" where
  "put_inner hyphenated client blob block_number version body if_absent =
     (case s3_put_object client (blob_key hyphenated blob block_number version) body if_absent of
        PutDone \<Rightarrow> Inr ()
      | PutPreconditionFailed \<Rightarrow> Inl S3AlreadyExists
      | PutFailed e \<Rightarrow> Inl (S3Other e))"

definition store_put :: "(Uuid \<Rightarrow> string) \<Rightarrow> s3_client \<Rightarrow> Uuid \<Rightarrow> u32 \<Rightarrow> u64 \<Rightarrow> bytes \<Rightarrow> S3BlobError + unit" where
  "store_put hyphenated client blob block_number version body = put_inner hyphenated client blob block_number version body False"

definition put_if_absent :: "(Uuid \<Rightarrow> string) \<Rightarrow> s3_client \<Rightarrow> Uuid \<Rightarrow> u32 \<Rightarrow> u64 \<Rightarrow> bytes \<Rightarrow> S3BlobError + unit" where
  "put_if_absent hyphenated client blob block_number version body = put_inner hyphenated client blob block_number version body True"

definition store_delete :: "(Uuid \<Rightarrow> string) \<Rightarrow> s3_client \<Rightarrow> Uuid \<Rightarrow> u32 \<Rightarrow> u64 \<Rightarrow> S3BlobError + unit" where
  "store_delete hyphenated client blob block_number version =
     map_err S3Other (s3_delete_object client (blob_key hyphenated blob block_number version))"

definition page_blocks :: "(Uuid \<Rightarrow> string) \<Rightarrow> Uuid \<Rightarrow> S3Page \<Rightarrow> (u32 \<times> u64) list" where
  "page_blocks hyphenated blob page =
     List.map_filter (\<lambda>k. Option.bind k (\<lambda>key. parse_blob_key hyphenated key blob)) (page_keys page)"

partial_function (option) list_store_pages ::
    "(Uuid \<Rightarrow> string) \<Rightarrow> s3_client \<Rightarrow> Uuid \<Rightarrow> string option \<Rightarrow> (u32 \<times> u64) list \<Rightarrow> (S3BlobError + (u32 \<times> u64) list) option" where
  "list_store_pages hyphenated client blob continuation found =
     (case s3_list_objects client (blob_prefix hyphenated blob) continuation of
        Inl e \<Rightarrow> Some (Inl (S3Other e))
      | Inr page \<Rightarrow>
          (let found' = found @ page_blocks hyphenated blob page
           in case next_continuation_token page of
                Some token \<Rightarrow>
                  (if is_truncated page = Some True then list_store_pages hyphenated client blob (Some token) found'
                   else Some (Inr found'))
              | None \<Rightarrow> Some (Inr found')))"

definition store_list_blob_blocks ::
    "(Uuid \<Rightarrow> string) \<Rightarrow> s3_client \<Rightarrow> Uuid \<Rightarrow> (S3BlobError + (u32 \<times> u64) list) option" where
  "store_list_blob_blocks hyphenated client blob = list_store_pages hyphenated client blob None []"

section \<open>The back ends\<close>

datatype BlobStorageBackend = S3HybridSingleAz | DataInS3 | AllInBssBackend

record S3HybridSingleAzStorage =
  hybrid_proxy :: DataVgProxy
  all_data_in_s3 :: bool

record AllInBssSingleAzStorage =
  bss_proxy :: DataVgProxy

datatype BlobStorageImpl = HybridSingleAz S3HybridSingleAzStorage | AllInBssSingleAz AllInBssSingleAzStorage

datatype BlobStorageError =
    BlobBssRpc RpcError
  | DataVg DataVgError
  | BlobS3 string
  | BlobConfig string
  | BlobInitializationError string
  | BlobQuorumFailure string
  | BlobInternal string

fun from_s3_blob_error :: "S3BlobError \<Rightarrow> BlobStorageError" where
  "from_s3_blob_error S3NotFound = BlobS3 ''object not found''"
| "from_s3_blob_error S3AlreadyExists = BlobS3 ''object already exists''"
| "from_s3_blob_error (S3Other e) = BlobS3 (''s3 error: '' @ e)"

fun s3_from_storage :: "BlobStorageError \<Rightarrow> S3Error" where
  "s3_from_storage (BlobBssRpc e) = s3_from_rpc e"
| "s3_from_storage _ = InternalError"

text \<open>The environment of one block operation: the nodes of the volume, and the S3 service.\<close>

record storage_put_env =
  sp_nodes :: put_env
  sp_s3 :: s3_client

record storage_get_env =
  sg_nodes :: proxy_get_env
  sg_s3 :: s3_client

record storage_delete_env =
  sd_nodes :: delete_env
  sd_s3 :: s3_client

definition create_storage ::
    "BlobStorageBackend \<Rightarrow> bool \<Rightarrow> bool \<Rightarrow> DataVgInfo \<Rightarrow> nat \<Rightarrow> nat \<Rightarrow> (DataVgError \<Rightarrow> string) \<Rightarrow> BlobStorageError + BlobStorageImpl" where
  "create_storage backend hybrid_config s3_config info rpc_request_timeout ec_read_hedge_delay show_error =
     (let proxy = map_sum (\<lambda>e. BlobConfig (''Failed to initialize DataVgProxy: '' @ show_error e))
            (\<lambda>p. with_ec_hedge_delay p ec_read_hedge_delay) (new_proxy info rpc_request_timeout);
          in_s3 = (\<lambda>all_in_s3 configured.
            if \<not> configured then Inl (BlobConfig ''S3 configuration required for S3 backends'')
            else map_sum id (\<lambda>p. HybridSingleAz \<lparr>hybrid_proxy = p, all_data_in_s3 = all_in_s3\<rparr>) proxy)
      in case backend of
           S3HybridSingleAz \<Rightarrow> in_s3 False hybrid_config
         | DataInS3 \<Rightarrow> in_s3 True s3_config
         | AllInBssBackend \<Rightarrow> map_sum id (\<lambda>p. AllInBssSingleAz \<lparr>bss_proxy = p\<rparr>) proxy)"

text \<open>Whether the hybrid storage keeps a block on the volume group.\<close>

definition kept_on_volume :: "S3HybridSingleAzStorage \<Rightarrow> u16 \<Rightarrow> u32 \<Rightarrow> nat \<Rightarrow> bool" where
  "kept_on_volume s vid block_number len \<longleftrightarrow>
     \<not> all_data_in_s3 s \<and> (block_number = 0 \<and> len < unat DEFAULT_BLOCK_SIZE \<or> is_ec_volume_id vid)"

definition hybrid_put_blob ::
    "ec_lib \<Rightarrow> (Uuid \<Rightarrow> string) \<Rightarrow> storage_put_env \<Rightarrow> S3HybridSingleAzStorage \<Rightarrow> Uuid \<Rightarrow> u16 \<Rightarrow> u32 \<Rightarrow> bytes
      \<Rightarrow> (BlobStorageError + unit) \<times> S3HybridSingleAzStorage" where
  "hybrid_put_blob lib hyphenated env s blob vid block_number body =
     (if kept_on_volume s vid block_number (length body)
      then let (r, p) = put_blob lib (sp_nodes env) (hybrid_proxy s) \<lparr>blob_id = blob, volume_id = vid\<rparr> block_number body 1
        in (map_sum DataVg (\<lambda>_. ()) r, s\<lparr>hybrid_proxy := p\<rparr>)
      else (map_err from_s3_blob_error (store_put hyphenated (sp_s3 env) blob block_number 1 body), s))"

definition hybrid_put_blob_vectored ::
    "ec_lib \<Rightarrow> (bytes list \<Rightarrow> u64) \<Rightarrow> (Uuid \<Rightarrow> string) \<Rightarrow> storage_put_env \<Rightarrow> S3HybridSingleAzStorage \<Rightarrow> Uuid \<Rightarrow> u16 \<Rightarrow> u32
      \<Rightarrow> bytes list \<Rightarrow> (BlobStorageError + unit) \<times> S3HybridSingleAzStorage" where
  "hybrid_put_blob_vectored lib digest hyphenated env s blob vid block_number chunks =
     (if kept_on_volume s vid block_number (sum_list (map length chunks))
      then let (r, p) = put_blob_vectored lib digest (sp_nodes env) (hybrid_proxy s)
             \<lparr>blob_id = blob, volume_id = vid\<rparr> block_number chunks 1
        in (map_err DataVg r, s\<lparr>hybrid_proxy := p\<rparr>)
      else (map_err from_s3_blob_error (store_put hyphenated (sp_s3 env) blob block_number 1 (concat chunks)), s))"

definition hybrid_get_blob ::
    "ec_lib \<Rightarrow> (Uuid \<Rightarrow> string) \<Rightarrow> storage_get_env \<Rightarrow> S3HybridSingleAzStorage \<Rightarrow> DataBlobGuid \<Rightarrow> u32 \<Rightarrow> u64 \<Rightarrow> nat \<Rightarrow> BlobLocation
      \<Rightarrow> (BlobStorageError, bytes) outcome \<times> S3HybridSingleAzStorage" where
  "hybrid_get_blob lib hyphenated env s guid block_number version content_len location =
     (case location of
        DataVgProxyLocation \<Rightarrow>
          (let (r, p) = get_blob lib (sg_nodes env) (hybrid_proxy s) guid block_number version content_len
           in (map_option (map_err DataVg) r, s\<lparr>hybrid_proxy := p\<rparr>))
      | S3Location \<Rightarrow>
          (Some (map_err (\<lambda>e. if e = S3NotFound then DataVg BlockNotFound else from_s3_blob_error e)
             (store_get hyphenated (sg_s3 env) (blob_id guid) block_number version)), s))"

definition hybrid_delete_blob ::
    "(Uuid \<Rightarrow> string) \<Rightarrow> storage_delete_env \<Rightarrow> S3HybridSingleAzStorage \<Rightarrow> DataBlobGuid \<Rightarrow> u32 \<Rightarrow> u64 \<Rightarrow> BlobLocation
      \<Rightarrow> (BlobStorageError + unit) \<times> S3HybridSingleAzStorage" where
  "hybrid_delete_blob hyphenated env s guid block_number version location =
     (case location of
        DataVgProxyLocation \<Rightarrow>
          (let (r, p) = delete_blob (sd_nodes env) (hybrid_proxy s) guid in (map_err DataVg r, s\<lparr>hybrid_proxy := p\<rparr>))
      | S3Location \<Rightarrow>
          (map_err from_s3_blob_error (store_delete hyphenated (sd_s3 env) (blob_id guid) block_number version), s))"

definition bss_put_blob ::
    "ec_lib \<Rightarrow> storage_put_env \<Rightarrow> AllInBssSingleAzStorage \<Rightarrow> Uuid \<Rightarrow> u16 \<Rightarrow> u32 \<Rightarrow> bytes
      \<Rightarrow> (BlobStorageError + unit) \<times> AllInBssSingleAzStorage" where
  "bss_put_blob lib env s blob vid block_number body =
     (let (r, p) = put_blob lib (sp_nodes env) (bss_proxy s) \<lparr>blob_id = blob, volume_id = vid\<rparr> block_number body 1
      in (map_sum DataVg (\<lambda>_. ()) r, s\<lparr>bss_proxy := p\<rparr>))"

definition bss_put_blob_vectored ::
    "ec_lib \<Rightarrow> (bytes list \<Rightarrow> u64) \<Rightarrow> storage_put_env \<Rightarrow> AllInBssSingleAzStorage \<Rightarrow> Uuid \<Rightarrow> u16 \<Rightarrow> u32 \<Rightarrow> bytes list
      \<Rightarrow> (BlobStorageError + unit) \<times> AllInBssSingleAzStorage" where
  "bss_put_blob_vectored lib digest env s blob vid block_number chunks =
     (let (r, p) = put_blob_vectored lib digest (sp_nodes env) (bss_proxy s)
            \<lparr>blob_id = blob, volume_id = vid\<rparr> block_number chunks 1
      in (map_err DataVg r, s\<lparr>bss_proxy := p\<rparr>))"

definition bss_get_blob ::
    "ec_lib \<Rightarrow> storage_get_env \<Rightarrow> AllInBssSingleAzStorage \<Rightarrow> DataBlobGuid \<Rightarrow> u32 \<Rightarrow> u64 \<Rightarrow> nat
      \<Rightarrow> (BlobStorageError, bytes) outcome \<times> AllInBssSingleAzStorage" where
  "bss_get_blob lib env s guid block_number version content_len =
     (let (r, p) = get_blob lib (sg_nodes env) (bss_proxy s) guid block_number version content_len
      in (map_option (map_err DataVg) r, s\<lparr>bss_proxy := p\<rparr>))"

definition bss_delete_blob ::
    "storage_delete_env \<Rightarrow> AllInBssSingleAzStorage \<Rightarrow> DataBlobGuid \<Rightarrow> (BlobStorageError + unit) \<times> AllInBssSingleAzStorage" where
  "bss_delete_blob env s guid =
     (let (r, p) = delete_blob (sd_nodes env) (bss_proxy s) guid in (map_err DataVg r, s\<lparr>bss_proxy := p\<rparr>))"

section \<open>Dispatch\<close>

definition storage_put_blob ::
    "ec_lib \<Rightarrow> (Uuid \<Rightarrow> string) \<Rightarrow> storage_put_env \<Rightarrow> BlobStorageImpl \<Rightarrow> DataBlobGuid \<Rightarrow> u32 \<Rightarrow> bytes
      \<Rightarrow> (BlobStorageError + unit) \<times> BlobStorageImpl" where
  "storage_put_blob lib hyphenated env st guid block_number body =
     (case st of
        HybridSingleAz s \<Rightarrow>
          apsnd HybridSingleAz (hybrid_put_blob lib hyphenated env s (blob_id guid) (volume_id guid) block_number body)
      | AllInBssSingleAz s \<Rightarrow> apsnd AllInBssSingleAz (bss_put_blob lib env s (blob_id guid) (volume_id guid) block_number body))"

definition storage_put_blob_vectored ::
    "ec_lib \<Rightarrow> (bytes list \<Rightarrow> u64) \<Rightarrow> (Uuid \<Rightarrow> string) \<Rightarrow> storage_put_env \<Rightarrow> BlobStorageImpl \<Rightarrow> DataBlobGuid \<Rightarrow> u32 \<Rightarrow> bytes list
      \<Rightarrow> (BlobStorageError + unit) \<times> BlobStorageImpl" where
  "storage_put_blob_vectored lib digest hyphenated env st guid block_number chunks =
     (case st of
        HybridSingleAz s \<Rightarrow>
          apsnd HybridSingleAz
            (hybrid_put_blob_vectored lib digest hyphenated env s (blob_id guid) (volume_id guid) block_number chunks)
      | AllInBssSingleAz s \<Rightarrow>
          apsnd AllInBssSingleAz (bss_put_blob_vectored lib digest env s (blob_id guid) (volume_id guid) block_number chunks))"

definition storage_get_blob ::
    "ec_lib \<Rightarrow> (Uuid \<Rightarrow> string) \<Rightarrow> storage_get_env \<Rightarrow> BlobStorageImpl \<Rightarrow> DataBlobGuid \<Rightarrow> u32 \<Rightarrow> u64 \<Rightarrow> nat \<Rightarrow> BlobLocation
      \<Rightarrow> (BlobStorageError, bytes) outcome \<times> BlobStorageImpl" where
  "storage_get_blob lib hyphenated env st guid block_number version content_len location =
     (case st of
        HybridSingleAz s \<Rightarrow>
          apsnd HybridSingleAz (hybrid_get_blob lib hyphenated env s guid block_number version content_len location)
      | AllInBssSingleAz s \<Rightarrow> apsnd AllInBssSingleAz (bss_get_blob lib env s guid block_number version content_len))"

definition storage_delete_blob ::
    "(Uuid \<Rightarrow> string) \<Rightarrow> storage_delete_env \<Rightarrow> BlobStorageImpl \<Rightarrow> DataBlobGuid \<Rightarrow> u32 \<Rightarrow> u64 \<Rightarrow> BlobLocation
      \<Rightarrow> (BlobStorageError + unit) \<times> BlobStorageImpl" where
  "storage_delete_blob hyphenated env st guid block_number version location =
     (case st of
        HybridSingleAz s \<Rightarrow> apsnd HybridSingleAz (hybrid_delete_blob hyphenated env s guid block_number version location)
      | AllInBssSingleAz s \<Rightarrow> apsnd AllInBssSingleAz (bss_delete_blob env s guid))"

definition storage_list_blob_blocks ::
    "(u32 \<Rightarrow> u32 \<Rightarrow> list_env) \<Rightarrow> BlobStorageImpl \<Rightarrow> DataBlobGuid \<Rightarrow> (BlobStorageError + (u32 \<times> u64) list) \<times> BlobStorageImpl" where
  "storage_list_blob_blocks env st guid =
     (let pairs = map_sum DataVg (map (\<lambda>entry. (be_block_number entry, be_version entry)))
      in case st of
           HybridSingleAz s \<Rightarrow>
             (let (r, p) = list_all_blob_blocks env (hybrid_proxy s) guid in (pairs r, HybridSingleAz (s\<lparr>hybrid_proxy := p\<rparr>)))
         | AllInBssSingleAz s \<Rightarrow>
             (let (r, p) = list_all_blob_blocks env (bss_proxy s) guid in (pairs r, AllInBssSingleAz (s\<lparr>bss_proxy := p\<rparr>))))"

definition list_s3_blob_blocks ::
    "(Uuid \<Rightarrow> string) \<Rightarrow> s3_client \<Rightarrow> BlobStorageImpl \<Rightarrow> Uuid \<Rightarrow> (BlobStorageError, (u32 \<times> u64) list) outcome" where
  "list_s3_blob_blocks hyphenated client st blob =
     (case st of
        HybridSingleAz _ \<Rightarrow> map_option (map_err from_s3_blob_error) (store_list_blob_blocks hyphenated client blob)
      | AllInBssSingleAz _ \<Rightarrow> Some (Inl (BlobConfig ''S3-resident blob on a BSS-only backend'')))"

section \<open>Blob ids and the volume of a layout\<close>

fun storage_proxy :: "BlobStorageImpl \<Rightarrow> DataVgProxy" where
  "storage_proxy (HybridSingleAz s) = hybrid_proxy s"
| "storage_proxy (AllInBssSingleAz s) = bss_proxy s"

fun with_proxy :: "DataVgProxy \<Rightarrow> BlobStorageImpl \<Rightarrow> BlobStorageImpl" where
  "with_proxy p (HybridSingleAz s) = HybridSingleAz (s\<lparr>hybrid_proxy := p\<rparr>)"
| "with_proxy p (AllInBssSingleAz s) = AllInBssSingleAz (s\<lparr>bss_proxy := p\<rparr>)"

definition create_data_blob_guid_with_size_hint ::
    "Uuid \<Rightarrow> selection_draws \<Rightarrow> nat option \<Rightarrow> BlobStorageImpl \<Rightarrow> (DataBlobGuid \<times> BlobStorageImpl) option" where
  "create_data_blob_guid_with_size_hint fresh draws content_len st =
     (let prefer_ec = (case content_len of None \<Rightarrow> True | Some len \<Rightarrow> unat DEFAULT_BLOCK_SIZE \<le> len)
      in map_option (\<lambda>(guid, p). (guid, with_proxy p st))
           (create_data_blob_guid_with_preference fresh draws (storage_proxy st) prefer_ec))"

definition assign_layout_volume :: "BlobStorageBackend \<Rightarrow> DataBlobGuid \<Rightarrow> u64 \<Rightarrow> DataBlobGuid" where
  "assign_layout_volume backend guid total_size =
     (let in_s3 = (case backend of
            DataInS3 \<Rightarrow> True
          | S3HybridSingleAz \<Rightarrow> ucast DEFAULT_BLOCK_SIZE \<le> total_size \<and> \<not> is_ec_volume_id (volume_id guid)
          | AllInBssBackend \<Rightarrow> False)
      in if in_s3 then guid\<lparr>volume_id := S3_VOLUME\<rparr> else guid)"

section \<open>Keys\<close>

lemma decimal_nonempty [simp]: "decimal n \<noteq> []"
  by (subst decimal.simps) simp

lemma decimal_bound: "n < 10 ^ length (decimal n)"
proof (induction n rule: decimal.induct)
  case (1 n)
  show ?case
  proof (cases "n < 10")
    case True
    then show ?thesis by (subst decimal.simps) simp
  next
    case False
    then have "n div 10 < 10 ^ length (decimal (n div 10))" using 1 by simp
    then have "n < 10 * 10 ^ length (decimal (n div 10))" by (simp add: div_less_iff_less_mult mult.commute)
    then show ?thesis using False by (subst decimal.simps) simp
  qed
qed

lemma decimal_fixed: "decimal n = dec_fixed (length (decimal n)) n"
  using zero_padded_decimal [OF _ decimal_bound, of n] by (simp add: zero_padded_def)

lemma parse_unsigned_decimal: "n < 2 ^ bits \<Longrightarrow> parse_unsigned bits (decimal n) = Some n"
  using parse_unsigned_fixed [OF _ decimal_bound, of n bits] decimal_fixed [of n] by simp

lemma split_once_at_first:
  assumes "hd pat \<notin> set s" "pat \<noteq> []" shows "split_once_at pat (s @ pat @ t) = Some (s, t)"
  using assms(1)
proof (induction s)
  case Nil
  then show ?case using assms(2) strip_prefix_append [of pat t] by (cases pat) simp_all
next
  case (Cons c s)
  have "strip_prefix pat (c # s @ pat @ t) = None"
    using Cons.prems assms(2) by (cases pat) (auto simp: strip_prefix_def)
  then show ?case using Cons by simp
qed

lemma parse_blob_key_of [simp]:
  "parse_blob_key hyphenated (blob_key hyphenated blob block version) blob = Some (block, version)"
proof -
  have "CHR ''-'' \<notin> set (decimal (unat block))" using digit_not decimal_fixed by metis
  then have split: "split_once_at ''-v'' (decimal (unat block) @ ''-v'' @ hex_fixed 16 (unat version)) =
      Some (decimal (unat block), hex_fixed 16 (unat version))"
    by (intro split_once_at_first) simp_all
  have len: "unat block < 2 ^ 32" "unat version < 2 ^ 64" "unat version < 16 ^ 16"
    using unsigned_less [of block, where ?'a = nat] unsigned_less [of version, where ?'a = nat] by simp_all
  have "parse_unsigned 32 (decimal (unat block)) = Some (unat block)" by (rule parse_unsigned_decimal [OF len(1)])
  moreover have "from_str_radix16 64 (hex_fixed 16 (unat version)) = Some (unat version)"
    by (rule from_str_radix16_hex_fixed [OF _ len(3,2)]) simp
  moreover have "strip_prefix (blob_prefix hyphenated blob) (blob_key hyphenated blob block version) =
      Some (decimal (unat block) @ ''-v'' @ hex_fixed 16 (unat version))"
    using strip_prefix_append [of "blob_prefix hyphenated blob"] by (simp add: blob_key_def blob_prefix_def)
  ultimately show ?thesis using split by (simp add: parse_blob_key_def)
qed

text \<open>The key of a block in the S3 store determines the block and its generation, and a listing under
  the prefix of a blob returns the generations of a block in order.\<close>

theorem blob_key_roundtrip:
  "parse_blob_key hyphenated (blob_key hyphenated blob block version) blob = Some (block, version) \<and>
   (blob_key hyphenated blob block version < blob_key hyphenated blob block version' \<longleftrightarrow> version < version')"
proof -
  have len: "unat v < 16 ^ 16" for v :: u64 using unsigned_less [of v, where ?'a = nat] by simp
  have key: "blob_key hyphenated blob block v = (hyphenated blob @ ''-p'' @ decimal (unat block) @ ''-v'') @ hex_fixed 16 (unat v)" for v
    by (simp add: blob_key_def)
  have "blob_key hyphenated blob block version < blob_key hyphenated blob block version' \<longleftrightarrow> version < version'"
    unfolding key append_less_append [OF refl] using hex_fixed_less [OF len len, of version version']
    by (simp add: word_less_nat_alt)
  then show ?thesis by simp
qed

section \<open>Where a block goes and where it is read\<close>

fun storage_backend :: "BlobStorageImpl \<Rightarrow> BlobStorageBackend" where
  "storage_backend (HybridSingleAz s) = (if all_data_in_s3 s then DataInS3 else S3HybridSingleAz)"
| "storage_backend (AllInBssSingleAz s) = AllInBssBackend"

fun put_in_s3 :: "BlobStorageImpl \<Rightarrow> u16 \<Rightarrow> u32 \<Rightarrow> nat \<Rightarrow> bool" where
  "put_in_s3 (HybridSingleAz s) vid block len = (\<not> kept_on_volume s vid block len)"
| "put_in_s3 (AllInBssSingleAz s) vid block len = False"

fun read_in_s3 :: "BlobStorageImpl \<Rightarrow> BlobLocation \<Rightarrow> bool" where
  "read_in_s3 (HybridSingleAz s) location = (location = S3Location)"
| "read_in_s3 (AllInBssSingleAz s) location = False"

definition guid_location :: "DataBlobGuid \<Rightarrow> BlobLocation" where
  "guid_location guid = (if volume_id guid = S3_VOLUME then S3Location else DataVgProxyLocation)"

abbreviation block_len :: nat where "block_len \<equiv> unat DEFAULT_BLOCK_SIZE"

lemma block_len_pos: "0 < block_len" by (simp add: DEFAULT_BLOCK_SIZE_def)

lemma blocks_of_index:
  assumes "0 < bs" "i < length (blocks_of bs xs)"
  shows "i * bs < length xs" "blocks_of bs xs ! i = take bs (drop (i * bs) xs)"
proof -
  have "i < (length xs + bs - 1) div bs" using assms length_blocks_of by metis
  then have "Suc i * bs \<le> length xs + bs - 1"
    using div_times_less_eq_dividend [of "length xs + bs - 1" bs] by (metis Suc_leI le_trans mult_le_mono1)
  then show i: "i * bs < length xs" using assms(1) by simp
  then show "blocks_of bs xs ! i = take bs (drop (i * bs) xs)" using blocks_of_nth [OF assms(1)] by blast
qed

lemma block_routing:
  assumes "volume_id guid \<noteq> S3_VOLUME" "i < length (blocks_of block_len body)" "length body < 2 ^ 64" "i < 2 ^ 32"
  shows "put_in_s3 st (volume_id guid) (word_of_nat i) (length (blocks_of block_len body ! i)) \<longleftrightarrow>
    read_in_s3 st (guid_location (assign_layout_volume (storage_backend st) guid (word_of_nat (length body))))"
proof (cases st)
  case (HybridSingleAz s)
  note ix = blocks_of_index [OF block_len_pos assms(2)]
  have zero: "(word_of_nat i :: u32) = 0 \<longleftrightarrow> i = 0" using assms(4) by (auto simp: word_of_nat_eq_0_iff dest: dvd_imp_le)
  have big: "ucast DEFAULT_BLOCK_SIZE \<le> (word_of_nat (length body) :: u64) \<longleftrightarrow> block_len \<le> length body"
    using assms(3) by (simp add: word_le_nat_alt unat_of_nat DEFAULT_BLOCK_SIZE_def)
  have "i = 0 \<and> length (blocks_of block_len body ! i) < block_len \<longleftrightarrow> length body < block_len"
  proof (cases "i = 0")
    case True
    then show ?thesis using ix by auto
  next
    case False
    then have "block_len \<le> i * block_len" by simp
    then show ?thesis using ix(1) False by linarith
  qed
  then show ?thesis
    using HybridSingleAz zero big assms(1)
    by (auto simp: kept_on_volume_def assign_layout_volume_def guid_location_def)
next
  case (AllInBssSingleAz s)
  then show ?thesis by simp
qed

section \<open>Reading back a block\<close>

text \<open>What no block operation changes of a storage.\<close>

fun storage_shape :: "BlobStorageImpl \<Rightarrow> bool option \<times> (u16 \<times> VolumeMode \<times> string list \<times> u64) list" where
  "storage_shape (HybridSingleAz s) = (Some (all_data_in_s3 s), proxy_shape (hybrid_proxy s))"
| "storage_shape (AllInBssSingleAz s) = (None, proxy_shape (bss_proxy s))"

lemma storage_shape_kept:
  "storage_shape (snd (storage_put_blob lib hyphenated penv st guid b body)) = storage_shape st"
  "storage_shape (snd (storage_put_blob_vectored lib digest hyphenated penv st guid b chunks)) = storage_shape st"
  "storage_shape (snd (storage_get_blob lib hyphenated genv st guid b version len loc)) = storage_shape st"
  "storage_shape (snd (storage_delete_blob hyphenated denv st guid b version loc)) = storage_shape st"
  "storage_shape (snd (storage_list_blob_blocks lenv st guid)) = storage_shape st"
proof -
  note kept = put_op.proxy_kept(1) put_vectored_op.proxy_kept(1) get_op.proxy_kept(1) delete_op.proxy_kept(1) list_op.proxy_kept(1)
  show "storage_shape (snd (storage_put_blob lib hyphenated penv st guid b body)) = storage_shape st"
    by (cases st) (simp_all add: storage_put_blob_def hybrid_put_blob_def bss_put_blob_def put_blob_def put_blob_inner_def
        kept case_prod_unfold Let_def)
  show "storage_shape (snd (storage_put_blob_vectored lib digest hyphenated penv st guid b chunks)) = storage_shape st"
    by (cases st) (simp_all add: storage_put_blob_vectored_def hybrid_put_blob_vectored_def bss_put_blob_vectored_def
        put_blob_vectored_def kept case_prod_unfold Let_def)
  show "storage_shape (snd (storage_get_blob lib hyphenated genv st guid b version len loc)) = storage_shape st"
    by (cases st; cases loc) (simp_all add: storage_get_blob_def hybrid_get_blob_def bss_get_blob_def get_blob_def
        kept case_prod_unfold Let_def)
  show "storage_shape (snd (storage_delete_blob hyphenated denv st guid b version loc)) = storage_shape st"
    by (cases st; cases loc) (simp_all add: storage_delete_blob_def hybrid_delete_blob_def bss_delete_blob_def delete_blob_def
        kept case_prod_unfold Let_def)
  show "storage_shape (snd (storage_list_blob_blocks lenv st guid)) = storage_shape st"
    by (cases st) (simp_all add: storage_list_blob_blocks_def list_all_blob_blocks_def list_blob_blocks_inner_def
        kept case_prod_unfold Let_def)
qed

text \<open>A node answers \<open>VersionSkipped\<close> only for a key it already holds.\<close>

definition fresh_key :: "put_env \<Rightarrow> bool" where
  "fresh_key penv \<longleftrightarrow> (\<forall>i r. pe_rpc penv i r \<noteq> Inl VersionSkipped)"

lemma put_loop_stored:
  assumes "\<forall>i. res i \<noteq> Inl VersionSkipped" "fst (put_loop res dn w order sw Stored errs nodes) = Inr out"
  shows "out = Stored"
proof -
  obtain r pending nodes' where loop: "put_loop res dn w order sw Stored errs nodes = (r, pending, nodes')" by (metis prod_cases3)
  then show ?thesis using assms put_loop_ok [of res dn w order sw Stored errs nodes out pending nodes'] by auto
qed

lemma put_volume_stored:
  assumes "fresh_key penv" "fst (put_volume lib penv guid block body version v) = Inr out"
  shows "out = Stored"
proof (cases "is_ec_mode (vol_mode v)")
  case True
  then show ?thesis
    using assms
    by (auto simp: put_volume_def put_blob_ec_def fresh_key_def put_blob_to_node_def Let_def case_prod_unfold
        split: if_splits option.splits dest!: put_loop_stored [rotated])
next
  case False
  then show ?thesis
    using assms
    by (auto simp: put_volume_def put_blob_replicated_def put_to_quorum_def fresh_key_def put_blob_to_node_def Let_def
        case_prod_unfold split: if_splits dest!: put_loop_stored [rotated])
qed

lemma put_volume_vectored_eq:
  assumes "\<And>cs. digest cs = lib_xxh3 lib (concat cs)"
  shows "put_volume_vectored lib digest env guid block chunks version v =
    apfst (map_sum id (\<lambda>_. ())) (put_volume lib env guid block (concat chunks) version v)"
  by (simp add: put_volume_vectored_def put_volume_def put_blob_vectored_replicated_def put_blob_replicated_def
      put_blob_to_node_def put_blob_to_node_vectored_def assms Let_def case_prod_unfold apfst_def map_prod_def)

text \<open>What the gateway relies on between the put and a read of a block: the S3 service, or the nodes of the
  volume, keep what they acknowledged and return nothing else for its key.\<close>

definition block_kept ::
    "ec_lib \<Rightarrow> (Uuid \<Rightarrow> string) \<Rightarrow> storage_put_env \<Rightarrow> BlobStorageImpl \<Rightarrow> DataBlobGuid \<Rightarrow> u32 \<Rightarrow> bytes \<Rightarrow> storage_get_env \<Rightarrow> bool" where
  "block_kept lib hyphenated penv st guid block body genv \<longleftrightarrow>
     (if put_in_s3 st (volume_id guid) block (length body)
      then s3_get_object (sg_s3 genv) (blob_key hyphenated (blob_id guid) block 1) \<noteq> GetNoSuchKey \<and>
        (\<forall>b. s3_get_object (sg_s3 genv) (blob_key hyphenated (blob_id guid) block 1) = GotObject (Inr b) \<longrightarrow> b = body)
      else fresh_key (sp_nodes penv) \<and>
        (\<forall>v. find_volume (storage_proxy st) (volume_id guid) = Some v \<longrightarrow>
          (\<exists>holds. nodes_keep lib (sp_nodes penv) v guid block body 1 (sg_nodes genv) holds)))"

lemma proxy_read_back:
  assumes "proxy_ok p" "\<And>cs. digest cs = lib_xxh3 lib (concat cs)" "fresh_key penv"
    and "fst (put_blob_vectored lib digest penv p guid block chunks 1) = Inr ()"
    and "\<forall>v. find_volume p (volume_id guid) = Some v \<longrightarrow> (\<exists>holds. nodes_keep lib penv v guid block (concat chunks) 1 genv holds)"
    and "proxy_shape q = proxy_shape p"
  shows "fst (get_blob lib genv q guid block 1 (length (concat chunks))) = Some (Inr (concat chunks)) \<or>
    (\<exists>r. fst (get_blob lib genv q guid block 1 (length (concat chunks))) = Some (Inl (QuorumFailure r)))"
proof -
  obtain v where v: "find_volume p (volume_id guid) = Some v"
    and put: "fst (put_volume_vectored lib digest penv guid block chunks 1 v) = Inr ()"
    using assms(4) by (auto simp: put_blob_vectored_def put_vectored_op.result split: option.splits)
  obtain out where out: "fst (put_volume lib penv guid block (concat chunks) 1 v) = Inr out"
    using put unfolding put_volume_vectored_eq [of digest lib, OF assms(2)]
    by (cases "fst (put_volume lib penv guid block (concat chunks) 1 v)") auto
  then have stored: "fst (put_volume lib penv guid block (concat chunks) 1 v) = Inr Stored"
    using put_volume_stored [OF assms(3) out] by simp
  obtain w where w: "find_volume q (volume_id guid) = Some w" "volume_shape w = volume_shape v"
    using proxy_shape_find [OF assms(6) [symmetric] v] by blast
  obtain holds where "nodes_keep lib penv v guid block (concat chunks) 1 genv holds" using assms(5) v by blast
  from put_then_get_volume [OF find_volume_ok [OF assms(1) v] stored w(2) this] show ?thesis
    using w(1) by (simp add: get_blob_def get_op.result)
qed

lemma assign_keeps_id [simp]: "blob_id (assign_layout_volume backend guid len) = blob_id guid"
  by (simp add: assign_layout_volume_def Let_def)

lemma assign_same_volume:
  assumes "volume_id guid \<noteq> S3_VOLUME" "\<not> read_in_s3 st (guid_location (assign_layout_volume (storage_backend st) guid len))"
  shows "assign_layout_volume (storage_backend st) guid len = guid"
  using assms by (cases st) (auto simp: assign_layout_volume_def guid_location_def split: if_splits)

lemma block_read_back:
  assumes "proxy_ok (storage_proxy st)" "\<And>cs. digest cs = lib_xxh3 lib (concat cs)"
    and "volume_id guid \<noteq> S3_VOLUME" "i < length (blocks_of block_len body)" "length body < 2 ^ 64" "i < 2 ^ 32"
    and "concat chunks = blocks_of block_len body ! i"
    and "fst (storage_put_blob_vectored lib digest hyphenated penv st guid (word_of_nat i) chunks) = Inr ()"
    and "block_kept lib hyphenated penv st guid (word_of_nat i) (concat chunks) genv"
    and "storage_shape st2 = storage_shape st"
  defines "guid' \<equiv> assign_layout_volume (storage_backend st) guid (word_of_nat (length body))"
  shows "fst (storage_get_blob lib hyphenated genv st2 guid' (word_of_nat i) 1 (length (concat chunks)) (guid_location guid')) =
      Some (Inr (concat chunks)) \<or>
    (\<exists>e. fst (storage_get_blob lib hyphenated genv st2 guid' (word_of_nat i) 1 (length (concat chunks)) (guid_location guid')) =
      Some (Inl e) \<and> e \<noteq> DataVg BlockNotFound)"
proof -
  have len: "sum_list (map length chunks) = length (concat chunks)" by (simp add: length_concat)
  have route: "put_in_s3 st (volume_id guid) (word_of_nat i) (length (concat chunks)) \<longleftrightarrow> read_in_s3 st (guid_location guid')"
    unfolding assms(7) guid'_def by (rule block_routing [OF assms(3-6)])
  show ?thesis
  proof (cases "read_in_s3 st (guid_location guid')")
    case True
    then obtain s s2 where st: "st = HybridSingleAz s" "st2 = HybridSingleAz s2" "guid_location guid' = S3Location"
      using assms(10) by (cases st; cases st2) auto
    have "s3_get_object (sg_s3 genv) (blob_key hyphenated (blob_id guid) (word_of_nat i) 1) \<noteq> GetNoSuchKey"
      "\<And>b. s3_get_object (sg_s3 genv) (blob_key hyphenated (blob_id guid) (word_of_nat i) 1) = GotObject (Inr b) \<Longrightarrow> b = concat chunks"
      using assms(9) True route by (simp_all add: block_kept_def)
    then show ?thesis
      using st(2,3)
      by (auto simp: storage_get_blob_def hybrid_get_blob_def store_get_def guid'_def
          split: S3GetAnswer.splits sum.splits)
  next
    case False
    then have same: "guid' = guid" using assign_same_volume [OF assms(3)] by (simp add: guid'_def)
    have kept: "fresh_key (sp_nodes penv)" "\<forall>v. find_volume (storage_proxy st) (volume_id guid) = Some v \<longrightarrow>
        (\<exists>holds. nodes_keep lib (sp_nodes penv) v guid (word_of_nat i) (concat chunks) 1 (sg_nodes genv) holds)"
      using assms(9) False route by (simp_all add: block_kept_def)
    have eta: "\<lparr>blob_id = blob_id guid, volume_id = volume_id guid\<rparr> = guid" by (cases guid) simp
    have put: "fst (put_blob_vectored lib digest (sp_nodes penv) (storage_proxy st) guid (word_of_nat i) chunks 1) = Inr ()"
      using assms(8) False route len
      by (cases st; cases "fst (put_blob_vectored lib digest (sp_nodes penv) (storage_proxy st) guid (word_of_nat i) chunks 1)")
        (auto simp: storage_put_blob_vectored_def hybrid_put_blob_vectored_def bss_put_blob_vectored_def eta case_prod_unfold Let_def
          split: if_splits)
    have "proxy_shape (storage_proxy st2) = proxy_shape (storage_proxy st)" using assms(10) by (cases st; cases st2) auto
    from proxy_read_back [OF assms(1,2) kept(1) put kept(2) this]
    have "fst (get_blob lib (sg_nodes genv) (storage_proxy st2) guid (word_of_nat i) 1 (length (concat chunks))) = Some (Inr (concat chunks)) \<or>
      (\<exists>r. fst (get_blob lib (sg_nodes genv) (storage_proxy st2) guid (word_of_nat i) 1 (length (concat chunks))) = Some (Inl (QuorumFailure r)))" .
    moreover have "guid_location guid = DataVgProxyLocation" using assms(3) by (simp add: guid_location_def)
    ultimately show ?thesis
      unfolding same
      by (cases st2) (auto simp: storage_get_blob_def hybrid_get_blob_def bss_get_blob_def case_prod_unfold Let_def)
  qed
qed

end
