(* ===== verification/Get_Object.thy ===== *)
theory Get_Object
  imports Blob_Storage Aws_Streaming "HOL-Library.AList"
begin

text \<open>
  GET of an object, \<open>s3_gateway/src/handler/get/get_object.rs\<close>: the row map of an overwritten blob, reads of
  single blocks at their committed generation, whole and partial bodies of plain and multipart
  objects, and the handler.

  A body is the list of items its stream yields when it is polled to the end; \<open>None\<close> is a panic, which
  ends it. Block reads take what the storage and the name server answer at that moment from the
  environment \<open>block_env\<close>, and thread the storage, whose circuit breakers they change. The cache of
  row maps is explicit, the cache of buckets is not modelled. The \<open>http_range\<close> parser, base64 and date
  formatting are parameters.
\<close>

section \<open>Row maps\<close>

definition OVR_ABORT_VALUE :: bytes where "OVR_ABORT_VALUE = [1]"

fun absorb_rows :: "(string \<times> bytes) list \<Rightarrow> OvrRowMap \<Rightarrow> S3Error + OvrRowMap" where
  "absorb_rows [] rm = Inr rm"
| "absorb_rows ((key, val) # page) rm =
     (case parse_ovr_row_block key of
        Some block \<Rightarrow>
          (case decode_row val of
             None \<Rightarrow> Inl InternalError
           | Some row \<Rightarrow> absorb_rows page (row_map_insert rm block row))
      | None \<Rightarrow>
          (case parse_ovr_abort_range key of
             Some (lo, hi) \<Rightarrow>
               (if val \<noteq> OVR_ABORT_VALUE then Inl InternalError else absorb_rows page (add_aborted_range rm lo hi))
           | None \<Rightarrow> Inl InternalError))"

text \<open>The listing answers by the key to start after.\<close>

partial_function (option) load_rows ::
    "(string \<Rightarrow> RpcError + ListInodesResponse option) \<Rightarrow> string \<Rightarrow> OvrRowMap \<Rightarrow> (S3Error, OvrRowMap) outcome option" where
  "load_rows list start_after rm =
     (case list start_after of
        Inl e \<Rightarrow> Some (Some (Inl (s3_from_rpc e)))
      | Inr response \<Rightarrow>
          (case parse_list_inodes_raw response of
             None \<Rightarrow> Some None
           | Some (Inl NssNoSuchRootBlob) \<Rightarrow> Some (Some (Inl NoSuchBucket))
           | Some (Inl _) \<Rightarrow> Some (Some (Inl InternalError))
           | Some (Inr (page, following)) \<Rightarrow>
               (case absorb_rows page rm of
                  Inl e \<Rightarrow> Some (Some (Inl e))
                | Inr rm' \<Rightarrow>
                    if page = [] \<or> \<not> following then Some (Some (Inr rm'))
                    else load_rows list (fst (last page)) rm')))"

type_synonym row_cache = "Uuid \<times> u64 \<Rightarrow> OvrRowMap option"

definition load_row_map ::
    "(string \<Rightarrow> RpcError + ListInodesResponse option) \<Rightarrow> ObjectLayout \<Rightarrow> row_cache
      \<Rightarrow> ((S3Error, OvrRowMap option) outcome \<times> row_cache) option" where
  "load_row_map list layout cache =
     (if \<not> is_mapped layout then Some (Some (Inr None), cache)
      else case blob_guid layout of
          Inl e \<Rightarrow> Some (Some (Inl (s3_from_layout e)), cache)
        | Inr guid \<Rightarrow>
            (let cache_key = (blob_id guid, map_epoch layout)
             in case cache cache_key of
                  Some rm \<Rightarrow> Some (Some (Inr (Some rm)), cache)
                | None \<Rightarrow>
                    map_option (\<lambda>r. case r of
                        Some (Inr rm) \<Rightarrow> (Some (Inr (Some rm)), cache(cache_key \<mapsto> rm))
                      | Some (Inl e) \<Rightarrow> (Some (Inl e), cache)
                      | None \<Rightarrow> (None, cache))
                    (load_rows list [] (row_map_new (map_epoch layout)))))"

section \<open>One block\<close>

record block_env =
  be_storage :: storage_get_env
  be_current :: "RpcError + GetInodeResult option"

definition same_committed_read_snapshot :: "ObjectLayout \<Rightarrow> ObjectLayout \<Rightarrow> bool" where
  "same_committed_read_snapshot expected current \<longleftrightarrow>
     version_id expected = version_id current \<and> block_size expected = block_size current \<and>
     blob_version expected = blob_version current \<and> map_epoch expected = map_epoch current \<and>
     state expected = state current"

definition validate_base_miss ::
    "(bytes \<Rightarrow> string + ObjectLayout) \<Rightarrow> ObjectLayout \<Rightarrow> RpcError + GetInodeResult option \<Rightarrow> (S3Error, unit) outcome" where
  "validate_base_miss from_bytes layout answer =
     (case fst (get_raw_object from_bytes answer) of
        None \<Rightarrow> None
      | Some (Inr current) \<Rightarrow>
          Some (if same_committed_read_snapshot layout current then Inr () else Inl InternalError)
      | Some (Inl e) \<Rightarrow> Some (Inl (if e = NoSuchKey \<or> e = NoSuchBucket then InternalError else e)))"

text \<open>The parameters that all reads of an object share.\<close>

record gateway =
  gw_lib :: ec_lib
  gw_hyphenated :: "Uuid \<Rightarrow> string"
  gw_from_bytes :: "bytes \<Rightarrow> string + ObjectLayout"

definition read_block ::
    "gateway \<Rightarrow> block_env \<Rightarrow> BlobStorageImpl \<Rightarrow> ObjectLayout \<Rightarrow> DataBlobGuid \<Rightarrow> u32 \<Rightarrow> nat \<Rightarrow> nat \<Rightarrow> BlobLocation
      \<Rightarrow> OvrRowMap option \<Rightarrow> u64 \<Rightarrow> (S3Error, bytes) outcome \<times> BlobStorageImpl" where
  "read_block gw env st snapshot guid block_number content_len bs location rowmap ceiling =
     (case block_fetch_plan rowmap block_number ceiling bs content_len of
        Zeros \<Rightarrow> (Some (Inr (zeros content_len)), st)
      | StalePlan \<Rightarrow> (Some (Inl InternalError), st)
      | Fetch version read_len miss_is_loss \<Rightarrow>
          (case storage_get_blob (gw_lib gw) (gw_hyphenated gw) (be_storage env) st guid block_number version read_len location of
             (None, st') \<Rightarrow> (None, st')
           | (Some (Inr body), st') \<Rightarrow> (Some (Inr (take content_len body)), st')
           | (Some (Inl e), st') \<Rightarrow>
               (if e = DataVg BlockNotFound
                then (if miss_is_loss then Some (Inl InternalError)
                      else and_then (validate_base_miss (gw_from_bytes gw) snapshot (be_current env)) (\<lambda>_. Some (Inr (zeros content_len))))
                else Some (Inl (s3_from_storage e)), st')))"

section \<open>Bodies\<close>

text \<open>The bytes of block \<open>i\<close> that belong to the object.\<close>

definition content_len_of :: "nat \<Rightarrow> nat \<Rightarrow> nat \<Rightarrow> nat \<Rightarrow> nat" where
  "content_len_of i n size_of bs = (if Suc i = n then size_of - bs * i else bs)"

type_synonym reader = "nat \<Rightarrow> BlobStorageImpl \<Rightarrow> (S3Error, bytes) outcome \<times> BlobStorageImpl"

fun block_items :: "reader \<Rightarrow> nat list \<Rightarrow> BlobStorageImpl \<Rightarrow> (S3Error, bytes) outcome list \<times> BlobStorageImpl" where
  "block_items rd [] st = ([], st)"
| "block_items rd (i # is) st =
     (let (r, st') = rd i st
      in if r = None then ([None], st') else apfst ((#) r) (block_items rd is st'))"

definition get_full_blob_stream ::
    "reader \<Rightarrow> nat \<Rightarrow> BlobStorageImpl \<Rightarrow> (S3Error, (S3Error, bytes) outcome list) outcome \<times> BlobStorageImpl" where
  "get_full_blob_stream rd n st =
     (if n = 0 then (Some (Inr []), st)
      else case rd 0 st of
          (None, st') \<Rightarrow> (None, st')
        | (Some (Inl e), st') \<Rightarrow> (Some (Inl e), st')
        | (Some (Inr first_block), st') \<Rightarrow>
            (if n = 1 then (Some (Inr [Some (Inr first_block)]), st')
             else apfst (\<lambda>items. Some (Inr (Some (Inr first_block) # items))) (block_items rd [1..<n] st')))"

text \<open>The blocks of a range, cut to it on the way; an item past its end stops the stream.\<close>

fun range_items ::
    "reader \<Rightarrow> nat \<Rightarrow> nat \<Rightarrow> nat list \<Rightarrow> nat \<Rightarrow> BlobStorageImpl \<Rightarrow> (S3Error, bytes) outcome list \<times> BlobStorageImpl" where
  "range_items rd range_start range_end [] chunk_offset st = ([], st)"
| "range_items rd range_start range_end (i # is) chunk_offset st =
     (case rd i st of
        (None, st') \<Rightarrow> ([None], st')
      | (Some (Inl e), st') \<Rightarrow> apfst ((#) (Some (Inl e))) (range_items rd range_start range_end is chunk_offset st')
      | (Some (Inr chunk), st') \<Rightarrow>
          (let next_offset = chunk_offset + length chunk
           in if range_end \<le> chunk_offset then ([], st')
              else if next_offset \<le> range_start then range_items rd range_start range_end is next_offset st'
              else
                let start_in_chunk = range_start - chunk_offset;
                    end_in_chunk = (if next_offset < range_end then length chunk else range_end - chunk_offset)
                in apfst ((#) (Some (Inr (drop start_in_chunk (take end_in_chunk chunk)))))
                     (range_items rd range_start range_end is next_offset st')))"

text \<open>Division by a block size of zero panics, and so does \<open>end - 1\<close> for an empty range at zero where overflow is checked.\<close>

definition get_range_blob_stream ::
    "reader \<Rightarrow> nat \<Rightarrow> nat \<Rightarrow> nat \<Rightarrow> BlobStorageImpl \<Rightarrow> ((S3Error, bytes) outcome list \<times> BlobStorageImpl) option" where
  "get_range_blob_stream rd bs range_start range_end st =
     (if bs = 0 \<or> range_end = 0 then None
      else let start_block_i = range_start div bs; end_block_i = (range_end - 1) div bs
        in Some (range_items rd range_start range_end [start_block_i..<Suc end_block_i] (bs * start_block_i) st))"

text \<open>The reader of a layout: what the streams pass to \<open>read_block\<close> for block \<open>i\<close>.\<close>

definition layout_reader ::
    "gateway \<Rightarrow> (nat \<Rightarrow> block_env) \<Rightarrow> ObjectLayout \<Rightarrow> DataBlobGuid \<Rightarrow> nat \<Rightarrow> nat \<Rightarrow> BlobLocation \<Rightarrow> OvrRowMap option \<Rightarrow> reader" where
  "layout_reader gw env layout guid n size_of location rowmap i st =
     read_block gw (env i) st layout guid (word_of_nat i) (content_len_of i n size_of (unat (block_size layout)))
       (unat (block_size layout)) location rowmap (blob_version layout)"

text \<open>The fields of a layout that its streams need; each accessor may fail. On a plain layout only the number of blocks can,
  and on any other the blob id fails first, so the order of the accessors, which varies, is not visible.\<close>

definition blob_fields :: "ObjectLayout \<Rightarrow> (S3Error, DataBlobGuid \<times> nat \<times> nat \<times> BlobLocation) outcome" where
  "blob_fields layout =
     and_then (Some (map_err s3_from_layout (blob_guid layout))) (\<lambda>guid.
     and_then (map_option (map_err s3_from_layout) (num_blocks layout)) (\<lambda>n.
     and_then (Some (map_err s3_from_layout (layout_size layout))) (\<lambda>sz.
     and_then (Some (map_err s3_from_layout (get_blob_location layout))) (\<lambda>location.
       Some (Inr (guid, n, unat sz, location))))))"

record content_env =
  ce_rows :: "string \<Rightarrow> RpcError + ListInodesResponse option"
  ce_parts :: "RpcError + ListInodesResponse option"
  ce_block :: "nat \<Rightarrow> nat \<Rightarrow> block_env"

text \<open>The stream of part \<open>j\<close>; an error before its first block is an item of the whole stream.\<close>

definition part_stream ::
    "gateway \<Rightarrow> content_env \<Rightarrow> nat \<Rightarrow> ObjectLayout \<Rightarrow> BlobStorageImpl \<Rightarrow> (S3Error, bytes) outcome list \<times> BlobStorageImpl" where
  "part_stream gw env j part st =
     (case blob_fields part of
        None \<Rightarrow> ([None], st)
      | Some (Inl e) \<Rightarrow> ([Some (Inl e)], st)
      | Some (Inr (guid, n, sz, location)) \<Rightarrow>
          (case get_full_blob_stream (layout_reader gw (ce_block env j) part guid n sz location None) n st of
             (None, st') \<Rightarrow> ([None], st')
           | (Some (Inl e), st') \<Rightarrow> ([Some (Inl e)], st')
           | (Some (Inr items), st') \<Rightarrow> (items, st')))"

text \<open>\<open>try_flatten\<close>; a panic ends it.\<close>

fun flatten_streams ::
    "(nat \<Rightarrow> 'p \<Rightarrow> BlobStorageImpl \<Rightarrow> (S3Error, bytes) outcome list \<times> BlobStorageImpl) \<Rightarrow> nat \<Rightarrow> 'p list \<Rightarrow> BlobStorageImpl
      \<Rightarrow> (S3Error, bytes) outcome list \<times> BlobStorageImpl" where
  "flatten_streams f j [] st = ([], st)"
| "flatten_streams f j (p # ps) st =
     (let (items, st') = f j p st
      in if None \<in> set items then (items, st') else apfst ((@) items) (flatten_streams f (Suc j) ps st'))"

text \<open>\<open>Vec::swap_remove\<close> panics out of range; \<open>n as usize - 1\<close> overflows for part 0.\<close>

definition select_part :: "u32 option \<Rightarrow> u64 \<Rightarrow> (string \<times> ObjectLayout) list
      \<Rightarrow> (S3Error, (string \<times> ObjectLayout) list \<times> u64) outcome" where
  "select_part part_number total_size mpus =
     (case part_number of
        None \<Rightarrow> Some (Inr (mpus, total_size))
      | Some n \<Rightarrow>
          (if n = 0 \<or> length mpus \<le> unat n - 1 then None
           else let mpu = mpus ! (unat n - 1)
             in Some (map_sum s3_from_layout (\<lambda>sz. ([mpu], sz)) (layout_size (snd mpu)))))"

definition get_object_content ::
    "gateway \<Rightarrow> content_env \<Rightarrow> ObjectLayout \<Rightarrow> u32 option \<Rightarrow> row_cache \<Rightarrow> BlobStorageImpl
      \<Rightarrow> ((S3Error, (S3Error, bytes) outcome list \<times> u64) outcome \<times> row_cache \<times> BlobStorageImpl) option" where
  "get_object_content gw env object part_number cache st =
     (case state object of
        Normal _ \<Rightarrow>
          (case blob_fields object of
             None \<Rightarrow> Some (None, cache, st)
           | Some (Inl e) \<Rightarrow> Some (Some (Inl e), cache, st)
           | Some (Inr (guid, n, sz, location)) \<Rightarrow>
               map_option (\<lambda>(rows_result, cache'). case rows_result of
                   None \<Rightarrow> (None, cache', st)
                 | Some (Inl e) \<Rightarrow> (Some (Inl e), cache', st)
                 | Some (Inr rowmap) \<Rightarrow>
                     (let (r, st') = get_full_blob_stream (layout_reader gw (ce_block env 0) object guid n sz location rowmap) n st
                      in (map_option (map_sum id (\<lambda>items. (items, word_of_nat sz))) r, cache', st')))
               (load_row_map (ce_rows env) object cache))
      | Mpu (Completed core) \<Rightarrow>
          (case and_then (list_raw_objects (gw_from_bytes gw) (ce_parts env)) (select_part part_number (core_size core)) of
             None \<Rightarrow> Some (None, cache, st)
           | Some (Inl e) \<Rightarrow> Some (Some (Inl e), cache, st)
           | Some (Inr (parts, body_size)) \<Rightarrow>
               (let (items, st') = flatten_streams (part_stream gw env) 0 (map snd parts) st
                in Some (Some (Inr (items, body_size)), cache, st')))
      | _ \<Rightarrow> Some (Some (Inl InvalidObjectState), cache, st))"

text \<open>The parts that a range meets, each with the range within it.\<close>

fun range_parts :: "nat \<Rightarrow> nat \<Rightarrow> nat \<Rightarrow> ObjectLayout list \<Rightarrow> S3Error + (ObjectLayout \<times> nat \<times> nat) list" where
  "range_parts range_start range_end obj_offset [] = Inr []"
| "range_parts range_start range_end obj_offset (mpu_obj # mpus) =
     (case layout_size mpu_obj of
        Inl e \<Rightarrow> Inl (s3_from_layout e)
      | Inr sz \<Rightarrow>
          (let mpu_size = unat sz
           in if range_end \<le> obj_offset then Inr []
              else if range_start < obj_offset + mpu_size then
                let blob_start = range_start - obj_offset;
                    blob_end = (if obj_offset + mpu_size < range_end then mpu_size else range_end - obj_offset)
                in map_sum id ((#) (mpu_obj, blob_start, blob_end)) (range_parts range_start range_end (obj_offset + mpu_size) mpus)
              else range_parts range_start range_end (obj_offset + mpu_size) mpus))"

definition part_range_stream ::
    "gateway \<Rightarrow> content_env \<Rightarrow> nat \<Rightarrow> ObjectLayout \<times> nat \<times> nat \<Rightarrow> BlobStorageImpl
      \<Rightarrow> (S3Error, bytes) outcome list \<times> BlobStorageImpl" where
  "part_range_stream gw env j part st =
     (case part of (mpu_obj, blob_start, blob_end) \<Rightarrow>
        (case blob_fields mpu_obj of
           None \<Rightarrow> ([None], st)
         | Some (Inl e) \<Rightarrow> ([Some (Inl e)], st)
         | Some (Inr (guid, n, sz, location)) \<Rightarrow>
             (case get_range_blob_stream (layout_reader gw (ce_block env j) mpu_obj guid n sz location None)
                 (unat (block_size mpu_obj)) blob_start blob_end st of
                None \<Rightarrow> ([None], st)
              | Some r \<Rightarrow> r)))"

definition get_object_range_content ::
    "gateway \<Rightarrow> content_env \<Rightarrow> ObjectLayout \<Rightarrow> nat \<Rightarrow> nat \<Rightarrow> row_cache \<Rightarrow> BlobStorageImpl
      \<Rightarrow> ((S3Error, (S3Error, bytes) outcome list) outcome \<times> row_cache \<times> BlobStorageImpl) option" where
  "get_object_range_content gw env object range_start range_end cache st =
     (case state object of
        Normal _ \<Rightarrow>
          (case blob_fields object of
             None \<Rightarrow> Some (None, cache, st)
           | Some (Inl e) \<Rightarrow> Some (Some (Inl e), cache, st)
           | Some (Inr (guid, n, sz, location)) \<Rightarrow>
               map_option (\<lambda>(rows_result, cache'). case rows_result of
                   None \<Rightarrow> (None, cache', st)
                 | Some (Inl e) \<Rightarrow> (Some (Inl e), cache', st)
                 | Some (Inr rowmap) \<Rightarrow>
                     (case get_range_blob_stream (layout_reader gw (ce_block env 0) object guid n sz location rowmap)
                         (unat (block_size object)) range_start range_end st of
                        None \<Rightarrow> (None, cache', st)
                      | Some (items, st') \<Rightarrow> (Some (Inr items), cache', st')))
               (load_row_map (ce_rows env) object cache))
      | Mpu (Completed core) \<Rightarrow>
          (case and_then (list_raw_objects (gw_from_bytes gw) (ce_parts env)) (\<lambda>mpus. Some (range_parts range_start range_end 0 (map snd mpus))) of
             None \<Rightarrow> Some (None, cache, st)
           | Some (Inl e) \<Rightarrow> Some (Some (Inl e), cache, st)
           | Some (Inr parts) \<Rightarrow>
               (let (items, st') = flatten_streams (part_range_stream gw env) 0 parts st
                in Some (Some (Inr items), cache, st')))
      | _ \<Rightarrow> Some (Some (Inl InvalidObjectState), cache, st))"

text \<open>\<open>try_collect\<close> and concatenation.\<close>

fun collect :: "(S3Error, bytes) outcome list \<Rightarrow> (S3Error, bytes) outcome" where
  "collect [] = Some (Inr [])"
| "collect (r # items) = and_then r (\<lambda>b. and_then (collect items) (\<lambda>rest. Some (Inr (b @ rest))))"

definition get_object_content_as_bytes ::
    "gateway \<Rightarrow> content_env \<Rightarrow> ObjectLayout \<Rightarrow> u32 option \<Rightarrow> row_cache \<Rightarrow> BlobStorageImpl
      \<Rightarrow> ((S3Error, bytes \<times> u64) outcome \<times> row_cache \<times> BlobStorageImpl) option" where
  "get_object_content_as_bytes gw env object part_number cache st =
     map_option (\<lambda>(r, cache', st').
       (and_then r (\<lambda>(items, sz). and_then (map_option (map_err (\<lambda>_. InternalError)) (collect items)) (\<lambda>b. Some (Inr (b, sz)))),
        cache', st'))
     (get_object_content gw env object part_number cache st)"

section \<open>The handler\<close>

record http_lib =
  hl_http_range :: "string \<Rightarrow> u64 \<Rightarrow> string + (u64 \<times> u64) list"
  hl_http_date :: "u64 \<Rightarrow> string"
  hl_base64 :: "bytes \<Rightarrow> string"

definition parse_range_header :: "http_lib \<Rightarrow> bytes option \<Rightarrow> u64 \<Rightarrow> S3Error + (nat \<times> nat) option" where
  "parse_range_header hl range_header total_size =
     (case range_header of
        None \<Rightarrow> Inr None
      | Some hdr \<Rightarrow>
          (case to_str hdr of
             None \<Rightarrow> Inl UnexpectedContent
           | Some range_str \<Rightarrow>
               (case hl_http_range hl range_str total_size of
                  Inl _ \<Rightarrow> Inl InvalidRange
                | Inr ranges \<Rightarrow>
                    if 1 < length ranges then Inl InvalidRange
                    else Inr (case ranges of
                        [] \<Rightarrow> None
                      | (first, len) # _ \<Rightarrow> Some (unat first, unat (first + len))))))"

type_synonym http_headers = "(string \<times> string) list"

definition insert_header :: "string \<Rightarrow> string \<Rightarrow> http_headers \<Rightarrow> http_headers" where
  "insert_header name v hs = AList.update name v hs"

definition to_ascii_lowercase :: "string \<Rightarrow> string" where
  "to_ascii_lowercase s = map (\<lambda>c. let n = (of_char c :: nat) in if 65 \<le> n \<and> n \<le> 90 then char_of (n + 32) else c) s"

fun join_commas :: "string list \<Rightarrow> string" where
  "join_commas [] = []"
| "join_commas [s] = s"
| "join_commas (s # ss) = s @ '','' @ join_commas ss"

text \<open>The stored headers by lower-case name, in the order of the names; equal names are joined.\<close>

definition headers_by_name :: "HeaderList \<Rightarrow> (string \<times> string list) list" where
  "headers_by_name hs =
     map (\<lambda>name. (name, map snd (filter (\<lambda>(n, _). to_ascii_lowercase n = name) hs)))
       (sort (remdups (map (to_ascii_lowercase \<circ> fst) hs)))"

fun checksum_header :: "ChecksumAlgorithm \<Rightarrow> string" where
  "checksum_header Crc32 = ''x-amz-checksum-crc32''"
| "checksum_header Crc32c = ''x-amz-checksum-crc32c''"
| "checksum_header Crc64Nvme = ''x-amz-checksum-crc64nvme''"
| "checksum_header Sha1 = ''x-amz-checksum-sha1''"
| "checksum_header Sha256 = ''x-amz-checksum-sha256''"

definition add_checksum_response_headers :: "http_lib \<Rightarrow> ChecksumValue option \<Rightarrow> http_headers \<Rightarrow> http_headers" where
  "add_checksum_response_headers hl value_opt resp =
     (case value_opt of
        None \<Rightarrow> resp
      | Some v \<Rightarrow> insert_header (checksum_header (algorithm v)) (hl_base64 hl (checksum_bytes v)) resp)"

definition object_headers :: "http_lib \<Rightarrow> ObjectLayout \<Rightarrow> bool \<Rightarrow> http_headers \<Rightarrow> S3Error + http_headers" where
  "object_headers hl object checksum_mode_enabled resp =
     (case etag object of
        Inl e \<Rightarrow> Inl (s3_from_layout e)
      | Inr tag \<Rightarrow>
          (case headers object of
             Inl e \<Rightarrow> Inl (s3_from_layout e)
           | Inr hs \<Rightarrow>
               (let resp1 = insert_header ''etag'' tag (insert_header ''last-modified'' (hl_http_date hl (timestamp object)) resp);
                    resp2 = fold (\<lambda>(name, vs). insert_header name (join_commas vs)) (headers_by_name hs) resp1
                in if checksum_mode_enabled
                   then map_sum s3_from_layout (\<lambda>value_opt. add_checksum_response_headers hl value_opt resp2) (checksum object)
                   else Inr resp2)))"

text \<open>What the handler uses of a request whose bucket is resolved and whose query is well-formed. Header values are taken to be
  valid, so that \<open>insert_header\<close> replaces the value of a name.\<close>

record get_request =
  gr_part_number :: "u32 option"
  gr_range :: "bytes option"
  gr_checksum_mode :: bool
  gr_overrides :: "(string \<times> string option) list"

text \<open>The overrides of a request, in the order of the code: cache-control, content-disposition, content-encoding,
  content-language, content-type and expires, each absent or with its value.\<close>

definition override_headers :: "get_request \<Rightarrow> http_headers \<Rightarrow> http_headers" where
  "override_headers req resp =
     fold (\<lambda>(name, v) hs. case v of Some val \<Rightarrow> insert_header name val hs | None \<Rightarrow> hs) (gr_overrides req) resp"

record get_response =
  status :: nat
  resp_headers :: http_headers
  resp_length :: "u64 option"
  resp_body :: "(S3Error, bytes) outcome list"

definition get_object_handler ::
    "gateway \<Rightarrow> http_lib \<Rightarrow> content_env \<Rightarrow> get_request \<Rightarrow> RpcError + GetInodeResult option \<Rightarrow> row_cache \<Rightarrow> BlobStorageImpl
      \<Rightarrow> ((S3Error, get_response) outcome \<times> row_cache \<times> BlobStorageImpl) option" where
  "get_object_handler gw hl env req inode cache st =
     (case fst (get_raw_object (gw_from_bytes gw) inode) of
        None \<Rightarrow> Some (None, cache, st)
      | Some (Inl e) \<Rightarrow> Some (Some (Inl e), cache, st)
      | Some (Inr object) \<Rightarrow>
          (case layout_size object of
             Inl e \<Rightarrow> Some (Some (Inl (s3_from_layout e)), cache, st)
           | Inr total_size \<Rightarrow>
               (case (gr_part_number req, parse_range_header hl (gr_range req) total_size) of
                  (_, Inl e) \<Rightarrow> Some (Some (Inl e), cache, st)
                | (part_number, Inr None) \<Rightarrow>
                    map_option (\<lambda>(r, cache', st').
                      (and_then r (\<lambda>(items, body_size).
                         Some (map_sum id (\<lambda>hs. \<lparr>status = 200, resp_headers = override_headers req hs,
                           resp_length = Some body_size, resp_body = items\<rparr>) (object_headers hl object (gr_checksum_mode req) []))),
                       cache', st'))
                    (get_object_content gw env object part_number cache st)
                | (None, Inr (Some (first, past))) \<Rightarrow>
                    map_option (\<lambda>(r, cache', st').
                      (and_then r (\<lambda>items.
                         Some (map_sum id (\<lambda>hs. \<lparr>status = 206,
                           resp_headers = override_headers req
                             (insert_header ''content-length'' (decimal (past - first))
                               (insert_header ''content-range''
                                 (''bytes '' @ decimal first @ ''-'' @ decimal (past - 1) @ ''/'' @ decimal (unat total_size)) hs)),
                           resp_length = None, resp_body = items\<rparr>) (object_headers hl object False []))),
                       cache', st'))
                    (get_object_range_content gw env object first past cache st)
                | (Some _, Inr (Some _)) \<Rightarrow> Some (Some (Inl InvalidArgument1), cache, st))))"

section \<open>Loading the rows\<close>

text \<open>A name server that answers a listing with the next entries in key order, at least one if there is any, and tells
  whether there are more.\<close>

definition listing_server :: "(string \<times> bytes) list \<Rightarrow> (string \<Rightarrow> nat) \<Rightarrow> string \<Rightarrow> RpcError + ListInodesResponse option" where
  "listing_server stored page_size start_after =
     (let remaining = filter (\<lambda>(key, _). start_after < key) stored;
          n = Suc (page_size start_after)
      in Inr (Some (ListOk (map (\<lambda>(key, val). \<lparr>inode_key = key, inode_bytes = val\<rparr>) (take n remaining)) (n < length remaining))))"

lemma absorb_rows_append:
  "absorb_rows (xs @ ys) rm = (case absorb_rows xs rm of Inl e \<Rightarrow> Inl e | Inr rm' \<Rightarrow> absorb_rows ys rm')"
  by (induction xs rm rule: absorb_rows.induct) (auto split: option.splits)

lemma sorted_wrt_filter_map: "sorted_wrt (<) (map fst xs) \<Longrightarrow> sorted_wrt (<) (map fst (filter P xs))"
  by (induction xs) auto

lemma filter_after_last:
  fixes xs :: "(string \<times> bytes) list"
  assumes "sorted_wrt (<) (map fst xs)" "0 < n" "n \<le> length xs"
  shows "filter (\<lambda>(key, _). fst (last (take n xs)) < key) xs = drop n xs"
proof -
  let ?k = "fst (last (take n xs))"
  have sorted: "sorted_wrt (<) (map fst (take n xs))" "\<forall>x \<in> set (take n xs). \<forall>y \<in> set (drop n xs). fst x < fst y"
    using assms(1) sorted_wrt_append [of "(<)" "map fst (take n xs)" "map fst (drop n xs)"]
    by (simp_all flip: map_append)
  obtain ys z where last_split: "take n xs = ys @ [z]" using assms by (cases "take n xs" rule: rev_cases) auto
  have "\<not> ?k < fst x" if "x \<in> set (take n xs)" for x
    using sorted(1) that unfolding last_split by (auto simp: sorted_wrt_append)
  moreover have "?k < fst y" if "y \<in> set (drop n xs)" for y using sorted(2) that last_split by simp
  ultimately have "filter (\<lambda>(key, _). ?k < key) (take n xs) = []" "filter (\<lambda>(key, _). ?k < key) (drop n xs) = drop n xs"
    by (simp_all add: filter_empty_conv filter_id_conv case_prod_unfold)
  then show ?thesis using filter_append [of "\<lambda>(key, _). ?k < key" "take n xs" "drop n xs"] unfolding append_take_drop_id by simp
qed

text \<open>C38. Loading the row map of an overwritten blob ends, whatever the sizes of the pages the name server chooses, and
  the result is that of all rows and abort records of the blob, none skipped and none twice.\<close>

theorem load_rows_complete:
  assumes "sorted_wrt (<) (map fst stored)" "\<forall>(key, _) \<in> set stored. key \<noteq> [] \<and> last key \<noteq> nul"
  shows "load_rows (listing_server stored page_size) [] rm = Some (Some (absorb_rows stored rm))"
proof -
  have "load_rows (listing_server stored page_size) start rm = Some (Some (absorb_rows (filter (\<lambda>(key, _). start < key) stored) rm))" for start
  proof (induction "length (filter (\<lambda>(key, _). start < key) stored)" arbitrary: start rm rule: less_induct)
    case less
    let ?rest = "filter (\<lambda>(key, _). start < key) stored" and ?n = "Suc (page_size start)"
    have trim: "map (\<lambda>(key, y). (trim_end_matches nul key, y)) (take ?n ?rest) = take ?n ?rest"
      using assms(2) by (intro map_idI) (auto dest!: in_set_takeD intro!: trim_end_matches_id)
    have page: "listing_server stored page_size start = Inr resp \<Longrightarrow> parse_list_inodes_raw resp = Some (Inr (take ?n ?rest, ?n < length ?rest))" for resp
      using trim by (auto simp: listing_server_def parse_list_inodes_raw_def list_response_def comp_def case_prod_unfold Let_def)
    obtain resp where resp: "listing_server stored page_size start = Inr resp" by (simp add: listing_server_def Let_def)
    show ?case
    proof (cases "?n < length ?rest")
      case True
      let ?k = "fst (last (take ?n ?rest))"
      have ne: "take ?n ?rest \<noteq> []" using True by auto
      then have "last (take ?n ?rest) \<in> set ?rest" by (meson in_set_takeD last_in_set)
      then have "start < ?k" by (simp add: case_prod_unfold)
      then have "filter (\<lambda>(key, _). ?k < key) stored = filter (\<lambda>(key, _). ?k < key) ?rest"
        by (auto simp: filter_filter intro!: filter_cong)
      also have "\<dots> = drop ?n ?rest"
        using True sorted_wrt_filter_map [OF assms(1)] by (intro filter_after_last) auto
      finally have rest: "filter (\<lambda>(key, _). ?k < key) stored = drop ?n ?rest" .
      then have "load_rows (listing_server stored page_size) ?k rm' = Some (Some (absorb_rows (drop ?n ?rest) rm'))" for rm'
        using less [of ?k rm'] True by simp
      then show ?thesis
        using True ne absorb_rows_append [of "take ?n ?rest" "drop ?n ?rest" rm]
        by (subst load_rows.simps) (simp add: resp page [OF resp] split: sum.split)
    next
      case False
      then show ?thesis by (subst load_rows.simps) (simp add: resp page [OF resp] split: sum.split)
    qed
  qed
  moreover have "filter (\<lambda>(key, _). [] < key) stored = stored" using assms(2) by (auto simp: filter_id_conv neq_Nil_conv)
  ultimately show ?thesis by metis
qed

theorem load_rows_complete_witness:
  "let stored = [(''@ovr/7/00000001'', [1]), (''@ovr/7/00000002'', [2])]
   in load_rows (listing_server stored (\<lambda>_. 0)) [] (row_map_new 1) = Some (Some (absorb_rows stored (row_map_new 1)))"
  using load_rows_complete [of "[(''@ovr/7/00000001'', [1]), (''@ovr/7/00000002'', [2])]" "\<lambda>_. 0" "row_map_new 1"]
  by (simp add: nul_def)

section \<open>Reads of one block\<close>

lemma read_block_shape:
  "storage_shape (snd (read_block gw env st snapshot guid b len bs loc rowmap ceiling)) = storage_shape st"
proof (cases "block_fetch_plan rowmap b ceiling bs len")
  case (Fetch version read_len miss_is_loss)
  note kept = storage_shape_kept(3) [of "gw_lib gw" "gw_hyphenated gw" "be_storage env" st guid b version read_len loc]
  show ?thesis using Fetch kept by (auto simp: read_block_def split: prod.split option.split sum.split)
qed (simp_all add: read_block_def)

text \<open>C7. What a block read may return. An answer is the beginning of the generation that the plan names; zeros stand
  for it only where the plan says hole, or where a base generation is missing and the name server has
  just confirmed that the object is still the committed snapshot being read. A missing generation
  that a row committed is an error, never zeros.\<close>

theorem read_block_answers:
  assumes "fst (read_block gw env st snapshot guid b len bs loc rowmap ceiling) = Some (Inr body)"
  shows "case block_fetch_plan rowmap b ceiling bs len of
      StalePlan \<Rightarrow> False
    | Zeros \<Rightarrow> body = zeros len
    | Fetch version read_len miss_is_loss \<Rightarrow>
        (\<exists>stored. fst (storage_get_blob (gw_lib gw) (gw_hyphenated gw) (be_storage env) st guid b version read_len loc) = Some (Inr stored) \<and>
           body = take len stored) \<or>
        \<not> miss_is_loss \<and> version = 1 \<and> body = zeros len \<and>
        fst (storage_get_blob (gw_lib gw) (gw_hyphenated gw) (be_storage env) st guid b version read_len loc) = Some (Inl (DataVg BlockNotFound)) \<and>
        (\<exists>current. fst (get_raw_object (gw_from_bytes gw) (be_current env)) = Some (Inr current) \<and>
           same_committed_read_snapshot snapshot current)"
proof (cases "block_fetch_plan rowmap b ceiling bs len")
  case (Fetch version read_len miss_is_loss)
  have one: "\<not> miss_is_loss \<Longrightarrow> version = 1"
    using Fetch by (auto simp: block_fetch_plan_def Let_def split: option.splits BlockResolution.splits)
  obtain r st' where get: "storage_get_blob (gw_lib gw) (gw_hyphenated gw) (be_storage env) st guid b version read_len loc = (r, st')"
    by fastforce
  show ?thesis
    using assms Fetch get one
    by (auto simp: read_block_def and_then_ok validate_base_miss_def split: option.splits sum.splits if_splits)
qed (use assms in \<open>auto simp: read_block_def\<close>)

section \<open>Streams\<close>

text \<open>A result that is \<open>b\<close> or an error, and a stream that ends with \<open>b\<close> or an error.\<close>

definition gives :: "(S3Error, bytes) outcome \<Rightarrow> bytes \<Rightarrow> bool" where
  "gives r b \<longleftrightarrow> r = Some (Inr b) \<or> (\<exists>e. r = Some (Inl e))"

definition yields :: "(S3Error, bytes) outcome list \<Rightarrow> bytes \<Rightarrow> bool" where
  "yields items b \<longleftrightarrow> None \<notin> set items \<and> gives (collect items) b"

text \<open>Every read of one of the blocks returns its content or an error, at any storage of a shape.\<close>

definition reads :: "reader \<Rightarrow> bool option \<times> (u16 \<times> VolumeMode \<times> string list \<times> u64) list \<Rightarrow> nat set \<Rightarrow> (nat \<Rightarrow> bytes) \<Rightarrow> bool" where
  "reads rd sh blocks content \<longleftrightarrow>
     (\<forall>i st. i \<in> blocks \<and> storage_shape st = sh \<longrightarrow>
        storage_shape (snd (rd i st)) = sh \<and> gives (fst (rd i st)) (content i))"

lemma gives_simps [simp]:
  "gives (Some (Inr a)) b \<longleftrightarrow> a = b" "gives (Some (Inl e)) b" "\<not> gives None b"
  by (auto simp: gives_def)

lemma yields_Nil [simp]: "yields [] b \<longleftrightarrow> b = []"
  by (auto simp: yields_def)

lemma yields_error [simp]: "yields (Some (Inl e) # items) b \<longleftrightarrow> None \<notin> set items"
  by (auto simp: yields_def)

lemma yields_ConsI:
  assumes "gives r a" "yields items b" shows "yields (r # items) (a @ b)"
  using assms by (auto simp: yields_def gives_def)

lemma collect_append:
  "collect (xs @ ys) = and_then (collect xs) (\<lambda>a. and_then (collect ys) (\<lambda>b. Some (Inr (a @ b))))"
  by (induction xs) (auto simp: and_then_def split: option.splits sum.splits)

lemma yields_appendI:
  assumes "yields xs a" "yields ys b" shows "yields (xs @ ys) (a @ b)"
  using assms by (auto simp: yields_def gives_def collect_append)

lemma readsD:
  assumes "reads rd sh blocks content" "i \<in> blocks" "storage_shape st = sh"
  shows "storage_shape (snd (rd i st)) = sh" "gives (fst (rd i st)) (content i)"
  using assms by (auto simp: reads_def)

lemma reads_subset: "reads rd sh blocks content \<Longrightarrow> blocks' \<subseteq> blocks \<Longrightarrow> reads rd sh blocks' content"
  by (auto simp: reads_def)

lemma block_items_yield:
  assumes "reads rd sh (set is) content" "storage_shape st = sh"
  shows "yields (fst (block_items rd is st)) (concat (map content is)) \<and> storage_shape (snd (block_items rd is st)) = sh"
  using assms
proof (induction "is" arbitrary: st)
  case (Cons i "is")
  obtain r st' where rd: "rd i st = (r, st')" by fastforce
  have r: "storage_shape st' = sh" "gives r (content i)" using readsD [OF Cons.prems(1) _ Cons.prems(2), of i] rd by simp_all
  moreover have "r \<noteq> None" using r(2) by (auto simp: gives_def)
  ultimately show ?case
    using Cons.IH [OF reads_subset [OF Cons.prems(1)] r(1)] rd by (auto intro: yields_ConsI)
qed simp

lemma range_items_yield:
  assumes "reads rd sh (set is) content" "storage_shape st = sh" "s < e"
  shows "yields (fst (range_items rd s e is off st)) (drop (s - off) (take (e - off) (concat (map content is)))) \<and>
    storage_shape (snd (range_items rd s e is off st)) = sh"
  using assms
proof (induction "is" arbitrary: off st)
  case (Cons i "is")
  obtain r st' where rd: "rd i st = (r, st')" by fastforce
  have r: "storage_shape st' = sh" "gives r (content i)" using readsD [OF Cons.prems(1) _ Cons.prems(2), of i] rd by simp_all
  have "reads rd sh (set is) content" by (rule reads_subset [OF Cons.prems(1)]) auto
  note IH = Cons.IH [OF this r(1) Cons.prems(3)]
  from r(2) consider err where "r = Some (Inl err)" | "r = Some (Inr (content i))" by (auto simp: gives_def)
  then show ?case
  proof cases
    case 1
    then show ?thesis using rd IH [of off] by (auto simp: yields_def)
  next
    case 2
    let ?rest = "concat (map content is)"
    have cut: "drop (s - off) (take (e - off) (content i @ ?rest)) =
        drop (s - off) (take (e - off) (content i)) @ drop (s - (off + length (content i))) (take (e - (off + length (content i))) ?rest)"
      if "off < e" using that Cons.prems(3) by (cases "e - off \<le> length (content i)") auto
    have skip: "drop (s - off) (take (e - off) (content i)) = []" if "off + length (content i) \<le> s" using that by simp
    have "take (if off + length (content i) < e then length (content i) else e - off) (content i) = take (e - off) (content i)" by simp
    then show ?thesis
      using rd 2 IH [of "off + length (content i)"] cut skip r(1)
      by (auto simp: Let_def intro: yields_ConsI)
  qed
qed simp

lemma concat_blocks:
  "a \<le> b \<Longrightarrow> concat (map (\<lambda>i. take bs (drop (i * bs) xs)) [a..<b]) = take ((b - a) * bs) (drop (a * bs) xs)"
proof (induction b)
  case (Suc b)
  show ?case
  proof (cases "a \<le> b")
    case True
    then have "(Suc b - a) * bs = (b - a) * bs + bs" "(b - a) * bs + a * bs = b * bs"
      by (simp_all add: Suc_diff_le flip: add_mult_distrib)
    then show ?thesis using True Suc unfolding \<open>(Suc b - a) * bs = (b - a) * bs + bs\<close> take_add by simp
  next
    case False
    then show ?thesis using Suc.prems by (simp add: le_Suc_eq)
  qed
qed simp

text \<open>The blocks of a body.\<close>

abbreviation reads_body :: "reader \<Rightarrow> bool option \<times> (u16 \<times> VolumeMode \<times> string list \<times> u64) list \<Rightarrow> nat \<Rightarrow> bytes \<Rightarrow> bool" where
  "reads_body rd sh bs body \<equiv> reads rd sh {i. i * bs < length body} (\<lambda>i. take bs (drop (i * bs) body))"

lemma range_stream_yields:
  assumes "reads_body rd sh bs body" "storage_shape st = sh" "0 < bs" "s < e" "e \<le> length body"
  shows "\<exists>items st'. get_range_blob_stream rd bs s e st = Some (items, st') \<and>
    yields items (take (e - s) (drop s body)) \<and> storage_shape st' = sh"
proof -
  let ?a = "s div bs" and ?b = "Suc ((e - 1) div bs)"
  have "i * bs < length body" if "i < ?b" for i
  proof -
    have "i * bs \<le> e - 1" using that assms(3) by (metis div_times_less_eq_dividend le_trans less_Suc_eq_le mult_le_mono1)
    then show ?thesis using assms(4,5) by simp
  qed
  then have "reads rd sh (set [?a..<?b]) (\<lambda>i. take bs (drop (i * bs) body))" by (intro reads_subset [OF assms(1)]) auto
  note range_items_yield [OF this assms(2,4), of "bs * ?a"]
  moreover have "?a \<le> ?b" using assms(4) by (simp add: div_le_mono le_SucI)
  note concat_blocks [OF this, of bs body]
  moreover have "drop (s - bs * ?a) (take (e - bs * ?a) (take ((?b - ?a) * bs) (drop (?a * bs) body))) = take (e - s) (drop s body)"
  proof -
    have "e \<le> ?b * bs" using assms(3,4) dividend_less_times_div [of bs "e - 1"] by (simp add: mult.commute)
    then have "e - bs * ?a \<le> (?b - ?a) * bs" unfolding diff_mult_distrib by (metis diff_le_mono mult.commute)
    moreover have "bs * ?a \<le> s" by simp
    ultimately show ?thesis by (simp add: drop_take min_absorb1 mult.commute)
  qed
  ultimately show ?thesis
    using assms(3,4) by (cases "range_items rd s e [?a..<?b] (bs * ?a) st") (auto simp: get_range_blob_stream_def Let_def)
qed

lemma full_stream_yields:
  assumes "reads_body rd sh bs body" "storage_shape st = sh" "div_ceil (length body) bs = Some n"
  shows "\<exists>r st'. get_full_blob_stream rd n st = (r, st') \<and> storage_shape st' = sh \<and>
    ((\<exists>e. r = Some (Inl e)) \<or> (\<exists>items. r = Some (Inr items) \<and> yields items body))"
proof -
  have bs: "0 < bs" and n: "n = length body div bs + (if length body mod bs = 0 then 0 else 1)"
    using assms(3) by (auto simp: div_ceil_def split: if_splits)
  have cover: "length body \<le> n * bs"
  proof (cases "length body mod bs = 0")
    case True
    then show ?thesis using div_mult_mod_eq [of "length body" bs] by (simp add: n)
  next
    case False
    then have "n * bs = length body div bs * bs + bs" by (simp add: n)
    then show ?thesis using div_mult_mod_eq [of "length body" bs] mod_less_divisor [OF bs, of "length body"] by linarith
  qed
  have sub: "i * bs < length body" if "i < n" for i
  proof (cases "length body mod bs = 0")
    case True
    then have "length body = n * bs" using div_mult_mod_eq [of "length body" bs] by (simp add: n)
    then show ?thesis using that bs by simp
  next
    case False
    then have "i \<le> length body div bs" using that by (simp add: n)
    then have "i * bs \<le> length body div bs * bs" by simp
    then show ?thesis using div_mult_mod_eq [of "length body" bs] False by linarith
  qed
  have all: "concat (map (\<lambda>i. take bs (drop (i * bs) body)) [0..<n]) = body" using cover by (simp add: concat_blocks)
  show ?thesis
  proof (cases "n = 0")
    case True
    then show ?thesis using all assms(2) by (simp add: get_full_blob_stream_def)
  next
    case False
    obtain r st1 where rd: "rd 0 st = (r, st1)" by fastforce
    have r: "storage_shape st1 = sh" "gives r (take bs body)" using readsD [OF assms(1) _ assms(2), of 0] rd sub [of 0] False by simp_all
    have "reads rd sh (set [1..<n]) (\<lambda>i. take bs (drop (i * bs) body))" by (rule reads_subset [OF assms(1)]) (auto intro: sub)
    note rest = block_items_yield [OF this r(1)]
    have split: "take bs body @ concat (map (\<lambda>i. take bs (drop (i * bs) body)) [1..<n]) = body"
      using False all by (simp add: upt_conv_Cons)
    have body: "yields (Some (Inr (take bs body)) # fst (block_items rd [1..<n] st1)) body"
      using yields_ConsI [OF _ conjunct1 [OF rest], of "Some (Inr (take bs body))" "take bs body"] split by simp
    from r(2) consider e where "r = Some (Inl e)" | "r = Some (Inr (take bs body))" by (auto simp: gives_def)
    then show ?thesis
    proof cases
      case 1
      then show ?thesis using False rd r(1) by (simp add: get_full_blob_stream_def)
    next
      case 2
      show ?thesis
      proof (cases "n = 1")
        case True
        then show ?thesis using rd r(1) 2 body by (simp add: get_full_blob_stream_def)
      next
        case neq: False
        then show ?thesis using False rd 2 body conjunct2 [OF rest]
          by (cases "block_items rd [1..<n] st1") (simp add: get_full_blob_stream_def)
      qed
    qed
  qed
qed

section \<open>Objects\<close>

lemma blob_fields_ok:
  assumes "blob_fields layout = Some (Inr (guid, n, sz, loc))"
  shows "\<exists>md. state layout = Normal md" "div_ceil sz (unat (block_size layout)) = Some n" "layout_size layout = Inr (word_of_nat sz)"
    "unat (word_of_nat sz :: u64) = sz" "0 < unat (block_size layout)"
  using assms
  by (auto simp: blob_fields_def blob_guid_def num_blocks_def layout_size_def div_ceil_def and_then_def get_blob_location_def
      split: ObjectState.splits option.splits sum.splits if_splits)

text \<open>The blocks of a layout hold a body: reads of them return it or fail, at any storage of a shape.\<close>

definition body_readable ::
    "gateway \<Rightarrow> (nat \<Rightarrow> block_env) \<Rightarrow> bool option \<times> (u16 \<times> VolumeMode \<times> string list \<times> u64) list \<Rightarrow> OvrRowMap option
      \<Rightarrow> ObjectLayout \<Rightarrow> bytes \<Rightarrow> bool" where
  "body_readable gw env sh rowmap layout body \<longleftrightarrow>
     (\<exists>guid n loc. blob_fields layout = Some (Inr (guid, n, length body, loc)) \<and>
        reads_body (layout_reader gw env layout guid n (length body) loc rowmap) sh (unat (block_size layout)) body)"


lemma flatten_yields:
  assumes "\<And>j p st. p \<in> set ps \<Longrightarrow> storage_shape st = sh \<Longrightarrow>
      yields (fst (f j p st)) (content p) \<and> storage_shape (snd (f j p st)) = sh"
    and "storage_shape st = sh"
  shows "yields (fst (flatten_streams f j ps st)) (concat (map content ps)) \<and> storage_shape (snd (flatten_streams f j ps st)) = sh"
  using assms
proof (induction ps arbitrary: j st)
  case (Cons p ps)
  obtain items st' where f: "f j p st = (items, st')" by fastforce
  then have head: "yields items (content p)" "storage_shape st' = sh" using Cons.prems(1) [of p st j] Cons.prems(2) by auto
  moreover have "None \<notin> set items" using head by (simp add: yields_def)
  moreover have "yields (fst (flatten_streams f (Suc j) ps st')) (concat (map content ps)) \<and>
      storage_shape (snd (flatten_streams f (Suc j) ps st')) = sh"
    using Cons.IH [OF _ head(2)] Cons.prems(1) by simp
  ultimately show ?case using f by (auto intro: yields_appendI)
qed simp

lemma range_parts_slices:
  assumes "\<And>p. p \<in> set ps \<Longrightarrow> layout_size p = Inr (word_of_nat (length (content p))) \<and>
      unat (word_of_nat (length (content p)) :: u64) = length (content p) \<and> content p \<noteq> []"
    and "s < e"
  shows "\<exists>slices. range_parts s e off ps = Inr slices \<and>
    (\<forall>(p, a, b) \<in> set slices. p \<in> set ps \<and> a < b \<and> b \<le> length (content p)) \<and>
    concat (map (\<lambda>(p, a, b). take (b - a) (drop a (content p))) slices) =
      drop (s - off) (take (e - off) (concat (map content ps)))"
  using assms
proof (induction ps arbitrary: off)
  case (Cons p ps)
  have p: "layout_size p = Inr (word_of_nat (length (content p)))" "unat (word_of_nat (length (content p)) :: u64) = length (content p)"
    "content p \<noteq> []" using Cons.prems(1) [of p] by auto
  let ?len = "length (content p)" and ?rest = "concat (map content ps)"
  obtain slices where IH: "range_parts s e (off + ?len) ps = Inr slices"
    "\<forall>(p, a, b) \<in> set slices. p \<in> set ps \<and> a < b \<and> b \<le> length (content p)"
    "concat (map (\<lambda>(p, a, b). take (b - a) (drop a (content p))) slices) = drop (s - (off + ?len)) (take (e - (off + ?len)) ?rest)"
    using Cons.IH [of "off + ?len"] Cons.prems by fastforce
  have cut: "drop (s - off) (take (e - off) (content p @ ?rest)) =
      drop (s - off) (take (e - off) (content p)) @ drop (s - (off + ?len)) (take (e - (off + ?len)) ?rest)"
    if "off < e" using that Cons.prems(2) by (cases "e - off \<le> ?len") auto
  consider "e \<le> off" | "off < e" "off + ?len \<le> s" | "off < e" "s < off + ?len" by linarith
  then show ?case
  proof cases
    case 1
    then show ?thesis using p by simp
  next
    case 2
    then show ?thesis using p IH cut by fastforce
  next
    case 3
    let ?b = "if off + ?len < e then ?len else e - off"
    have "0 < ?len" using p(3) by simp
    then have "s - off < ?len" using 3 by linarith
    then have b: "s - off < ?b" "?b \<le> ?len" "take ?b (content p) = take (e - off) (content p)" using 3 Cons.prems(2) by auto
    then have "take (?b - (s - off)) (drop (s - off) (content p)) = drop (s - off) (take (e - off) (content p))"
      by (metis drop_take)
    then show ?thesis using 3 p b(1,2) IH cut by (fastforce simp: Let_def)
  qed
qed simp

lemma part_stream_yields:
  assumes "body_readable gw (ce_block env j) sh None p body" "storage_shape st = sh"
  shows "yields (fst (part_stream gw env j p st)) body \<and> storage_shape (snd (part_stream gw env j p st)) = sh"
proof -
  obtain guid n loc where fields: "blob_fields p = Some (Inr (guid, n, length body, loc))"
    and rd: "reads_body (layout_reader gw (ce_block env j) p guid n (length body) loc None) sh (unat (block_size p)) body"
    using assms(1) by (auto simp: body_readable_def)
  show ?thesis
    using full_stream_yields [OF rd assms(2) blob_fields_ok(2) [OF fields]] fields by (auto simp: part_stream_def)
qed

lemma part_range_stream_yields:
  assumes "body_readable gw (ce_block env j) sh None p body" "storage_shape st = sh" "a < b" "b \<le> length body"
  shows "yields (fst (part_range_stream gw env j (p, a, b) st)) (take (b - a) (drop a body)) \<and>
    storage_shape (snd (part_range_stream gw env j (p, a, b) st)) = sh"
proof -
  obtain guid n loc where fields: "blob_fields p = Some (Inr (guid, n, length body, loc))"
    and rd: "reads_body (layout_reader gw (ce_block env j) p guid n (length body) loc None) sh (unat (block_size p)) body"
    using assms(1) by (auto simp: body_readable_def)
  show ?thesis
    using range_stream_yields [OF rd assms(2) blob_fields_ok(5) [OF fields] assms(3,4)] fields by (auto simp: part_range_stream_def)
qed

text \<open>The contents that the parts of a listing hold.\<close>

abbreviation whole :: "(ObjectLayout \<Rightarrow> bytes) \<Rightarrow> (string \<times> ObjectLayout) list \<Rightarrow> bytes" where
  "whole content mpus \<equiv> concat (map (content \<circ> snd) mpus)"

definition parts_readable ::
    "gateway \<Rightarrow> content_env \<Rightarrow> bool option \<times> (u16 \<times> VolumeMode \<times> string list \<times> u64) list
      \<Rightarrow> (ObjectLayout \<Rightarrow> bytes) \<Rightarrow> (string \<times> ObjectLayout) list \<Rightarrow> bool" where
  "parts_readable gw env sh content mpus \<longleftrightarrow>
     (\<forall>p \<in> set mpus. \<forall>j. body_readable gw (ce_block env j) sh None (snd p) (content (snd p)))"

lemma part_size:
  assumes "parts_readable gw env sh content mpus" "p \<in> set mpus"
  shows "layout_size (snd p) = Inr (word_of_nat (length (content (snd p))))"
    "unat (word_of_nat (length (content (snd p))) :: u64) = length (content (snd p))"
  using assms blob_fields_ok(3,4) by (fastforce simp: parts_readable_def body_readable_def)+

lemma part_streams_yield:
  assumes "parts_readable gw env (storage_shape st) content mpus" "set ps \<subseteq> set mpus"
  shows "yields (fst (flatten_streams (part_stream gw env) 0 (map snd ps) st)) (whole content ps)"
proof -
  have "yields (fst (part_stream gw env j p st')) (content p) \<and> storage_shape (snd (part_stream gw env j p st')) = storage_shape st"
    if "p \<in> set (map snd ps)" "storage_shape st' = storage_shape st" for j p st'
    using that assms by (intro part_stream_yields) (auto simp: parts_readable_def)
  from flatten_yields [where f = "part_stream gw env" and ps = "map snd ps" and j = 0 and content = content, OF this refl] show ?thesis by (simp add: comp_def)
qed

lemma range_streams_yield:
  assumes "parts_readable gw env (storage_shape st) content mpus" "first < past" "\<forall>p \<in> set mpus. content (snd p) \<noteq> []"
  shows "\<exists>slices. range_parts first past 0 (map snd mpus) = Inr slices \<and>
    yields (fst (flatten_streams (part_range_stream gw env) 0 slices st)) (drop first (take past (whole content mpus)))"
proof -
  have sizes: "layout_size p = Inr (word_of_nat (length (content p))) \<and>
      unat (word_of_nat (length (content p)) :: u64) = length (content p) \<and> content p \<noteq> []" if "p \<in> set (map snd mpus)" for p
    using that part_size [OF assms(1)] assms(3) by auto
  obtain slices where slices: "range_parts first past 0 (map snd mpus) = Inr slices"
    "\<forall>(p, a, b) \<in> set slices. p \<in> set (map snd mpus) \<and> a < b \<and> b \<le> length (content p)"
    "concat (map (\<lambda>(p, a, b). take (b - a) (drop a (content p))) slices) =
      drop first (take past (concat (map content (map snd mpus))))"
    using range_parts_slices [OF sizes assms(2), of "map snd mpus" 0] by auto
  let ?cut = "\<lambda>(p, a, b). take (b - a) (drop a (content p))"
  have "yields (fst (part_range_stream gw env j s st')) (?cut s) \<and>
      storage_shape (snd (part_range_stream gw env j s st')) = storage_shape st"
    if "s \<in> set slices" "storage_shape st' = storage_shape st" for j s st'
  proof -
    obtain p a b where s: "s = (p, a, b)" by (metis prod_cases3)
    then have "p \<in> set (map snd mpus)" "a < b" "b \<le> length (content p)" using slices(2) that(1) by auto
    then show ?thesis using assms(1) that(2) s part_range_stream_yields [of gw env j "storage_shape st" p "content p" st' a b]
      by (auto simp: parts_readable_def)
  qed
  from flatten_yields [where f = "part_range_stream gw env" and ps = slices and j = 0 and content = ?cut, OF this refl] show ?thesis
    using slices(1,3) by (simp add: comp_def)
qed



section \<open>A stored object\<close>

text \<open>Two blobs in S3: \<open>a\<close> with the blocks \<open>[1, 2]\<close> and \<open>[3]\<close>, and \<open>b\<close> with the block \<open>[4]\<close>.\<close>

definition sample_s3 :: s3_client where
  "sample_s3 = \<lparr>s3_get_object = (\<lambda>key.
       if take 4 key = ''a-p0'' then GotObject (Inr [1, 2]) else if take 4 key = ''a-p1'' then GotObject (Inr [3])
       else if take 4 key = ''b-p0'' then GotObject (Inr [4]) else GetNoSuchKey),
     s3_put_object = (\<lambda>_ _ _. PutDone), s3_delete_object = (\<lambda>_. Inr ()), s3_list_objects = (\<lambda>_ _. Inl [])\<rparr>"

definition stored_layout :: "Uuid \<Rightarrow> u64 \<Rightarrow> ObjectLayout" where
  "stored_layout blob sz = \<lparr>timestamp = 7, version_id = 5, block_size = 2, blob_version = 1, fs_ext = None,
     state = Normal \<lparr>meta_blob_guid = \<lparr>blob_id = blob, volume_id = S3_VOLUME\<rparr>,
       meta_core = \<lparr>core_size = sz, core_etag = ''e'', core_headers = [], core_checksum = None\<rparr>\<rparr>\<rparr>"

definition sample_gateway :: gateway where
  "sample_gateway = \<lparr>gw_lib = xor_lib, gw_hyphenated = (\<lambda>u. if u = 1 then ''a'' else ''b''),
     gw_from_bytes = (\<lambda>bs. if bs = [1] then Inr (stored_layout 1 3) else Inr (stored_layout 2 1))\<rparr>"

definition sample_storage :: BlobStorageImpl where
  "sample_storage = HybridSingleAz \<lparr>hybrid_proxy = sample_proxy, all_data_in_s3 = True\<rparr>"

definition sample_content_env :: content_env where
  "sample_content_env = \<lparr>ce_rows = (\<lambda>_. Inr (Some (ListOk [] False))),
     ce_parts = Inr (Some (ListOk [\<lparr>inode_key = ''/k#5#0001'', inode_bytes = [1]\<rparr>, \<lparr>inode_key = ''/k#5#0002'', inode_bytes = [2]\<rparr>] False)),
     ce_block = (\<lambda>_ _. \<lparr>be_storage = \<lparr>sg_nodes = \<lparr>pg_repl = sample_get, pg_ec = ec_sample_get\<rparr>, sg_s3 = sample_s3\<rparr>,
       be_current = Inr (Some (GetOk [1]))\<rparr>)\<rparr>"

definition sample_content :: "ObjectLayout \<Rightarrow> bytes" where
  "sample_content layout = (if layout = stored_layout 1 3 then [1, 2, 3] else [4])"

lemma sample_block:
  "read_block sample_gateway (ce_block sample_content_env j i) (HybridSingleAz s) snapshot \<lparr>blob_id = blob, volume_id = S3_VOLUME\<rparr>
      b len bs S3Location None 1 =
    (case s3_get_object sample_s3 (blob_key (gw_hyphenated sample_gateway) blob b 1) of
       GotObject (Inr body) \<Rightarrow> Some (Inr (take len body))
     | _ \<Rightarrow> and_then (validate_base_miss (gw_from_bytes sample_gateway) snapshot (Inr (Some (GetOk [1])))) (\<lambda>_. Some (Inr (zeros len))),
     HybridSingleAz s)"
  by (simp add: read_block_def block_fetch_plan_def storage_get_blob_def hybrid_get_blob_def store_get_def sample_content_env_def
      sample_s3_def)

lemma sample_fields:
  "blob_fields (stored_layout 1 3) = Some (Inr (\<lparr>blob_id = 1, volume_id = S3_VOLUME\<rparr>, 2, 3, S3Location))"
  "blob_fields (stored_layout 2 1) = Some (Inr (\<lparr>blob_id = 2, volume_id = S3_VOLUME\<rparr>, 1, 1, S3Location))"
  by (simp_all add: blob_fields_def stored_layout_def blob_guid_def num_blocks_def layout_size_def div_ceil_def get_blob_location_def)

lemma sample_key:
  "take 4 (blob_key (gw_hyphenated sample_gateway) 1 0 1) = ''a-p0''" "take 4 (blob_key (gw_hyphenated sample_gateway) 1 1 1) = ''a-p1''"
  "take 4 (blob_key (gw_hyphenated sample_gateway) 2 0 1) = ''b-p0''"
  by (simp_all add: blob_key_def sample_gateway_def decimal.simps char_of_def bit_0)

lemma sample_shape: "storage_shape st = storage_shape sample_storage \<Longrightarrow> \<exists>s. st = HybridSingleAz s"
  by (cases st) (simp_all add: sample_storage_def)

lemma sample_reader:
  assumes "i < 2" "storage_shape st = storage_shape sample_storage"
  shows "layout_reader sample_gateway (ce_block sample_content_env j) (stored_layout 1 3) \<lparr>blob_id = 1, volume_id = S3_VOLUME\<rparr>
      2 3 S3Location None i st = (Some (Inr (take 2 (drop (i * 2) [1, 2, 3]))), st)"
    "layout_reader sample_gateway (ce_block sample_content_env j) (stored_layout 2 1) \<lparr>blob_id = 2, volume_id = S3_VOLUME\<rparr>
      1 1 S3Location None 0 st = (Some (Inr [4]), st)"
proof -
  obtain s where s: "st = HybridSingleAz s" using sample_shape [OF assms(2)] by blast
  have layout: "block_size (stored_layout blob sz) = 2" "blob_version (stored_layout blob sz) = 1" for blob sz by (simp_all add: stored_layout_def)
  have "i = 0 \<or> i = 1" using assms(1) by linarith
  then show "layout_reader sample_gateway (ce_block sample_content_env j) (stored_layout 1 3) \<lparr>blob_id = 1, volume_id = S3_VOLUME\<rparr>
      2 3 S3Location None i st = (Some (Inr (take 2 (drop (i * 2) [1, 2, 3]))), st)"
    by (elim disjE) (simp_all add: s layout_reader_def layout content_len_of_def sample_block sample_s3_def sample_key)
  show "layout_reader sample_gateway (ce_block sample_content_env j) (stored_layout 2 1) \<lparr>blob_id = 2, volume_id = S3_VOLUME\<rparr>
      1 1 S3Location None 0 st = (Some (Inr [4]), st)"
    by (simp add: s layout_reader_def layout content_len_of_def sample_block sample_s3_def sample_key)
qed

lemma sample_readable:
  "body_readable sample_gateway (ce_block sample_content_env j) (storage_shape sample_storage) None (stored_layout 1 3) [1, 2, 3]"
  "body_readable sample_gateway (ce_block sample_content_env j) (storage_shape sample_storage) None (stored_layout 2 1) [4]"
proof -
  have bs: "unat (block_size (stored_layout blob sz)) = 2" for blob sz by (simp add: stored_layout_def)
  have "i < 2" if "i * 2 < 3" for i :: nat using that by linarith
  then have "reads_body (layout_reader sample_gateway (ce_block sample_content_env j) (stored_layout 1 3)
      \<lparr>blob_id = 1, volume_id = S3_VOLUME\<rparr> 2 3 S3Location None) (storage_shape sample_storage) 2 [1, 2, 3]"
    by (simp add: reads_def sample_reader)
  then show "body_readable sample_gateway (ce_block sample_content_env j) (storage_shape sample_storage) None (stored_layout 1 3) [1, 2, 3]"
    unfolding body_readable_def sample_fields bs by (simp add: numeral_3_eq_3)
  have "reads_body (layout_reader sample_gateway (ce_block sample_content_env j) (stored_layout 2 1)
      \<lparr>blob_id = 2, volume_id = S3_VOLUME\<rparr> 1 1 S3Location None) (storage_shape sample_storage) 2 [4]"
    by (simp add: reads_def sample_reader(2) [of 0, simplified])
  then show "body_readable sample_gateway (ce_block sample_content_env j) (storage_shape sample_storage) None (stored_layout 2 1) [4]"
    unfolding body_readable_def sample_fields bs by simp
qed

lemma sample_listing:
  "list_raw_objects (gw_from_bytes sample_gateway) (ce_parts sample_content_env) =
     Some (Inr [(''/k#5#0001'', stored_layout 1 3), (''/k#5#0002'', stored_layout 2 1)])"
  by (simp add: list_raw_objects_def sample_content_env_def sample_gateway_def parse_list_inodes_def list_response_def
      List.map_filter_def trim_end_matches_def nul_def)

lemma sample_parts:
  "parts_readable sample_gateway sample_content_env (storage_shape sample_storage) sample_content
     [(''/k#5#0001'', stored_layout 1 3), (''/k#5#0002'', stored_layout 2 1)]"
  using sample_readable by (simp add: parts_readable_def sample_content_def stored_layout_def)

theorem read_block_answers_witness:
  "let env = ce_block sample_content_env 0 0; layout = stored_layout 1 3; guid = \<lparr>blob_id = 1, volume_id = S3_VOLUME\<rparr>
   in fst (read_block sample_gateway env sample_storage layout guid 0 2 2 S3Location None 1) = Some (Inr [1, 2]) \<and>
      (\<exists>stored. fst (storage_get_blob xor_lib (gw_hyphenated sample_gateway) (be_storage env) sample_storage guid 0 1 2 S3Location) =
         Some (Inr stored) \<and> [1, 2] = take 2 stored)"
proof -
  let ?env = "ce_block sample_content_env 0 0" and ?guid = "\<lparr>blob_id = 1, volume_id = S3_VOLUME\<rparr>"
  have run: "fst (read_block sample_gateway ?env sample_storage (stored_layout 1 3) ?guid 0 2 2 S3Location None 1) = Some (Inr [1, 2])"
    by (simp add: sample_storage_def sample_block sample_s3_def sample_key)
  have plan: "block_fetch_plan None 0 1 2 2 = Fetch 1 2 False" by (simp add: block_fetch_plan_def)
  have lib: "gw_lib sample_gateway = xor_lib" by (simp add: sample_gateway_def)
  have "zeros 2 \<noteq> [1, 2]" by (simp add: zeros_def ZERO_BLOCK_def numeral_2_eq_2)
  then show ?thesis using read_block_answers [OF run] run unfolding plan BlockFetchPlan.case lib Let_def by metis
qed




end
