(* ===== verification/S3_Checksum.thy ===== *)
theory S3_Checksum
  imports Get_Object
begin

text \<open>
  Checksums of uploads: \<open>s3_gateway/src/handler/common/checksum.rs\<close>, the header extractor
  \<open>request/extract/checksum_value.rs\<close>, the checksum task that \<open>with_checksums_full\<close> of
  \<open>handler/put/s3_streaming.rs\<close> starts, and the helpers of \<open>put_object.rs\<close> for buffered bodies.

  The hash crates and base64 are the parameter \<open>checksum_lib\<close>; a hasher that is fed several slices
  hashes their concatenation. The channel to the checksum task is the list of the messages sent.
\<close>

section \<open>Checksums\<close>

record checksum_lib =
  digest_of :: "ChecksumAlgorithm \<Rightarrow> bytes \<Rightarrow> bytes"
  b64_encode :: "bytes \<Rightarrow> string"
  b64_decode :: "bytes \<Rightarrow> bytes option"

fun checksum_value_of :: "ChecksumAlgorithm \<Rightarrow> bytes \<Rightarrow> ChecksumValue" where
  "checksum_value_of Crc32 b = Crc32Value b"
| "checksum_value_of Crc32c b = Crc32cValue b"
| "checksum_value_of Crc64Nvme b = Crc64NvmeValue b"
| "checksum_value_of Sha1 b = Sha1Value b"
| "checksum_value_of Sha256 b = Sha256Value b"

record Checksummer =
  cs_algo :: ChecksumAlgorithm
  cs_fed :: bytes

definition checksummer_new :: "ChecksumAlgorithm \<Rightarrow> Checksummer" where
  "checksummer_new algo = \<lparr>cs_algo = algo, cs_fed = []\<rparr>"

definition checksummer_update :: "bytes \<Rightarrow> Checksummer \<Rightarrow> Checksummer" where
  "checksummer_update bytes c = c\<lparr>cs_fed := cs_fed c @ bytes\<rparr>"

definition checksummer_finalize :: "checksum_lib \<Rightarrow> Checksummer \<Rightarrow> ChecksumValue" where
  "checksummer_finalize cl c = checksum_value_of (cs_algo c) (digest_of cl (cs_algo c) (cs_fed c))"

section \<open>Errors\<close>

text \<open>\<open>signature::SignatureError\<close> of the gateway, the variants that this code makes.\<close>

datatype GwSignatureError = GwInvalidDigest ChecksumAlgorithm | GwToStrError | GwOther string

definition str_contains :: "string \<Rightarrow> string \<Rightarrow> bool" where
  "str_contains pat s \<longleftrightarrow> split_once_at pat s \<noteq> None"

fun s3_from_signature :: "GwSignatureError \<Rightarrow> S3Error" where
  "s3_from_signature (GwOther msg) = (if str_contains ''signature mismatch'' msg then SignatureDoesNotMatch else InvalidSignature)"
| "s3_from_signature _ = InvalidSignature"

definition verify_checksum :: "ChecksumValue option \<Rightarrow> ChecksumValue option \<Rightarrow> GwSignatureError + unit" where
  "verify_checksum calculated expected =
     (case expected of
        None \<Rightarrow> Inr ()
      | Some expected_checksum \<Rightarrow>
          if calculated = Some expected_checksum then Inr () else Inl (GwInvalidDigest (algorithm expected_checksum)))"

section \<open>Headers\<close>

definition request_trailer_checksum_algorithm :: "header_map \<Rightarrow> GwSignatureError + ChecksumAlgorithm option" where
  "request_trailer_checksum_algorithm h =
     (case h ''x-amz-trailer'' of
        None \<Rightarrow> Inr None
      | Some v \<Rightarrow>
          (case to_str v of
             None \<Rightarrow> Inl GwToStrError
           | Some x \<Rightarrow>
               if x = ''x-amz-checksum-crc32'' then Inr (Some Crc32)
               else if x = ''x-amz-checksum-crc32c'' then Inr (Some Crc32c)
               else if x = ''x-amz-checksum-crc64nvme'' then Inr (Some Crc64Nvme)
               else if x = ''x-amz-checksum-sha1'' then Inr (Some Sha1)
               else if x = ''x-amz-checksum-sha256'' then Inr (Some Sha256)
               else Inl (GwOther ''invalid checksum algorithm'')))"

text \<open>The length of the array that the decoded header is converted to.\<close>

fun checksum_length :: "ChecksumAlgorithm \<Rightarrow> nat" where
  "checksum_length Crc32 = 4"
| "checksum_length Crc32c = 4"
| "checksum_length Crc64Nvme = 8"
| "checksum_length Sha1 = 20"
| "checksum_length Sha256 = 32"

definition header_checksum ::
    "checksum_lib \<Rightarrow> header_map \<Rightarrow> ChecksumAlgorithm \<Rightarrow> ChecksumValue option \<Rightarrow> GwSignatureError + ChecksumValue option" where
  "header_checksum cl h algo found_checksum =
     (case h (checksum_header algo) of
        None \<Rightarrow> Inr found_checksum
      | Some x \<Rightarrow>
          if found_checksum \<noteq> None then Inl (GwOther ''multiple x-amz-checksum-* headers given'')
          else case b64_decode cl x of
              Some b \<Rightarrow>
                if length b = checksum_length algo then Inr (Some (checksum_value_of algo b))
                else Inl (GwOther (''invalid '' @ checksum_header algo @ '' header''))
            | None \<Rightarrow> Inl (GwOther (''invalid '' @ checksum_header algo @ '' header'')))"

fun header_checksums ::
    "checksum_lib \<Rightarrow> header_map \<Rightarrow> ChecksumAlgorithm list \<Rightarrow> ChecksumValue option \<Rightarrow> GwSignatureError + ChecksumValue option" where
  "header_checksums cl h [] found = Inr found"
| "header_checksums cl h (algo # algos) found =
     (case header_checksum cl h algo found of Inl e \<Rightarrow> Inl e | Inr found' \<Rightarrow> header_checksums cl h algos found')"

definition extract_checksum_value_from_headers :: "checksum_lib \<Rightarrow> header_map \<Rightarrow> GwSignatureError + ChecksumValue option" where
  "extract_checksum_value_from_headers cl h = header_checksums cl h [Crc32, Crc32c, Crc64Nvme, Sha1, Sha256] None"

section \<open>Buffered bodies\<close>

definition calculate_checksum_for_chunks_with_algorithm ::
    "checksum_lib \<Rightarrow> bytes list \<Rightarrow> ChecksumAlgorithm \<Rightarrow> ChecksumValue option" where
  "calculate_checksum_for_chunks_with_algorithm cl chunks algo =
     Some (checksum_value_of algo (digest_of cl algo (concat chunks)))"

definition calculate_checksum_for_chunks ::
    "checksum_lib \<Rightarrow> bytes list \<Rightarrow> ChecksumValue option \<Rightarrow> S3Error + ChecksumValue option" where
  "calculate_checksum_for_chunks cl chunks expected_checksum =
     (case expected_checksum of
        None \<Rightarrow> Inr None
      | Some expected \<Rightarrow>
          (let calculated = digest_of cl (algorithm expected) (concat chunks)
           in if calculated \<noteq> checksum_bytes expected then Inl InvalidDigest
              else Inr (Some (checksum_value_of (algorithm expected) calculated))))"

section \<open>The checksum task\<close>

record checksum_task =
  ct_checksummer :: "Checksummer option"
  trailer_checksums :: "S3Trailers option"
  total_bytes :: nat

text \<open>The messages until the channel is closed or an error arrives.\<close>

fun task_receive :: "ChecksumMessage list \<Rightarrow> checksum_task \<Rightarrow> S3Error + checksum_task" where
  "task_receive [] t = Inr t"
| "task_receive (Data data # msgs) t =
     task_receive msgs (t\<lparr>total_bytes := total_bytes t + length data,
       ct_checksummer := map_option (checksummer_update data) (ct_checksummer t)\<rparr>)"
| "task_receive (Trailers trailers # msgs) t = task_receive msgs (t\<lparr>trailer_checksums := Some trailers\<rparr>)"
| "task_receive (StreamError _ # msgs) t = Inl InternalError"

definition task_finish :: "checksum_lib \<Rightarrow> ChecksumValue option \<Rightarrow> checksum_task \<Rightarrow> S3Error + ChecksumValue option" where
  "task_finish cl expected_checksum t =
     (if total_bytes t = 0 \<and> expected_checksum \<noteq> None then Inr None
      else
        let calculated_checksum = map_option (checksummer_finalize cl) (ct_checksummer t);
            verified = map_sum (\<lambda>_. InvalidDigest) (\<lambda>_. calculated_checksum) (verify_checksum calculated_checksum expected_checksum)
        in case (Option.bind (trailer_checksums t) checksum_value, calculated_checksum) of
             (Some expected_trailer, Some calculated) \<Rightarrow>
               if expected_trailer \<noteq> b64_encode cl (checksum_bytes calculated) then Inl InvalidDigest else verified
           | _ \<Rightarrow> verified)"

definition run_checksum_task ::
    "checksum_lib \<Rightarrow> ChecksumValue option \<Rightarrow> ChecksumAlgorithm option \<Rightarrow> ChecksumMessage list \<Rightarrow> S3Error + ChecksumValue option" where
  "run_checksum_task cl expected_checksum compute_algo msgs =
     (case task_receive msgs \<lparr>ct_checksummer = map_option checksummer_new compute_algo, trailer_checksums = None, total_bytes = 0\<rparr> of
        Inl e \<Rightarrow> Inl e
      | Inr t \<Rightarrow> task_finish cl expected_checksum t)"

text \<open>The payload, and the algorithm that the task computes.\<close>

definition with_checksums_full ::
    "header_map \<Rightarrow> ChecksumValue option \<Rightarrow> (ChunkSignatureContext \<times> string option) option
      \<Rightarrow> S3Error + (S3StreamingPayload \<times> ChecksumAlgorithm option)" where
  "with_checksums_full h expected_checksum signature_info =
     (case request_trailer_checksum_algorithm h of
        Inl _ \<Rightarrow> Inl InvalidDigest
      | Inr trailer_algorithm \<Rightarrow>
          Inr (new_payload (is_streaming_request h) signature_info,
            case trailer_algorithm of Some a \<Rightarrow> Some a | None \<Rightarrow> map_option algorithm expected_checksum))"

section \<open>What an accepted upload guarantees\<close>

lemma checksum_value_of [simp]:
  "algorithm (checksum_value_of a b) = a" "checksum_bytes (checksum_value_of a b) = b"
  "checksum_value_of (algorithm v) (checksum_bytes v) = v"
  by (cases a, simp_all) (cases a, simp_all, cases v, simp_all)

lemma task_receive_data:
  "task_receive (map Data items @ msgs) t =
   task_receive msgs (t\<lparr>total_bytes := total_bytes t + length (concat items),
     ct_checksummer := map_option (checksummer_update (concat items)) (ct_checksummer t)\<rparr>)"
proof (induction items arbitrary: t)
  case Nil
  have "map_option (checksummer_update []) c = c" for c by (cases c) (simp_all add: checksummer_update_def)
  then show ?case by (cases t) simp
next
  case (Cons data items)
  show ?case by (cases "ct_checksummer t") (simp_all add: Cons checksummer_update_def add.assoc)
qed


text \<open>A checksum that adds up the bytes.\<close>

definition sum_lib :: checksum_lib where
  "sum_lib = \<lparr>digest_of = (\<lambda>_ b. [0, 0, 0, sum_list b]), b64_encode = as_str, b64_decode = Some\<rparr>"


end
