(* ===== verification/Blob_Deletion.thy ===== *)
theory Blob_Deletion
  imports S3_Checksum "HOL-Library.Multiset" "HOL-Library.Product_Lexorder"
begin

text \<open>
  The background deletion of blobs, \<open>s3_gateway/src/blob_client.rs\<close>: the request that an overwrite or
  a delete queues, one attempt to carry it out, and the worker that runs attempts and retries.

  What the name server, the nodes and the S3 service answer, the time, and the order in which concurrent
  calls are served come from \<open>deletion_env\<close>, fresh for each attempt. An attempt returns the calls that
  were acknowledged, in order; \<open>None\<close> is a listing that never ends or a panic. The worker is a state machine whose
  steps are the branches of its \<open>select!\<close> and the calls of its clients; times are in nanoseconds, and
  the retry timer may fire early, which only adds runs. The semaphores that bound concurrent RPCs only delay them.
\<close>

section \<open>Requests\<close>

record BlobDeletionRequest =
  br_guid :: DataBlobGuid
  br_location :: BlobLocation
  mapped :: bool
  marker_written :: bool
  grace_until :: "nat option"
  blocks_deleted :: bool

definition new_blob_deletion_request :: "nat \<Rightarrow> nat \<Rightarrow> ObjectLayout \<Rightarrow> ObjectLayoutError + BlobDeletionRequest" where
  "new_blob_deletion_request now timeout object =
     (case blob_guid object of
        Inl e \<Rightarrow> Inl e
      | Inr guid \<Rightarrow>
          (case get_blob_location object of
             Inl e \<Rightarrow> Inl e
           | Inr location \<Rightarrow>
               Inr \<lparr>br_guid = guid, br_location = location, mapped = may_have_ovr_records object,
                 marker_written = \<not> may_have_ovr_records object, grace_until = Some (now + reclamation_grace timeout), blocks_deleted = False\<rparr>))"

text \<open>\<open>enqueue_blob_deletion\<close>: the request that is sent, if the blob client and the queue are there.\<close>

definition enqueue_blob_deletion :: "nat \<Rightarrow> nat \<Rightarrow> bool \<Rightarrow> ObjectLayout \<Rightarrow> ObjectLayoutError + BlobDeletionRequest" where
  "enqueue_blob_deletion now timeout queue_open object =
     (case new_blob_deletion_request now timeout object of
        Inl e \<Rightarrow> Inl e
      | Inr request \<Rightarrow> if queue_open then Inr request else Inl InvalidState)"

section \<open>One attempt\<close>

datatype deletion_event = MarkerPut | BlockDeleted u32 u64 | KeyDeleted string

record deletion_env =
  de_now :: nat
  de_marker :: "RpcError + PutInodeResult option"
  de_list :: "u32 \<Rightarrow> u32 \<Rightarrow> list_env"
  de_s3 :: s3_client
  de_block_order :: "(u32 \<times> u64) list \<Rightarrow> (u32 \<times> u64) list"
  de_block :: "u32 \<times> u64 \<Rightarrow> storage_delete_env"
  de_rows :: "string \<Rightarrow> RpcError + ListInodesResponse option"
  de_key_order :: "string list \<Rightarrow> string list"
  de_key :: "string \<Rightarrow> RpcError + DeleteInodeResult option"

text \<open>The parameters: the text of a UUID with hyphens, and without.\<close>

record uuid_text =
  ut_hyphenated :: "Uuid \<Rightarrow> string"
  ut_simple :: "Uuid \<Rightarrow> string"

text \<open>Only a failed call is an error: what the name server answers is not looked at.\<close>

definition write_gc_marker :: "deletion_env \<Rightarrow> bool" where
  "write_gc_marker env = (case de_marker env of Inl _ \<Rightarrow> False | Inr _ \<Rightarrow> True)"

fun delete_blocks ::
    "uuid_text \<Rightarrow> (u32 \<times> u64 \<Rightarrow> storage_delete_env) \<Rightarrow> DataBlobGuid \<Rightarrow> BlobLocation \<Rightarrow> (u32 \<times> u64) list \<Rightarrow> BlobStorageImpl
      \<Rightarrow> bool \<times> BlobStorageImpl \<times> deletion_event list" where
  "delete_blocks ut env guid location [] st = (False, st, [])"
| "delete_blocks ut env guid location ((block_number, version) # ids) st =
     (let (r, st1) = storage_delete_blob (ut_hyphenated ut) (env (block_number, version)) st guid block_number version location;
          (failed, st2, events) = delete_blocks ut env guid location ids st1
      in case r of
           Inl _ \<Rightarrow> (True, st2, events)
         | Inr _ \<Rightarrow> (failed, st2, BlockDeleted block_number version # events))"

definition list_identities ::
    "uuid_text \<Rightarrow> deletion_env \<Rightarrow> BlobStorageImpl \<Rightarrow> BlobDeletionRequest
      \<Rightarrow> ((BlobStorageError + (u32 \<times> u64) list) \<times> BlobStorageImpl) option" where
  "list_identities ut env st request =
     (case br_location request of
        DataVgProxyLocation \<Rightarrow> Some (storage_list_blob_blocks (de_list env) st (br_guid request))
      | S3Location \<Rightarrow> map_option (\<lambda>r. (r, st)) (list_s3_blob_blocks (ut_hyphenated ut) (de_s3 env) st (blob_id (br_guid request))))"

definition delete_layout_blocks ::
    "uuid_text \<Rightarrow> deletion_env \<Rightarrow> BlobStorageImpl \<Rightarrow> BlobDeletionRequest \<Rightarrow> (bool \<times> BlobStorageImpl \<times> deletion_event list) option" where
  "delete_layout_blocks ut env st request =
     map_option (\<lambda>(listed, st1). case listed of
         Inl _ \<Rightarrow> (False, st1, [])
       | Inr identities \<Rightarrow>
           (let (failed, st2, events) =
              delete_blocks ut (de_block env) (br_guid request) (br_location request) (de_block_order env (remdups_adj (sort identities))) st1
            in (\<not> failed, st2, events)))
     (list_identities ut env st request)"

text \<open>Whether the key is gone; \<open>None\<close> is a panic on an empty response. The texts of errors only go to the log.\<close>

definition delete_nss_key :: "deletion_env \<Rightarrow> string \<Rightarrow> bool option" where
  "delete_nss_key env key =
     (case de_key env key of
        Inl _ \<Rightarrow> Some False
      | Inr response \<Rightarrow> map_option (\<lambda>r. case r of Inl _ \<Rightarrow> False | Inr _ \<Rightarrow> True) (parse_delete_inode response))"

fun delete_keys :: "deletion_env \<Rightarrow> string list \<Rightarrow> (bool \<times> deletion_event list) option" where
  "delete_keys env [] = Some (False, [])"
| "delete_keys env (key # keys) =
     (case (delete_nss_key env key, delete_keys env keys) of
        (Some True, Some (failed, events)) \<Rightarrow> Some (failed, KeyDeleted key # events)
      | (Some False, Some (failed, events)) \<Rightarrow> Some (True, events)
      | _ \<Rightarrow> None)"

partial_function (option) delete_row_pages ::
    "deletion_env \<Rightarrow> string \<Rightarrow> deletion_event list \<Rightarrow> (bool \<times> deletion_event list) option" where
  "delete_row_pages env start_after done =
     (case de_rows env start_after of
        Inl _ \<Rightarrow> Some (False, done)
      | Inr response \<Rightarrow>
          (case parse_list_inodes_raw response of
             None \<Rightarrow> None
           | Some (Inl NssNoSuchRootBlob) \<Rightarrow> Some (True, done)
           | Some (Inl _) \<Rightarrow> Some (False, done)
           | Some (Inr (page, following)) \<Rightarrow>
               (if page = [] then Some (True, done)
                else case delete_keys env (de_key_order env (map fst page)) of
                    None \<Rightarrow> None
                  | Some (failed, events) \<Rightarrow>
                      if failed then Some (False, done @ events)
                      else if \<not> following then Some (True, done @ events)
                      else delete_row_pages env (fst (last page)) (done @ events))))"

definition delete_ovr_rows :: "uuid_text \<Rightarrow> deletion_env \<Rightarrow> BlobDeletionRequest \<Rightarrow> (bool \<times> deletion_event list) option" where
  "delete_ovr_rows ut env request =
     (case delete_row_pages env [] [] of
        None \<Rightarrow> None
      | Some (False, events) \<Rightarrow> Some (False, events)
      | Some (True, events) \<Rightarrow>
          (let key = ovr_gc_key (ut_simple ut) (blob_id (br_guid request))
           in case delete_nss_key env key of
                None \<Rightarrow> None
              | Some False \<Rightarrow> Some (False, events)
              | Some True \<Rightarrow> Some (True, events @ [KeyDeleted key])))"

text \<open>The steps of an attempt, each skipped if an earlier attempt has done it; the flag tells whether the
  deletion is complete. First the steps after the grace period.\<close>

definition delete_data ::
    "uuid_text \<Rightarrow> deletion_env \<Rightarrow> BlobStorageImpl \<Rightarrow> BlobDeletionRequest
      \<Rightarrow> (bool \<times> BlobDeletionRequest \<times> BlobStorageImpl \<times> deletion_event list) option" where
  "delete_data ut env st request =
     (case (if blocks_deleted request then Some (True, st, []) else delete_layout_blocks ut env st request) of
        None \<Rightarrow> None
      | Some (ok, st', events) \<Rightarrow>
          (if \<not> ok then Some (False, request, st', events)
           else
             let request' = request\<lparr>blocks_deleted := True\<rparr>
             in if mapped request'
                then map_option (\<lambda>(complete, row_events). (complete, request', st', events @ row_events)) (delete_ovr_rows ut env request')
                else Some (True, request', st', events)))"

definition delete_blob_once ::
    "uuid_text \<Rightarrow> deletion_env \<Rightarrow> BlobStorageImpl \<Rightarrow> BlobDeletionRequest
      \<Rightarrow> (bool \<times> BlobDeletionRequest \<times> BlobStorageImpl \<times> deletion_event list) option" where
  "delete_blob_once ut env st request =
     (if \<not> marker_written request \<and> \<not> write_gc_marker env then Some (False, request, st, [])
      else
        let marker_events = (if marker_written request then [] else [MarkerPut]);
            request' = request\<lparr>marker_written := True\<rparr>
        in if (case grace_until request of Some deadline \<Rightarrow> de_now env < deadline | None \<Rightarrow> False)
           then Some (False, request', st, marker_events)
           else map_option (apsnd (apsnd (apsnd ((@) marker_events)))) (delete_data ut env st (request'\<lparr>grace_until := None\<rparr>)))"

definition blob_deletion_attempt ::
    "uuid_text \<Rightarrow> deletion_env \<Rightarrow> BlobStorageImpl \<Rightarrow> BlobDeletionRequest
      \<Rightarrow> (BlobDeletionRequest option \<times> BlobStorageImpl \<times> deletion_event list) option" where
  "blob_deletion_attempt ut env st request =
     map_option (\<lambda>(complete, request', st', events). (if complete then None else Some request', st', events))
       (delete_blob_once ut env st request)"

section \<open>The worker\<close>

definition BLOB_DELETE_REQUEST_CONCURRENCY :: nat where "BLOB_DELETE_REQUEST_CONCURRENCY = 4"
definition DELETE_RETRY_DELAY :: nat where "DELETE_RETRY_DELAY = 1000000000"

text \<open>The variables of \<open>blob_deletion_task\<close>, with the channel it reads: \<open>input_open\<close> while there are senders and
  the receiver has not closed it. The last two fields record the requests that the channel accepted
  and those whose deletion is complete.\<close>

record deletion_worker =
  input_queue :: "BlobDeletionRequest list"
  input_open :: bool
  input_closed :: bool
  shutdown_requested :: bool
  active :: "BlobDeletionRequest list"
  retries :: "(nat \<times> BlobDeletionRequest) list"
  prefer_retry :: bool
  returned :: bool
  accepted :: "DataBlobGuid list"
  finished :: "DataBlobGuid list"

definition worker_start :: deletion_worker where
  "worker_start = \<lparr>input_queue = [], input_open = True, input_closed = False, shutdown_requested = False, active = [],
     retries = [], prefer_retry = True, returned = False, accepted = [], finished = []\<rparr>"

definition start_retry :: "deletion_worker \<Rightarrow> deletion_worker" where
  "start_retry w = w\<lparr>active := active w @ [snd (hd (retries w))], retries := tl (retries w), prefer_retry := False\<rparr>"

definition start_input :: "deletion_worker \<Rightarrow> deletion_worker" where
  "start_input w = w\<lparr>active := active w @ [hd (input_queue w)], input_queue := tl (input_queue w), prefer_retry := True\<rparr>"

text \<open>Whether the oldest retry is due.\<close>

definition retry_ready :: "nat \<Rightarrow> deletion_worker \<Rightarrow> bool" where
  "retry_ready now w = (case retries w of [] \<Rightarrow> False | (ready_at, _) # _ \<Rightarrow> ready_at \<le> now)"

text \<open>\<open>try_recv\<close> on an empty queue tells whether it can still fill.\<close>

definition note_closed :: "deletion_worker \<Rightarrow> deletion_worker" where
  "note_closed w = (if \<not> input_closed w \<and> \<not> input_open w then w\<lparr>input_closed := True\<rparr> else w)"

text \<open>The inner loop starts attempts while there is room; the clock is read in each round.\<close>

function fill :: "(nat \<Rightarrow> nat) \<Rightarrow> deletion_worker \<Rightarrow> deletion_worker" where
  "fill clock w =
     (if BLOB_DELETE_REQUEST_CONCURRENCY \<le> length (active w) then w
      else if prefer_retry w \<and> retry_ready (clock (length (active w))) w then fill clock (start_retry w)
      else if \<not> input_closed w \<and> input_queue w \<noteq> [] then fill clock (start_input w)
      else if retry_ready (clock (length (active w))) w then fill clock (start_retry (note_closed w))
      else note_closed w)"
  by pat_completeness auto
termination
  by (relation "measure (\<lambda>(clock, w). BLOB_DELETE_REQUEST_CONCURRENCY - length (active w))")
    (auto simp: start_retry_def start_input_def note_closed_def)

declare fill.simps [simp del]

text \<open>The outer loop up to its \<open>select!\<close>.\<close>

definition round_top :: "(nat \<Rightarrow> nat) \<Rightarrow> deletion_worker \<Rightarrow> deletion_worker" where
  "round_top clock w =
     (let w' = fill clock w
      in if input_closed w' \<and> active w' = [] \<and> retries w' = [] then w'\<lparr>returned := True\<rparr> else w')"

text \<open>What can happen while the worker waits: clients send or go away, or a branch of the \<open>select!\<close> fires.\<close>

datatype worker_event =
    Enqueue BlobDeletionRequest
  | DropSenders
  | Received
  | AttemptDone nat deletion_env BlobStorageImpl nat
  | RetryTimer
  | ShutdownSignal

definition remove_nth :: "nat \<Rightarrow> 'a list \<Rightarrow> 'a list" where
  "remove_nth i xs = take i xs @ drop (Suc i) xs"

definition worker_step :: "uuid_text \<Rightarrow> (nat \<Rightarrow> nat) \<Rightarrow> worker_event \<Rightarrow> deletion_worker \<Rightarrow> deletion_worker option" where
  "worker_step ut clock ev w =
     (case ev of
        Enqueue request \<Rightarrow>
          Some (if input_open w \<and> \<not> returned w
                then w\<lparr>input_queue := input_queue w @ [request], accepted := accepted w @ [br_guid request]\<rparr> else w)
      | DropSenders \<Rightarrow> Some (w\<lparr>input_open := False\<rparr>)
      | Received \<Rightarrow>
          (if returned w \<or> input_closed w \<or> BLOB_DELETE_REQUEST_CONCURRENCY \<le> length (active w) then None
           else if input_queue w \<noteq> [] then Some (round_top clock (start_input w))
           else if \<not> input_open w then Some (round_top clock (w\<lparr>input_closed := True\<rparr>))
           else None)
      | AttemptDone i env st now \<Rightarrow>
          (if returned w \<or> length (active w) \<le> i then None
           else case blob_deletion_attempt ut env st (active w ! i) of
               None \<Rightarrow> None
             | Some (None, _) \<Rightarrow>
                 Some (round_top clock (w\<lparr>active := remove_nth i (active w), finished := finished w @ [br_guid (active w ! i)]\<rparr>))
             | Some (Some request, _) \<Rightarrow>
                 Some (round_top clock (w\<lparr>active := remove_nth i (active w), retries := retries w @ [(now + DELETE_RETRY_DELAY, request)]\<rparr>)))
      | RetryTimer \<Rightarrow> if returned w \<or> retries w = [] then None else Some (round_top clock w)
      | ShutdownSignal \<Rightarrow>
          if returned w \<or> shutdown_requested w then None
          else Some (round_top clock (w\<lparr>input_open := False, shutdown_requested := True\<rparr>)))"

fun worker_run :: "uuid_text \<Rightarrow> ((nat \<Rightarrow> nat) \<times> worker_event) list \<Rightarrow> deletion_worker \<Rightarrow> deletion_worker option" where
  "worker_run ut [] w = Some w"
| "worker_run ut ((clock, ev) # evs) w =
     (case worker_step ut clock ev w of None \<Rightarrow> None | Some w' \<Rightarrow> worker_run ut evs w')"

section \<open>No request is lost\<close>

abbreviation waiting :: "deletion_worker \<Rightarrow> DataBlobGuid multiset" where
  "waiting w \<equiv> mset (map br_guid (input_queue w)) + mset (map br_guid (active w)) + mset (map (br_guid \<circ> snd) (retries w))"

definition worker_ok :: "deletion_worker \<Rightarrow> bool" where
  "worker_ok w \<longleftrightarrow>
     length (active w) \<le> BLOB_DELETE_REQUEST_CONCURRENCY \<and> mset (accepted w) = waiting w + mset (finished w) \<and>
     (input_closed w \<longrightarrow> input_queue w = [] \<and> \<not> input_open w) \<and> (returned w \<longrightarrow> waiting w = {#})"

lemma start_ok:
  assumes "worker_ok w" "\<not> returned w" "\<not> BLOB_DELETE_REQUEST_CONCURRENCY \<le> length (active w)"
  shows "retry_ready now w \<Longrightarrow> worker_ok (start_retry w) \<and> \<not> returned (start_retry w)"
    and "input_queue w \<noteq> [] \<Longrightarrow> worker_ok (start_input w) \<and> \<not> returned (start_input w)"
  using assms by (auto simp: worker_ok_def start_retry_def start_input_def retry_ready_def neq_Nil_conv split: list.splits)

lemma note_closed_ok:
  assumes "worker_ok w" "\<not> returned w" "\<not> (\<not> input_closed w \<and> input_queue w \<noteq> [])"
  shows "worker_ok (note_closed w) \<and> \<not> returned (note_closed w)"
  using assms by (auto simp: worker_ok_def note_closed_def)

lemma note_closed_simps [simp]:
  "active (note_closed w) = active w" "retry_ready now (note_closed w) = retry_ready now w"
  by (simp_all add: note_closed_def retry_ready_def)

lemma fill_ok:
  assumes "worker_ok w" "\<not> returned w"
  shows "worker_ok (fill clock w) \<and> \<not> returned (fill clock w)"
  using assms
proof (induction clock w rule: fill.induct)
  case (1 clock w)
  let ?full = "BLOB_DELETE_REQUEST_CONCURRENCY \<le> length (active w)" and ?ready = "retry_ready (clock (length (active w))) w"
  consider ?full | "\<not> ?full" "prefer_retry w \<and> ?ready"
    | "\<not> ?full" "\<not> (prefer_retry w \<and> ?ready)" "\<not> input_closed w \<and> input_queue w \<noteq> []"
    | "\<not> ?full" "\<not> (prefer_retry w \<and> ?ready)" "\<not> (\<not> input_closed w \<and> input_queue w \<noteq> [])" by blast
  then show ?case
  proof cases
    case 1
    then show ?thesis using "1.prems" by (simp add: fill.simps)
  next
    case 2
    then have "fill clock w = fill clock (start_retry w)" by (subst fill.simps) simp
    then show ?thesis using "1.IH"(1) [OF 2] start_ok(1) [OF "1.prems" 2(1) conjunct2 [OF 2(2)]] by simp
  next
    case 3
    then have "fill clock w = fill clock (start_input w)" by (subst fill.simps) (simp only: if_False if_True simp_thms)
    then show ?thesis using "1.IH"(2) [OF 3] start_ok(2) [OF "1.prems" 3(1) conjunct2 [OF 3(3)]] by simp
  next
    case 4
    note closed = note_closed_ok [OF "1.prems" 4(3)]
    have eq: "fill clock w = (if ?ready then fill clock (start_retry (note_closed w)) else note_closed w)"
      using 4 by (subst fill.simps) (simp only: if_False simp_thms)
    show ?thesis
    proof (cases ?ready)
      case True
      have "worker_ok (start_retry (note_closed w)) \<and> \<not> returned (start_retry (note_closed w))"
        using start_ok(1) [of "note_closed w" "clock (length (active w))"] closed 4(1) True by simp
      then show ?thesis using "1.IH"(3) [OF 4 True] eq True by simp
    next
      case False
      then show ?thesis using closed eq by simp
    qed
  qed
qed

lemma round_top_ok: "worker_ok w \<Longrightarrow> \<not> returned w \<Longrightarrow> worker_ok (round_top clock w)"
proof -
  assume "worker_ok w" "\<not> returned w"
  then have "worker_ok (fill clock w)" using fill_ok by blast
  then show ?thesis unfolding round_top_def Let_def worker_ok_def by simp
qed

lemma mset_remove_nth:
  assumes "i < length xs" shows "mset (map f xs) = add_mset (f (xs ! i)) (mset (map f (remove_nth i xs)))"
proof -
  have "mset (map f xs) = mset (map f (take i xs @ xs ! i # drop (Suc i) xs))" using assms by (simp flip: id_take_nth_drop)
  then show ?thesis by (simp add: remove_nth_def)
qed

lemma delete_data_guid:
  "delete_data ut env st request = Some (complete, request', st', events) \<Longrightarrow> br_guid request' = br_guid request"
  by (auto simp: delete_data_def Let_def split: if_splits option.splits prod.splits)

lemma once_guid:
  "delete_blob_once ut env st request = Some (complete, request', st', events) \<Longrightarrow> br_guid request' = br_guid request"
  by (auto simp: delete_blob_once_def Let_def dest!: delete_data_guid split: if_splits)

lemma attempt_guid:
  "blob_deletion_attempt ut env st request = Some (Some request', rest) \<Longrightarrow> br_guid request' = br_guid request"
  using once_guid by (fastforce simp: blob_deletion_attempt_def split: if_splits)

lemma worker_step_ok:
  assumes "worker_ok w" "worker_step ut clock ev w = Some w'"
  shows "worker_ok w'"
proof (cases ev)
  case (Enqueue request)
  then show ?thesis using assms by (cases "input_open w \<and> \<not> returned w") (auto simp: worker_step_def worker_ok_def)
next
  case DropSenders
  then show ?thesis using assms by (auto simp: worker_step_def worker_ok_def)
next
  case Received
  then show ?thesis
    using assms start_ok(2) [OF assms(1)]
    by (auto simp: worker_step_def worker_ok_def [of "w\<lparr>input_closed := True\<rparr>"] worker_ok_def [of w]
        intro!: round_top_ok split: if_splits)
next
  case (AttemptDone i env st now)
  then have i: "\<not> returned w" "i < length (active w)" using assms(2) by (auto simp: worker_step_def split: if_splits)
  note m = mset_remove_nth [OF i(2), of br_guid]
  have len: "length (remove_nth i (active w)) \<le> length (active w)" by (simp add: remove_nth_def)
  obtain next_request rest where attempt: "blob_deletion_attempt ut env st (active w ! i) = Some (next_request, rest)"
    using assms(2) AttemptDone i by (auto simp: worker_step_def split: option.splits)
  show ?thesis
  proof (cases next_request)
    case None
    have "worker_ok (w\<lparr>active := remove_nth i (active w), finished := finished w @ [br_guid (active w ! i)]\<rparr>)"
      using assms(1) i(1) m len by (simp add: worker_ok_def)
    then show ?thesis using assms(2) AttemptDone i attempt None by (auto simp: worker_step_def intro: round_top_ok)
  next
    case (Some request)
    have "br_guid request = br_guid (active w ! i)" using attempt Some attempt_guid by blast
    then have "worker_ok (w\<lparr>active := remove_nth i (active w), retries := retries w @ [(now + DELETE_RETRY_DELAY, request)]\<rparr>)"
      using assms(1) i(1) m len by (simp add: worker_ok_def)
    then show ?thesis using assms(2) AttemptDone i attempt Some by (auto simp: worker_step_def intro: round_top_ok)
  qed
next
  case RetryTimer
  then show ?thesis using assms by (auto simp: worker_step_def intro: round_top_ok split: if_splits)
next
  case ShutdownSignal
  have "worker_ok (w\<lparr>input_open := False, shutdown_requested := True\<rparr>)" using assms(1) by (simp add: worker_ok_def)
  then show ?thesis using ShutdownSignal assms by (auto simp: worker_step_def intro: round_top_ok split: if_splits)
qed

lemma worker_run_ok: "worker_ok w \<Longrightarrow> worker_run ut evs w = Some w' \<Longrightarrow> worker_ok w'"
proof (induction ut evs w rule: worker_run.induct)
  case (2 ut clock ev evs w)
  then show ?case using worker_step_ok [of w ut clock ev] by (auto split: option.splits)
qed simp

text \<open>C21. The deletion worker loses no request, whatever the order of sends, attempts, retries and the shutdown: at any
  moment the accepted requests are exactly those still queued, being attempted or waiting for a retry,
  and those whose deletion is complete. At most four attempts run at a time, and when the worker
  returns every accepted request is complete.\<close>

theorem no_deletion_lost:
  assumes "worker_run ut evs worker_start = Some w"
  shows "mset (accepted w) = waiting w + mset (finished w) \<and> length (active w) \<le> BLOB_DELETE_REQUEST_CONCURRENCY \<and>
    (returned w \<longrightarrow> mset (accepted w) = mset (finished w))"
proof -
  have "worker_ok worker_start" by (simp add: worker_ok_def worker_start_def)
  from worker_run_ok [OF this assms] show ?thesis by (auto simp: worker_ok_def)
qed

section \<open>The order of a teardown\<close>

definition block_events :: "(u32 \<times> u64) list \<Rightarrow> deletion_event list" where
  "block_events ids = map (\<lambda>(b, v). BlockDeleted b v) ids"

lemma block_events_simps [simp]:
  "block_events [] = []" "block_events ((b, v) # ids) = BlockDeleted b v # block_events ids"
  by (simp_all add: block_events_def)

lemma delete_blocks_events:
  assumes "delete_blocks ut env guid location ids st = (failed, st', events)"
  shows "\<exists>sub. events = block_events sub \<and> set sub \<subseteq> set ids \<and> (\<not> failed \<longrightarrow> sub = ids)"
  using assms
proof (induction ids arbitrary: st failed st' events)
  case (Cons id ids)
  obtain b v where id: "id = (b, v)" by fastforce
  obtain r st1 where r: "storage_delete_blob (ut_hyphenated ut) (env (b, v)) st guid b v location = (r, st1)" by fastforce
  obtain failed2 st2 events2 where rest: "delete_blocks ut env guid location ids st1 = (failed2, st2, events2)" by (metis prod_cases3)
  obtain sub where sub: "events2 = block_events sub" "set sub \<subseteq> set ids" "\<not> failed2 \<longrightarrow> sub = ids" using Cons.IH [OF rest] by blast
  show ?case
  proof (cases r)
    case (Inl e)
    then have "failed" "events = block_events sub" using Cons.prems id r rest sub by simp_all
    then show ?thesis using sub(2) by auto
  next
    case (Inr u)
    then have "failed = failed2" "events = block_events ((b, v) # sub)" using Cons.prems id r rest sub(1) by simp_all
    moreover have "set ((b, v) # sub) \<subseteq> set (id # ids)" using sub(2) id by auto
    ultimately show ?thesis using sub(3) id by blast
  qed
qed simp

lemma delete_keys_events: "delete_keys env keys = Some (failed, events) \<Longrightarrow> \<exists>ks. events = map KeyDeleted ks"
proof (induction keys arbitrary: failed events)
  case (Cons key keys)
  then obtain gone f evs where "delete_nss_key env key = Some gone" "delete_keys env keys = Some (f, evs)"
    by (auto split: option.splits bool.splits)
  moreover from this(2) obtain ks where "evs = map KeyDeleted ks" using Cons.IH by blast
  ultimately show ?case using Cons.prems by (cases gone) (auto intro: exI [of _ "key # ks"])
qed simp

lemma delete_row_pages_events:
  assumes "delete_row_pages env start_after before = Some (complete, events)"
  shows "\<exists>ks. events = before @ map KeyDeleted ks"
proof -
  have "\<exists>ks. snd (complete, events) = before @ map KeyDeleted ks"
  proof (rule delete_row_pages.raw_induct [where P = "\<lambda>env start_after before y. \<exists>ks. snd y = before @ map KeyDeleted ks", OF _ assms])
    fix pages :: "deletion_env \<Rightarrow> string \<Rightarrow> deletion_event list \<Rightarrow> (bool \<times> deletion_event list) option" and env start_after before y
    assume IH: "\<And>env start_after before (y :: bool \<times> deletion_event list). pages env start_after before = Some y \<Longrightarrow> \<exists>ks. snd y = before @ map KeyDeleted ks"
    assume run: "(case de_rows env start_after of
        Inl _ \<Rightarrow> Some (False, before)
      | Inr response \<Rightarrow>
          (case parse_list_inodes_raw response of
             None \<Rightarrow> None
           | Some (Inl NssNoSuchRootBlob) \<Rightarrow> Some (True, before)
           | Some (Inl _) \<Rightarrow> Some (False, before)
           | Some (Inr (page, following)) \<Rightarrow>
               (if page = [] then Some (True, before)
                else case delete_keys env (de_key_order env (map fst page)) of
                    None \<Rightarrow> None
                  | Some (failed, events) \<Rightarrow>
                      if failed then Some (False, before @ events)
                      else if \<not> following then Some (True, before @ events)
                      else pages env (fst (last page)) (before @ events)))) = Some y"
    show "\<exists>ks. snd y = before @ map KeyDeleted ks"
    proof (cases "\<exists>k failed events keys. delete_keys env keys = Some (failed, events) \<and> pages env k (before @ events) = Some y")
      case True
      then obtain k failed events keys where "delete_keys env keys = Some (failed, events)" "pages env k (before @ events) = Some y" by blast
      then obtain ks ks' where "events = map KeyDeleted ks" "snd y = (before @ events) @ map KeyDeleted ks'"
        using IH delete_keys_events by meson
      then have "snd y = before @ map KeyDeleted (ks @ ks')" by simp
      then show ?thesis by blast
    next
      case False
      then show ?thesis
        using run delete_keys_events
        by (auto split: sum.splits option.splits NssError.splits prod.splits if_splits) fastforce+
    qed
  qed
  then show ?thesis by simp
qed

lemma delete_ovr_rows_events:
  assumes "delete_ovr_rows ut env request = Some (complete, events)"
  shows "\<exists>ks. events = map KeyDeleted ks \<and>
    (complete \<longrightarrow> ks \<noteq> [] \<and> last ks = ovr_gc_key (ut_simple ut) (blob_id (br_guid request)))"
proof -
  let ?gc = "ovr_gc_key (ut_simple ut) (blob_id (br_guid request))"
  obtain swept evs where pages: "delete_row_pages env [] [] = Some (swept, evs)"
    using assms by (auto simp: delete_ovr_rows_def split: option.splits)
  obtain ks where ks: "evs = map KeyDeleted ks" using delete_row_pages_events [OF pages] by auto
  have "complete \<and> events = map KeyDeleted (ks @ [?gc]) \<or> \<not> complete \<and> events = map KeyDeleted ks"
    using assms pages ks by (cases swept) (auto simp: delete_ovr_rows_def Let_def split: option.splits bool.splits)
  then show ?thesis by (metis last_snoc snoc_eq_iff_butlast)
qed

lemma delete_layout_blocks_events:
  assumes "delete_layout_blocks ut env st request = Some (ok, st', events)"
  shows "\<exists>sub. events = block_events sub \<and>
    (ok \<longrightarrow> (\<exists>ids st1. list_identities ut env st request = Some (Inr ids, st1) \<and> sub = de_block_order env (remdups_adj (sort ids))))"
proof -
  obtain listed st1 where l: "list_identities ut env st request = Some (listed, st1)"
    using assms by (auto simp: delete_layout_blocks_def)
  show ?thesis
  proof (cases listed)
    case (Inl e)
    then show ?thesis using assms l by (auto simp: delete_layout_blocks_def intro: exI [of _ "[]"])
  next
    case (Inr ids)
    obtain failed st2 evs where d: "delete_blocks ut (de_block env) (br_guid request) (br_location request)
        (de_block_order env (remdups_adj (sort ids))) st1 = (failed, st2, evs)" by (metis prod_cases3)
    then have "ok = (\<not> failed)" "events = evs" using assms l Inr by (simp_all add: delete_layout_blocks_def)
    then show ?thesis using delete_blocks_events [OF d] l Inr by blast
  qed
qed

lemma delete_data_events:
  assumes "delete_data ut env st request = Some (complete, request', st', events)"
  shows "\<exists>blocks keys. events = block_events blocks @ map KeyDeleted keys \<and> marker_written request' = marker_written request \<and>
    (keys \<noteq> [] \<or> complete \<longrightarrow> blocks_deleted request') \<and>
    (blocks_deleted request' \<and> \<not> blocks_deleted request \<longrightarrow>
       (\<exists>ids st1. list_identities ut env st request = Some (Inr ids, st1) \<and> blocks = de_block_order env (remdups_adj (sort ids)))) \<and>
    (complete \<and> mapped request \<longrightarrow> keys \<noteq> [] \<and> last keys = ovr_gc_key (ut_simple ut) (blob_id (br_guid request)))"
proof -
  let ?done = "request\<lparr>blocks_deleted := True\<rparr>"
  obtain ok st1 ev where blocks: "(if blocks_deleted request then Some (True, st, []) else delete_layout_blocks ut env st request) = Some (ok, st1, ev)"
    using assms by (auto simp: delete_data_def split: option.splits)
  obtain sub where sub: "ev = block_events sub" "ok \<and> \<not> blocks_deleted request \<longrightarrow>
      (\<exists>ids st1. list_identities ut env st request = Some (Inr ids, st1) \<and> sub = de_block_order env (remdups_adj (sort ids)))"
    using that [of "[]"] that blocks delete_layout_blocks_events [of ut env st request ok st1 ev]
    by (cases "blocks_deleted request") auto
  consider "\<not> ok" | "ok" "\<not> mapped request" | "ok" "mapped request" by blast
  then show ?thesis
  proof cases
    case 1
    then have "\<not> blocks_deleted request" using blocks by (auto split: if_splits)
    then show ?thesis
      using assms 1 sub(1) unfolding delete_data_def blocks by (intro exI [of _ sub] exI [of _ "[]"]) auto
  next
    case 2
    then show ?thesis using assms sub unfolding delete_data_def blocks by (intro exI [of _ sub] exI [of _ "[]"]) auto
  next
    case 3
    then obtain ev3 where rows: "delete_ovr_rows ut env ?done = Some (complete, ev3)" "request' = ?done" "events = ev @ ev3"
      using assms unfolding delete_data_def blocks by (auto simp: Let_def)
    obtain ks where ks: "ev3 = map KeyDeleted ks" "complete \<longrightarrow> ks \<noteq> [] \<and> last ks = ovr_gc_key (ut_simple ut) (blob_id (br_guid request))"
      using delete_ovr_rows_events [OF rows(1)] by auto
    then show ?thesis using rows(2,3) sub 3 by (intro exI [of _ sub] exI [of _ ks]) auto
  qed
qed


section \<open>A deletion\<close>

text \<open>An overwritten blob in S3 with one block and one row.\<close>

definition doomed_env :: deletion_env where
  "doomed_env = \<lparr>de_now = 20, de_marker = Inr (Some (PutOk [])),
     de_list = (\<lambda>_ _. sample_list),
     de_s3 = sample_s3\<lparr>s3_list_objects := (\<lambda>_ _. Inr \<lparr>page_keys = [Some (blob_key (\<lambda>_. ''a'') 1 0 1)],
       next_continuation_token = None, is_truncated = Some False\<rparr>)\<rparr>,
     de_block_order = (\<lambda>ids. ids), de_block = (\<lambda>_. \<lparr>sd_nodes = \<lparr>de_clock = (\<lambda>_. 0), de_order = [], de_done = (\<lambda>_. 0), de_rpc = (\<lambda>_ _. Inr ())\<rparr>, sd_s3 = sample_s3\<rparr>),
     de_rows = (\<lambda>_. Inr (Some (ListOk [\<lparr>inode_key = ''@ovr/a/00000000'', inode_bytes = [1]\<rparr>] False))),
     de_key_order = (\<lambda>keys. keys), de_key = (\<lambda>_. Inr (Some (DeleteOk [])))\<rparr>"

definition doomed_text :: uuid_text where "doomed_text = \<lparr>ut_hyphenated = (\<lambda>_. ''a''), ut_simple = (\<lambda>_. ''a'')\<rparr>"

definition doomed :: BlobDeletionRequest where
  "doomed = \<lparr>br_guid = \<lparr>blob_id = 1, volume_id = S3_VOLUME\<rparr>, br_location = S3Location, mapped = True,
     marker_written = False, grace_until = Some 9, blocks_deleted = False\<rparr>"

lemma doomed_run:
  "delete_blob_once doomed_text doomed_env sample_storage doomed =
     Some (True, doomed\<lparr>marker_written := True, grace_until := None, blocks_deleted := True\<rparr>, sample_storage,
       [MarkerPut, BlockDeleted 0 1, KeyDeleted ''@ovr/a/00000000'', KeyDeleted ''@ovr-gc/a''])"
proof -
  have list: "list_store_pages (\<lambda>_. ''a'') (de_s3 doomed_env) 1 None [] = Some (Inr [(0, 1)])"
    by (subst list_store_pages.simps)
      (simp add: doomed_env_def page_blocks_def List.map_filter_def)
  have rows: "delete_row_pages doomed_env [] [] = Some (True, [KeyDeleted ''@ovr/a/00000000''])"
    by (subst delete_row_pages.simps)
      (simp add: doomed_env_def parse_list_inodes_raw_def list_response_def trim_end_matches_def nul_def delete_nss_key_def parse_delete_inode_def)
  let ?req = "doomed\<lparr>marker_written := True, grace_until := None\<rparr>"
  have fields: "de_now doomed_env = 20" "de_marker doomed_env = Inr (Some (PutOk []))" "\<And>ids. de_block_order doomed_env ids = ids"
    "\<And>key. de_key doomed_env key = Inr (Some (DeleteOk []))" "\<And>id key. s3_delete_object (sd_s3 (de_block doomed_env id)) key = Inr ()"
    by (simp_all add: doomed_env_def sample_s3_def)
  have blocks: "delete_layout_blocks doomed_text doomed_env sample_storage ?req = Some (True, sample_storage, [BlockDeleted 0 1])"
    using list by (simp add: delete_layout_blocks_def list_identities_def list_s3_blob_blocks_def store_list_blob_blocks_def doomed_def
        doomed_text_def sample_storage_def storage_delete_blob_def hybrid_delete_blob_def store_delete_def fields)
  have sweep: "delete_ovr_rows doomed_text doomed_env (?req\<lparr>blocks_deleted := True\<rparr>) =
      Some (True, [KeyDeleted ''@ovr/a/00000000'', KeyDeleted ''@ovr-gc/a''])"
    using rows by (simp add: delete_ovr_rows_def delete_nss_key_def parse_delete_inode_def fields doomed_text_def ovr_gc_key_def OVR_GC_PREFIX_def)
  have flags: "\<not> blocks_deleted ?req" "mapped doomed" "\<not> marker_written doomed" "grace_until doomed = Some 9" by (simp_all add: doomed_def)
  have "delete_data doomed_text doomed_env sample_storage ?req = Some (True, ?req\<lparr>blocks_deleted := True\<rparr>, sample_storage,
      [BlockDeleted 0 1, KeyDeleted ''@ovr/a/00000000'', KeyDeleted ''@ovr-gc/a''])"
    using flags(1,2) blocks sweep by (simp add: delete_data_def)
  then show ?thesis using flags(3,4) by (simp add: delete_blob_once_def write_gc_marker_def fields)
qed


theorem no_deletion_lost_witness:
  "\<exists>w. worker_run doomed_text [(\<lambda>_. 0, Enqueue doomed), (\<lambda>_. 0, Received), (\<lambda>_. 20, AttemptDone 0 doomed_env sample_storage 20),
      (\<lambda>_. 20, ShutdownSignal)] worker_start = Some w \<and> returned w \<and> accepted w = [br_guid doomed] \<and> mset (accepted w) = mset (finished w)"
proof -
  let ?evs = "[(\<lambda>_. 0, Enqueue doomed), (\<lambda>_. 0, Received), (\<lambda>_. 20, AttemptDone 0 doomed_env sample_storage 20), (\<lambda>_. 20, ShutdownSignal)]"
  let ?w = "worker_start\<lparr>input_open := False, input_closed := True, shutdown_requested := True, returned := True,
    accepted := [br_guid doomed], finished := [br_guid doomed]\<rparr>"
  have run: "worker_run doomed_text ?evs worker_start = Some ?w"
    by (simp add: worker_step_def worker_start_def round_top_def fill.simps start_input_def retry_ready_def note_closed_def remove_nth_def
        BLOB_DELETE_REQUEST_CONCURRENCY_def blob_deletion_attempt_def doomed_run)
  show ?thesis using no_deletion_lost [OF run] run by (intro exI [of _ ?w]) simp
qed

end
