(* ===== verification/Spec2Isabelle.thy ===== *)
theory Spec2Isabelle
  imports Ovr_Map Object_Layout Data_Vg_Proxy Bss_Client Aws_Roundtrip Blob_Deletion
begin

text \<open>
  Verification of FractalBits: an S3-compatible object store whose gateway (\<open>crates/s3_gateway\<close>) keeps
  object metadata in a name server (NSS) and object data as blocks on block servers (BSS), grouped
  into volumes that are replicated or erasure coded. The development follows an object from the
  HTTP body down to the bytes on a connection, and back to the body of a GET.

  \<^bold>\<open>How the parts interact.\<close> An upload arrives as a stream of network segments, possibly in the
  aws-chunked encoding (\<open>Aws_Streaming\<close>), and is cut into blocks (\<open>Block_Stream\<close>). Its object layout
  (\<open>Object_Layout\<close>) names the blob, its size and its blocks; overwritten blocks are found through the
  version map (\<open>Ovr_Map\<close>), which a GET consults (\<open>Get_Object\<close>). Blocks go through a storage back end
  (\<open>Blob_Storage\<close>) to S3 or to a volume group (\<open>Vg_Types\<close>, \<open>Vg_Replicated\<close>, \<open>Vg_Erasure\<close>,
  \<open>Ec_Reads\<close>, \<open>Data_Vg_Proxy\<close>), which writes to and reads from its nodes by quorum, guarded by one
  circuit breaker per node (\<open>Circuit_Breaker\<close>). Each node is reached by an RPC client (\<open>Bss_Client\<close>)
  over a multiplexed connection (\<open>Rpc_Client\<close>, \<open>Rpc_Pending\<close>) with checksummed headers
  (\<open>Rpc_Codec\<close>) and retry loops (\<open>Rpc_Retry\<close>).

  \<^bold>\<open>Theories, sources and results.\<close>

  \<^item> \<open>FB_Prelude\<close>: machine integers as words (\<open>usize\<close> as \<open>nat\<close>), results as sums with \<open>Inl\<close> for the
    error, panics as \<open>None\<close>, the standard-library operations the sources use, and the interface
    \<open>ordered_map\<close> of \<open>BTreeMap\<close>.
  \<^item> \<open>Ovr_Map\<close> (\<open>data_types/src/ovr_map.rs\<close>): row and marker codecs, resolution, merge, abort ranges,
    fetch plans, keys. A commit makes exactly the flushed blocks visible; staged and aborted rows
    never show; the codecs accept exactly what they produce.
  \<^item> \<open>Object_Layout\<close> (\<open>object_layout.rs\<close>, \<open>blob_guid.rs\<close>): accessors, mutators and the rebase rules. A
    burned version is never allocated again, and preparing an overwrite keeps committed data.
  \<^item> \<open>Rpc_Retry\<close> (\<open>client_common/src/lib.rs\<close>): error classes, retry loops, connection guard, with what
    they return and that they end.
  \<^item> \<open>Circuit_Breaker\<close>, \<open>Vg_Types\<close>, \<open>Vg_Replicated\<close>, \<open>Vg_Erasure\<close>, \<open>Ec_Reads\<close>, \<open>Data_Vg_Proxy\<close>
    (\<open>volume_group_proxy/src/data_vg_proxy.rs\<close>, \<open>data_types/src/volume.rs\<close>, \<open>ec_utils.rs\<close>):
    configuration, placement, quorum writes, reads with fallback and reconstruction, deletes and
    listings. What a write quorum acknowledged is what every later read returns, for any node
    answers the fault model allows; \<open>volume_operation\<close> is the contract that all public operations
    share, interpreted for each of them.
  \<^item> \<open>Rpc_Codec\<close>, \<open>Rpc_Client\<close>, \<open>Rpc_Pending\<close>, \<open>Bss_Client\<close> (\<open>rpc_codecs\<close>, \<open>generic_client.rs\<close>,
    \<open>rpc_clients/bss\<close>): headers, framing over partial reads and writes, pending requests under every
    interleaving, the requests themselves. Frames arrive intact and in order; a response reaches the
    caller with its id; \<open>message_header\<close> is the contract of a header, interpreted for the protobuf
    and the BSS header.
  \<^item> \<open>Block_Stream\<close> (\<open>put_object.rs\<close>, \<open>block_data_stream.rs\<close>): the two splitters implement the contract
    \<open>block_splitter\<close>, so buffered and streamed uploads are stored as the same blocks.
  \<^item> \<open>Aws_Streaming\<close>, \<open>Aws_Roundtrip\<close> (\<open>aws_signature/src/streaming.rs\<close>, \<open>s3_streaming.rs\<close>): chunk
    signatures, the encoder and the decoder's state machine. Signed bodies are decoded intact over any
    segmentation and a wrong signature is detected; the theorems of the last section show what
    escapes the checks.
  \<^item> \<open>S3_Checksum\<close> (\<open>handler/common/checksum.rs\<close>, \<open>extract/checksum_value.rs\<close>, the checksum task of
    \<open>s3_streaming.rs\<close>): an accepted upload agrees with the checksums that its client announced.
  \<^item> \<open>File_Ops\<close> (\<open>file_ops/src/lib.rs\<close>, \<open>handler/common.rs\<close>, \<open>s3_error.rs\<close>): what the name server's
    responses mean, the keys of multipart parts, error conversions.
  \<^item> \<open>Blob_Storage\<close> (\<open>s3_blob_store\<close>, \<open>blob_storage.rs\<close> and its back ends, \<open>blob_client.rs\<close>): blocks in S3
    or on the volume group. A block is read where it was put, and read back as it was written.
  \<^item> \<open>Get_Object\<close> (\<open>handler/get/get_object.rs\<close>): row maps, block reads, bodies, ranges and parts. A range
    is the slice of the body, and zeros never stand for lost data.
  \<^item> \<open>Blob_Deletion\<close> (\<open>blob_client.rs\<close>): background deletion of replaced and deleted blobs. No accepted
    request is lost, and the steps of a teardown keep the order that makes it recoverable.
  \<^item> This theory: read your writes through the whole proxy.

  \<^bold>\<open>Environment.\<close> Code outside the repository is a parameter: hashes and signatures, the Reed-Solomon
  coder, the protobuf and archive codecs, UUID text, the operating system's sockets. What a theorem
  needs of it is a named hypothesis, met by the concrete instance of its witness. Asynchronous
  operations take the clock values, the order in which futures complete, the nodes' answers and the
  cuts that sockets make as arguments, and theorems hold for all of them. Loops that may not end
  are partial functions into \<open>option\<close>, and theorems that they return say so; no fuel is used. The only
  bound is \<open>usize_MAX\<close>, which is \<open>usize::MAX\<close> on the 64-bit targets the code builds for.

  \<^bold>\<open>Not modelled.\<close> Of the gateway, request authentication, the handlers of PUT, DELETE, copy, listings and
  multipart uploads, and bucket and key management: of uploads, the development has the decoding, checksums,
  block cutting, routing and storage that the PUT handlers call, but not the handlers. Logging, tracing, metrics and statistics have no effect on results. Actix wiring,
  configuration files, TLS, sockets and process start-up are I/O. The deployment tools (\<open>xtask\<close>,
  \<open>infra\<close>), the benchmark client (\<open>bench_rpc\<close>), the container orchestrator and the command-line client
  (\<open>fractal-s3\<close>) run external programs and services and hold no data-path logic.
\<close>

section \<open>Read your writes\<close>

text \<open>
  C1. Read your writes through the whole proxy. Build a proxy from any configuration the
  constructor accepts, run any operations on it, create a guid for either tier, and put a block
  under it with the answer \<open>Stored\<close>. After any further operations, and whatever breakers are open,
  nodes are down, orders the answers arrive in, or moment the hedge timer fires, a read of that
  version does not panic, does not report the block as absent and does not return other bytes: it
  returns exactly the bytes that were put or fails for lack of a quorum. The only assumption is
  that the nodes keep what they acknowledged and, for an erasure-coded volume, the contract of the
  Reed-Solomon code.
\<close>

theorem read_your_writes:
  assumes "new_with_circuit_breaker info timeout c = Inr p0"
    and "create_data_blob_guid_with_preference fresh d (fold (run_op lib digest) before p0) prefer_ec =
      Some (guid, p1)"
    and "put_blob lib penv p1 guid block body version = (Inr Stored, p2)"
    and "find_volume p1 (volume_id guid) = Some v"
    and "nodes_keep lib penv v guid block body version genv holds"
  shows "fst (get_blob lib genv (fold (run_op lib digest) after p2) guid block version (length body)) =
      Some (Inr body) \<or>
    (\<exists>r. fst (get_blob lib genv (fold (run_op lib digest) after p2) guid block version (length body)) =
      Some (Inl (QuorumFailure r)))"
proof -
  let ?p3 = "fold (run_op lib digest) after p2"
  have s1: "proxy_shape p1 = proxy_shape p0"
    by (rule trans [OF create_shape [OF assms(2)] run_ops_shape])
  have "proxy_ok p0" using assms(1) unfolding constructor_iff by blast
  then have "proxy_ok p1" unfolding proxy_shape_ok [OF s1] .
  then have v: "volume_ok v" using find_volume_ok assms(4) by blast
  have p2: "p2 = snd (put_blob lib penv p1 guid block body version)"
    "fst (put_blob lib penv p1 guid block body version) = Inr Stored"
    using assms(3) by simp_all
  have put: "fst (put_volume lib penv guid block body version v) = Inr Stored"
    using p2(2) assms(4) by (simp add: put_blob_def put_blob_inner_def put_op.result)
  have "proxy_shape p1 = proxy_shape ?p3"
    unfolding run_ops_shape unfolding p2(1) put_blob_def put_blob_inner_def put_op.proxy_kept(1) ..
  then obtain w where w: "find_volume ?p3 (volume_id guid) = Some w" "volume_shape w = volume_shape v"
    using proxy_shape_find assms(4) by blast
  then show ?thesis
    using put_then_get_volume [OF v put w(2) assms(5)] by (simp add: get_blob_def get_op.result)
qed

text \<open>The sample configuration, written out.\<close>

lemma sample_proxy_eq:
  "sample_proxy = \<lparr>volumes = map (\<lambda>(i, m). \<lparr>vol_id = i,
      bss_nodes = map (\<lambda>a. bss_node_new a default_config) [''10.0.0.1:8088'', ''10.0.0.2:8088'', ''10.0.0.3:8088''],
      vol_mode = m, inflight = 0\<rparr>) [(1, Replicated 3 2 2), (0x8000, ErasureCoded 2 1)],
    round_robin_counter = 0, proxy_rpc_timeout = 9, policy = LeastQd, ec_hedge_delay = DEFAULT_EC_HEDGE_DELAY\<rparr>"
proof -
  have "char_of (56 :: nat) = CHR ''8''" "char_of (48 :: nat) = CHR ''0''" by code_simp+
  then have "decimal 8088 = ''8088''" by (simp add: decimal.simps)
  then show ?thesis
    by (simp add: sample_proxy_def sample_info_def sample_nodes_def build_volume_def)
qed

lemma ec_sample_fields:
  assumes "vol_mode v = ErasureCoded 2 1"
  shows "vol_k v = 2" "vol_m v = 1" "vol_rotation xor_lib v guid = 1"
    "shard_put_answer xor_lib ec_sample_put v guid block body version si = Inr ()"
  using assms
  by (simp_all add: vol_k_def vol_m_def vol_rotation_def ec_rotation_def xor_lib_def shard_put_answer_def
      put_blob_to_node_def ec_sample_put_def)

lemma ec_sample_proxy_put:
  "fst (put_blob_ec xor_lib ec_sample_put \<lparr>vol_id = 0x8000, bss_nodes = map (\<lambda>a. bss_node_new a default_config)
      [''10.0.0.1:8088'', ''10.0.0.2:8088'', ''10.0.0.3:8088''], vol_mode = ErasureCoded 2 1, inflight = 0\<rparr>
    \<lparr>blob_id = 9, volume_id = 0x8000\<rparr> 0 [1, 2, 3] 1) = Inr Stored"
  by code_simp

theorem read_your_writes_witness:
  "let d = \<lparr>draw_i = 0, draw_j = 0, draw_coin = True\<rparr>;
       guid = \<lparr>blob_id = 9, volume_id = 0x8000\<rparr>;
       genv = \<lparr>pg_repl = sample_get, pg_ec = ec_sample_get\<rparr>;
       p2 = snd (put_blob xor_lib ec_sample_put sample_proxy guid 0 [1, 2, 3] 1);
       p3 = run_op xor_lib (\<lambda>_. 0) (GetOp genv guid 0 1 3) p2
   in new_with_circuit_breaker sample_info 9 default_config = Inr sample_proxy \<and>
      create_data_blob_guid_with_preference 9 d sample_proxy True = Some (guid, sample_proxy) \<and>
      fst (put_blob xor_lib ec_sample_put sample_proxy guid 0 [1, 2, 3] 1) = Inr Stored \<and>
      (fst (get_blob xor_lib genv p3 guid 0 1 3) = Some (Inr [1, 2, 3]) \<or>
       (\<exists>r. fst (get_blob xor_lib genv p3 guid 0 1 3) = Some (Inl (QuorumFailure r))))"
proof -
  let ?d = "\<lparr>draw_i = 0, draw_j = 0, draw_coin = True\<rparr> :: selection_draws"
  let ?guid = "\<lparr>blob_id = 9, volume_id = 0x8000\<rparr> :: DataBlobGuid"
  let ?genv = "\<lparr>pg_repl = sample_get, pg_ec = ec_sample_get\<rparr> :: proxy_get_env"
  let ?put = "put_blob xor_lib ec_sample_put sample_proxy ?guid 0 [1, 2, 3] 1"
  let ?v = "\<lparr>vol_id = 0x8000, bss_nodes = map (\<lambda>a. bss_node_new a default_config)
      [''10.0.0.1:8088'', ''10.0.0.2:8088'', ''10.0.0.3:8088''],
    vol_mode = ErasureCoded 2 1, inflight = 0\<rparr> :: VolumeWithNodes"
  have v: "find_volume sample_proxy (volume_id ?guid) = Some ?v"
    by (simp add: find_volume_def sample_proxy_eq)
  have create: "create_data_blob_guid_with_preference 9 ?d sample_proxy True = Some (?guid, sample_proxy)"
    by (simp add: create_data_blob_guid_with_preference_def select_volume_for_blob_with_preference_def
        pick_volume_def candidate_tier_def sample_proxy_eq)
  have put: "fst ?put = Inr Stored"
    unfolding put_blob_def put_blob_inner_def put_op.result v option.case
    using ec_sample_proxy_put by (simp add: put_volume_def)
  have keep: "nodes_keep xor_lib ec_sample_put ?v ?guid 0 [1, 2, 3] 1 ?genv (\<lambda>_. True)"
    using node_shard_index [of 1 3] xor_lib_laws
    by (simp add: nodes_keep_def ec_nodes_keep_def ec_sample_fields ec_sample_params(5) Let_def
        ec_sample_get_def acked_def)
  have run: "?put = (Inr Stored, snd ?put)" using put by (metis prod.collapse)
  have len: "length [1, 2, 3 :: u8] = 3" by simp
  note ryw = read_your_writes [OF sample_proxy_new, where before = "[]" and after = "[GetOp ?genv ?guid 0 1 3]"
      and digest = "\<lambda>_. 0", unfolded fold_simps, OF create run v keep, unfolded len]
  then show ?thesis
    using sample_proxy_new create put unfolding Let_def by blast
qed

end
